(* ===== verification/Prelude.thy ===== *)
theory Prelude
  imports Complex_Main "HOL-Library.Word" "HOL-Library.Multiset"
begin

text \<open>
  Shared vocabulary of the development.

  \<^item> The program's integer types as words, byte strings as lists of bytes, and the result
    type of every operation that can hit an \<open>assert\<close>, an \<open>abort\<close>, an exception or a use
    that C++ leaves undefined.
  \<^item> The byte representation of integers on the little-endian hosts the program targets,
    with its round-trip laws (\<open>to_le\<close>, \<open>from_le\<close>, \<open>htons\<close>).
  \<^item> The simplification collections \<open>result_simps\<close> (sequencing of fallible operations) and
    \<open>byte_simps\<close> (integer encodings) that carry the component proofs.
  \<^item> The locale \<open>step_system\<close>: reachable states of a component driven by handlers, and the
    induction that turns a one-step law into an invariant of every reachable state.
\<close>

unbundle bit_operations_syntax

named_theorems result_simps "sequencing of fallible operations"
named_theorems byte_simps "byte encodings of integers"

section \<open>Integer types, bytes and results\<close>

type_synonym u8 = "8 word"
type_synonym u16 = "16 word"
type_synonym u32 = "32 word"
type_synonym u64 = "64 word"
type_synonym bytes = "u8 list"

text \<open>
  What stops an operation: a failed \<open>assert\<close>, a call of \<open>abort\<close>, an exception, a use that
  C++ leaves undefined, or (for the loops of the program that are given a step bound) an
  exhausted bound.
\<close>

datatype failure = Assert_failed | Aborted | Thrown string | Undefined_behaviour | Fuel_exhausted

type_synonym 'a result = "failure + 'a"

definition bindR :: "'a result \<Rightarrow> ('a \<Rightarrow> 'b result) \<Rightarrow> 'b result" where
  "bindR m f = (case m of Inl e \<Rightarrow> Inl e | Inr x \<Rightarrow> f x)"

definition assertR :: "bool \<Rightarrow> 'a result \<Rightarrow> 'a result" where
  "assertR b m = (if b then m else Inl Assert_failed)"

lemma bindR_Inr [simp, result_simps]: "bindR (Inr x) f = f x"
  and bindR_Inl [simp, result_simps]: "bindR (Inl e) f = Inl e"
  by (simp_all add: bindR_def)

lemma assertR_True [simp, result_simps]: "assertR True m = m"
  and assertR_False [simp, result_simps]: "assertR False m = Inl Assert_failed"
  by (simp_all add: assertR_def)

lemma bindR_eq_Inr [result_simps]: "bindR m f = Inr y \<longleftrightarrow> (\<exists>x. m = Inr x \<and> f x = Inr y)"
  by (cases m) simp_all

lemma bindR_eq_Inl: "bindR m f = Inl e \<longleftrightarrow> m = Inl e \<or> (\<exists>x. m = Inr x \<and> f x = Inl e)"
  by (cases m) simp_all

lemma assertR_eq_Inr [result_simps]: "assertR b m = Inr y \<longleftrightarrow> b \<and> m = Inr y"
  by (simp add: assertR_def)

lemma bindR_cong [fundef_cong]:
  "m = n \<Longrightarrow> (\<And>x. n = Inr x \<Longrightarrow> f x = g x) \<Longrightarrow> bindR m f = bindR n g"
  by (cases n) simp_all

lemma assertR_cong [fundef_cong]: "b = c \<Longrightarrow> (c \<Longrightarrow> m = n) \<Longrightarrow> assertR b m = assertR c n"
  by (simp add: assertR_def)

definition returns :: "'a result \<Rightarrow> bool" where
  "returns m \<longleftrightarrow> (\<exists>x. m = Inr x)"

lemma returns_simps [simp, result_simps]:
  "returns (Inr x)" "\<not> returns (Inl e)"
  by (simp_all add: returns_def)

section \<open>Integers as bytes\<close>

text \<open>
  \<open>to_le k n\<close> is the object representation of an unsigned integer of \<open>k\<close> bytes on a
  little-endian host; \<open>from_le\<close> reads one back.
\<close>

primrec to_le :: "nat \<Rightarrow> nat \<Rightarrow> bytes" where
  "to_le 0 n = []"
| "to_le (Suc k) n = of_nat n # to_le k (n div 256)"

primrec from_le :: "bytes \<Rightarrow> nat" where
  "from_le [] = 0"
| "from_le (b # bs) = unat b + 256 * from_le bs"

lemma unat_less_2p: "unat (w :: 'a::len word) < 2 ^ LENGTH('a)"
  by (rule unsigned_less)

lemma length_to_le [simp, byte_simps]: "length (to_le k n) = k"
  by (induction k arbitrary: n) simp_all

lemma to_le_numeral: "to_le (numeral k) n = of_nat n # to_le (pred_numeral k) (n div 256)"
  by (subst numeral_eq_Suc) simp

lemma unat_byte_of_nat [byte_simps]: "unat (of_nat n :: u8) = n mod 256"
  by (simp add: unat_of_nat)

lemma from_le_to_le [byte_simps]: "from_le (to_le k n) = n mod 256 ^ k"
proof (induction k arbitrary: n)
  case (Suc k)
  have "from_le (to_le (Suc k) n) = n mod 256 + 256 * ((n div 256) mod 256 ^ k)"
    using Suc by (simp add: unat_byte_of_nat)
  also have "\<dots> = n mod (256 * 256 ^ k)"
    by (simp add: mod_mult2_eq)
  finally show ?case by simp
qed simp

lemma from_le_bound: "from_le bs < 256 ^ length bs"
proof (induction bs)
  case (Cons b bs)
  have "unat b < 256" using unat_less_2p [of b] by simp
  with Cons show ?case by simp
qed simp

lemma to_le_from_le [byte_simps]: "to_le (length bs) (from_le bs) = bs"
proof (induction bs)
  case (Cons b bs)
  have "unat b < 256" using unat_less_2p [of b] by simp
  then have d: "(unat b + 256 * from_le bs) div 256 = from_le bs" by simp
  have "(of_nat (unat b + 256 * from_le bs) :: u8) = of_nat (unat b) + of_nat 256 * of_nat (from_le bs)"
    by (simp only: of_nat_add of_nat_mult)
  also have "(of_nat 256 :: u8) = 0" by simp
  finally have "(of_nat (unat b + 256 * from_le bs) :: u8) = b" by simp
  with d Cons show ?case by simp
qed simp

definition put_u16 :: "u16 \<Rightarrow> bytes" where "put_u16 w = to_le 2 (unat w)"
definition put_u32 :: "u32 \<Rightarrow> bytes" where "put_u32 w = to_le 4 (unat w)"
definition put_u64 :: "u64 \<Rightarrow> bytes" where "put_u64 w = to_le 8 (unat w)"
definition get_u16 :: "bytes \<Rightarrow> u16" where "get_u16 bs = of_nat (from_le (take 2 bs))"
definition get_u32 :: "bytes \<Rightarrow> u32" where "get_u32 bs = of_nat (from_le (take 4 bs))"
definition get_u64 :: "bytes \<Rightarrow> u64" where "get_u64 bs = of_nat (from_le (take 8 bs))"

lemma length_put [simp, byte_simps]:
  "length (put_u16 a) = 2" "length (put_u32 b) = 4" "length (put_u64 c) = 8"
  by (simp_all add: put_u16_def put_u32_def put_u64_def)

lemma get_put_u16 [simp, byte_simps]: "get_u16 (put_u16 w @ bs) = w"
  using unat_less_2p [of w] by (simp add: get_u16_def put_u16_def from_le_to_le)

lemma get_put_u32 [simp, byte_simps]: "get_u32 (put_u32 w @ bs) = w"
  using unat_less_2p [of w] by (simp add: get_u32_def put_u32_def from_le_to_le)

lemma get_put_u64 [simp, byte_simps]: "get_u64 (put_u64 w @ bs) = w"
  using unat_less_2p [of w] by (simp add: get_u64_def put_u64_def from_le_to_le)

text \<open>\<open>htons\<close> and \<open>ntohs\<close> exchange the two bytes of a 16-bit integer on such a host.\<close>

definition htons :: "u16 \<Rightarrow> u16" where
  "htons w = of_nat (from_le (rev (to_le 2 (unat w))))"

abbreviation ntohs :: "u16 \<Rightarrow> u16" where "ntohs \<equiv> htons"

lemma to_le_htons: "to_le 2 (unat (htons w)) = rev (to_le 2 (unat w))"
proof -
  let ?r = "rev (to_le 2 (unat w))"
  have len: "length ?r = 2" by simp
  have "from_le ?r < 65536"
    using from_le_bound [of ?r] unfolding len by (simp add: power2_eq_square)
  then have "unat (htons w) = from_le ?r"
    by (simp add: htons_def unat_of_nat)
  then show ?thesis using to_le_from_le [of ?r] unfolding len by metis
qed

lemma htons_htons [simp, byte_simps]: "htons (htons w) = w"
proof -
  have "to_le 2 (unat (htons (htons w))) = to_le 2 (unat w)"
    by (simp add: to_le_htons)
  then have "from_le (to_le 2 (unat (htons (htons w)))) = from_le (to_le 2 (unat w))"
    by simp
  then have "unat (htons (htons w)) = unat w"
    using unat_less_2p [of w] unat_less_2p [of "htons (htons w)"]
    by (simp add: from_le_to_le power2_eq_square)
  then show ?thesis by (simp add: word_unat_eq_iff)
qed

section \<open>Lists\<close>

lemma take_append_drop_le: "n \<le> length xs \<Longrightarrow> take n (xs @ ys) = take n xs"
  by simp

lemma concat_map_snoc [simp]: "concat (map f (xs @ [x])) = concat (map f xs) @ f x"
  by simp

lemma take_Suc_snoc: "k < length xs \<Longrightarrow> take (Suc k) xs = take k xs @ [xs ! k]"
  by (rule take_Suc_conv_app_nth)

lemma distinct_count: "distinct xs \<longleftrightarrow> (\<forall>x. count (mset xs) x \<le> 1)"
proof
  assume "distinct xs"
  then show "\<forall>x. count (mset xs) x \<le> 1" by (simp add: distinct_count_atmost_1)
next
  assume le: "\<forall>x. count (mset xs) x \<le> 1"
  have "count (mset xs) x = (if x \<in> set xs then 1 else 0)" for x
  proof (cases "x \<in> set xs")
    case True
    then have "1 \<le> count (mset xs) x" by simp
    with le have "count (mset xs) x = 1" by (simp only: order_antisym)
    with True show ?thesis by simp
  qed (simp add: count_eq_zero_iff)
  then show "distinct xs" by (simp add: distinct_count_atmost_1)
qed

lemma distinct_mset_le: "mset xs \<subseteq># mset ys \<Longrightarrow> distinct ys \<Longrightarrow> distinct xs"
  unfolding distinct_count by (meson mset_subset_eq_count order_trans)

lemma set_mset_le: "mset xs \<subseteq># mset ys \<Longrightarrow> set xs \<subseteq> set ys"
  by (metis set_mset_mono set_mset_mset)

section \<open>Systems of handlers\<close>

text \<open>
  A component of the program is a state and handlers the reactor calls in an order the
  component does not control. \<open>step s s'\<close> says some handler takes \<open>s\<close> to \<open>s'\<close>.
\<close>

locale step_system =
  fixes start :: "'s \<Rightarrow> bool"
    and step :: "'s \<Rightarrow> 's \<Rightarrow> bool"
begin

inductive reach :: "'s \<Rightarrow> bool" where
  reach_start: "start s \<Longrightarrow> reach s"
| reach_step: "reach s \<Longrightarrow> step s t \<Longrightarrow> reach t"

lemma reach_invariant:
  assumes "reach s"
    and "\<And>s. start s \<Longrightarrow> I s"
    and "\<And>s t. I s \<Longrightarrow> step s t \<Longrightarrow> I t"
  shows "I s"
  using assms(1) by induction (auto intro: assms(2,3))

end

end
