(* ===== verification/Buffers.thy ===== *)
theory Buffers
  imports Prelude
begin

text \<open>
  \<^verbatim>\<open>libreactor/buffer.h\<close>, \<^verbatim>\<open>libreactor/buffer.cpp\<close>, \<^verbatim>\<open>libreactor/bytestring.cpp\<close>.

  A \<open>Buffer\<close> is an unowned view (pointer and 64-bit size) into memory, an \<open>AllocBuffer\<close>
  owns a block of the free store. The model keeps the memory explicit, so that views that
  alias each other do alias, and the 64-bit sizes wrap as \<open>size_t\<close> does. The lemmas relate
  every operation to the byte string a view denotes (\<open>contents\<close>); the other theories work on
  these byte strings through \<open>slice_bytes\<close> and \<open>read_at\<close>, the checked list operations at the
  end, which the view operations refine.
\<close>

section \<open>Memory and views\<close>

type_synonym memory = "nat \<Rightarrow> u8"

record Buffer =
  bsize :: u64
  bdata :: nat

definition contents :: "memory \<Rightarrow> Buffer \<Rightarrow> bytes" where
  "contents m b = map m [bdata b ..< bdata b + unat (bsize b)]"

definition memcpy :: "nat \<Rightarrow> nat \<Rightarrow> nat \<Rightarrow> memory \<Rightarrow> memory" where
  "memcpy dst src n m = (\<lambda>a. if dst \<le> a \<and> a < dst + n then m (src + (a - dst)) else m a)"

definition store :: "nat \<Rightarrow> bytes \<Rightarrow> memory \<Rightarrow> memory" where
  "store p bs m = (\<lambda>a. if p \<le> a \<and> a < p + length bs then bs ! (a - p) else m a)"

definition load :: "nat \<Rightarrow> nat \<Rightarrow> memory \<Rightarrow> bytes" where
  "load p n m = map m [p ..< p + n]"

definition typealias_get_u64 :: "nat \<Rightarrow> memory \<Rightarrow> u64" where
  "typealias_get_u64 p m = get_u64 (load p 8 m)"

definition typealias_set_u64 :: "nat \<Rightarrow> u64 \<Rightarrow> memory \<Rightarrow> memory" where
  "typealias_set_u64 p v m = store p (put_u64 v) m"

text \<open>\<open>assert(start + size <= this->size)\<close>, the sum taken in \<open>size_t\<close>.\<close>

definition Buffer_slice2 :: "Buffer \<Rightarrow> u64 \<Rightarrow> u64 \<Rightarrow> Buffer result" where
  "Buffer_slice2 b start n =
     assertR (start + n \<le> bsize b) (Inr \<lparr>bsize = n, bdata = bdata b + unat start\<rparr>)"

definition Buffer_slice :: "Buffer \<Rightarrow> u64 \<Rightarrow> Buffer result" where
  "Buffer_slice b start = Buffer_slice2 b start (bsize b - start)"

definition Buffer_copy_to :: "Buffer \<Rightarrow> Buffer \<Rightarrow> memory \<Rightarrow> memory result" where
  "Buffer_copy_to b target m =
     assertR (bsize b \<le> bsize target) (Inr (memcpy (bdata target) (bdata b) (unat (bsize b)) m))"

definition Buffer_copy_from :: "Buffer \<Rightarrow> Buffer \<Rightarrow> memory \<Rightarrow> memory result" where
  "Buffer_copy_from b from m = Buffer_copy_to from b m"

definition Buffer_set_zero :: "Buffer \<Rightarrow> memory \<Rightarrow> memory" where
  "Buffer_set_zero b m = store (bdata b) (replicate (unat (bsize b)) 0) m"

definition Buffer_delete_start2 :: "Buffer \<Rightarrow> u64 \<Rightarrow> u64 \<Rightarrow> memory \<Rightarrow> memory result" where
  "Buffer_delete_start2 b end actual_size m =
     assertR (end \<le> actual_size)
      (assertR (actual_size \<le> bsize b)
        (Inr (memcpy (bdata b) (bdata b + unat end) (unat (actual_size - end)) m)))"

definition Buffer_delete_start :: "Buffer \<Rightarrow> u64 \<Rightarrow> memory \<Rightarrow> memory result" where
  "Buffer_delete_start b end m = Buffer_delete_start2 b end (bsize b) m"

text \<open>\<open>convert<T>(pos)\<close> checks \<open>pos + sizeof(T) <= size\<close> and aliases the bytes at \<open>pos\<close>.\<close>

definition Buffer_convert :: "Buffer \<Rightarrow> u64 \<Rightarrow> nat \<Rightarrow> nat result" where
  "Buffer_convert b pos sizeof_T =
     assertR (pos + of_nat sizeof_T \<le> bsize b) (Inr (bdata b + unat pos))"

section \<open>Owning buffers\<close>

text \<open>
  The free store hands out non-null blocks of fresh addresses; \<open>live\<close> records the length of
  every block not yet deleted. \<open>objs\<close> holds the \<open>AllocBuffer\<close> objects by identity, so that
  move construction and move assignment act on two objects, or on one.
\<close>

record AllocBuffer =
  asize :: u64
  adata :: "nat option"

record free_store =
  mem :: memory
  brk :: nat
  live :: "nat \<rightharpoonup> nat"
  objs :: "nat \<rightharpoonup> AllocBuffer"

definition new_chars :: "u64 \<Rightarrow> free_store \<Rightarrow> nat \<times> free_store" where
  "new_chars n h = (brk h, h\<lparr>brk := brk h + max 1 (unat n), live := (live h)(brk h \<mapsto> unat n)\<rparr>)"

definition delete_chars :: "nat option \<Rightarrow> free_store \<Rightarrow> free_store result" where
  "delete_chars p h = (case p of None \<Rightarrow> Inr h
     | Some a \<Rightarrow> (if a \<in> dom (live h) then Inr (h\<lparr>live := (live h)(a := None)\<rparr>)
                   else Inl Undefined_behaviour))"

definition AllocBuffer_alloc :: "nat \<Rightarrow> u64 \<Rightarrow> free_store \<Rightarrow> free_store" where
  "AllocBuffer_alloc x n h =
     (let (p, h') = new_chars n h in h'\<lparr>objs := (objs h')(x \<mapsto> \<lparr>asize = n, adata = Some p\<rparr>)\<rparr>)"

definition AllocBuffer_default :: "nat \<Rightarrow> free_store \<Rightarrow> free_store" where
  "AllocBuffer_default x h = h\<lparr>objs := (objs h)(x \<mapsto> \<lparr>asize = 0, adata = None\<rparr>)\<rparr>"

definition AllocBuffer_destroy :: "nat \<Rightarrow> free_store \<Rightarrow> free_store result" where
  "AllocBuffer_destroy x h = (case objs h x of None \<Rightarrow> Inl Undefined_behaviour
     | Some b \<Rightarrow> bindR (delete_chars (adata b) h) (\<lambda>h'. Inr (h'\<lparr>objs := (objs h')(x := None)\<rparr>)))"

definition AllocBuffer_move_init :: "nat \<Rightarrow> nat \<Rightarrow> free_store \<Rightarrow> free_store result" where
  "AllocBuffer_move_init x other h = (case objs h other of None \<Rightarrow> Inl Undefined_behaviour
     | Some b \<Rightarrow> Inr (h\<lparr>objs := (objs h)(x \<mapsto> b, other \<mapsto> \<lparr>asize = 0, adata = None\<rparr>)\<rparr>))"

definition AllocBuffer_move_assign :: "nat \<Rightarrow> nat \<Rightarrow> free_store \<Rightarrow> free_store result" where
  "AllocBuffer_move_assign x other h = (case (objs h x, objs h other) of
       (Some a, Some b) \<Rightarrow>
         (if other \<noteq> x
          then bindR (delete_chars (adata a) h) (\<lambda>h'.
                 Inr (h'\<lparr>objs := (objs h')(x \<mapsto> b, other \<mapsto> \<lparr>asize = 0, adata = None\<rparr>)\<rparr>))
          else Inr h)
     | _ \<Rightarrow> Inl Undefined_behaviour)"

definition as_buffer :: "AllocBuffer \<Rightarrow> Buffer" where
  "as_buffer b = \<lparr>bsize = asize b, bdata = (case adata b of None \<Rightarrow> 0 | Some a \<Rightarrow> a)\<rparr>"

definition AllocBuffer_empty :: "AllocBuffer \<Rightarrow> bool" where
  "AllocBuffer_empty b \<longleftrightarrow> adata b = None"

definition AllocBuffer_copy :: "nat \<Rightarrow> Buffer \<Rightarrow> free_store \<Rightarrow> free_store result" where
  "AllocBuffer_copy x b h =
     (let h' = AllocBuffer_alloc x (bsize b) h
      in bindR (Buffer_copy_to b (as_buffer (the (objs h' x))) (mem h')) (\<lambda>m. Inr (h'\<lparr>mem := m\<rparr>)))"

text \<open>
  Ownership: an object's block is live and has the object's size, two objects never own the
  same block, and every live block has an owner and lies below \<open>brk\<close>.
\<close>

definition owned :: "free_store \<Rightarrow> bool" where
  "owned h \<longleftrightarrow> 0 < brk h
     \<and> (\<forall>x b a. objs h x = Some b \<and> adata b = Some a \<longrightarrow> live h a = Some (unat (asize b)))
     \<and> (\<forall>x y b c a. objs h x = Some b \<and> objs h y = Some c \<and> adata b = Some a \<and> adata c = Some a \<longrightarrow> x = y)
     \<and> (\<forall>a n. live h a = Some n \<longrightarrow> a + n \<le> brk h \<and> a < brk h
           \<and> (\<exists>x b. objs h x = Some b \<and> adata b = Some a))"

section \<open>What the view operations do to the bytes\<close>

lemma length_contents [simp]: "length (contents m b) = unat (bsize b)"
  by (simp add: contents_def)

lemma contents_nth: "i < unat (bsize b) \<Longrightarrow> contents m b ! i = m (bdata b + i)"
  by (simp add: contents_def)

lemma load_store_same [simp]: "load p (length bs) (store p bs m) = bs"
  by (rule nth_equalityI) (simp_all add: load_def store_def)

lemma no_wrap_plus:
  "unat start + unat n < 2 ^ 64 \<Longrightarrow> unat (start + n :: u64) = unat start + unat n"
  by (simp add: unat_word_ariths)

lemma Buffer_slice2_contents:
  assumes "unat start + unat n \<le> unat (bsize b)"
  shows "\<exists>c. Buffer_slice2 b start n = Inr c
           \<and> contents m c = take (unat n) (drop (unat start) (contents m b))"
proof -
  have "unat (bsize b) < 2 ^ 64" using unat_less_2p [of "bsize b"] by simp
  with assms have "unat (start + n) = unat start + unat n"
    by (intro no_wrap_plus) linarith
  with assms have ok: "start + n \<le> bsize b" by (simp add: word_le_nat_alt)
  have "contents m \<lparr>bsize = n, bdata = bdata b + unat start\<rparr>
          = take (unat n) (drop (unat start) (contents m b))"
    using assms by (intro nth_equalityI) (auto simp: contents_nth add.assoc)
  with ok show ?thesis by (simp add: Buffer_slice2_def)
qed

lemma Buffer_slice_contents:
  assumes "start \<le> bsize b"
  shows "\<exists>c. Buffer_slice b start = Inr c \<and> contents m c = drop (unat start) (contents m b)"
proof -
  from assms have sub: "unat (bsize b - start) = unat (bsize b) - unat start"
    by (rule unat_sub)
  from assms have le: "unat start \<le> unat (bsize b)" by (simp add: word_le_nat_alt)
  have "unat start + unat (bsize b - start) \<le> unat (bsize b)" using sub le by simp
  from Buffer_slice2_contents [OF this, of m] show ?thesis
    by (auto simp: Buffer_slice_def sub)
qed

lemma memcpy_contents_target:
  assumes "unat (bsize b) \<le> unat (bsize t)"
  shows "contents (memcpy (bdata t) (bdata b) (unat (bsize b)) m) t
           = contents m b @ drop (unat (bsize b)) (contents m t)"
  using assms by (intro nth_equalityI) (auto simp: contents_nth memcpy_def nth_append)

lemma contents_frame:
  assumes "\<And>a. bdata b \<le> a \<Longrightarrow> a < bdata b + unat (bsize b) \<Longrightarrow> m' a = m a"
  shows "contents m' b = contents m b"
  using assms by (simp add: contents_def)

section \<open>Checked operations on byte strings\<close>

text \<open>
  The list counterparts used by the rest of the development: \<open>slice(start, n)\<close> and the read
  side of \<open>convert<T>(pos)\<close> on the bytes a view denotes.
\<close>

definition slice_bytes :: "nat \<Rightarrow> nat \<Rightarrow> bytes \<Rightarrow> bytes result" where
  "slice_bytes start n bs = assertR (start + n \<le> length bs) (Inr (take n (drop start bs)))"

definition read_at :: "nat \<Rightarrow> nat \<Rightarrow> bytes \<Rightarrow> bytes result" where
  "read_at pos sizeof_T bs = assertR (pos + sizeof_T \<le> length bs) (Inr (take sizeof_T (drop pos bs)))"

definition write_at :: "nat \<Rightarrow> bytes \<Rightarrow> bytes \<Rightarrow> bytes result" where
  "write_at pos v bs =
     assertR (pos + length v \<le> length bs) (Inr (take pos bs @ v @ drop (pos + length v) bs))"

lemma length_write_at: "write_at pos v bs = Inr bs' \<Longrightarrow> length bs' = length bs"
  by (auto simp: write_at_def result_simps)

lemma slice_bytes_refines:
  "unat start + unat n \<le> unat (bsize b) \<Longrightarrow>
     \<exists>c. Buffer_slice2 b start n = Inr c
       \<and> slice_bytes (unat start) (unat n) (contents m b) = Inr (contents m c)"
  using Buffer_slice2_contents [of start n b m] by (auto simp: slice_bytes_def)

section \<open>Ownership is kept\<close>

lemma ownedI:
  assumes "0 < brk h"
    and "\<And>x b a. objs h x = Some b \<Longrightarrow> adata b = Some a \<Longrightarrow> live h a = Some (unat (asize b))"
    and "\<And>x y b c a. objs h x = Some b \<Longrightarrow> objs h y = Some c \<Longrightarrow> adata b = Some a \<Longrightarrow> adata c = Some a \<Longrightarrow> x = y"
    and "\<And>a n. live h a = Some n \<Longrightarrow> a + n \<le> brk h \<and> a < brk h"
    and "\<And>a n. live h a = Some n \<Longrightarrow> \<exists>x b. objs h x = Some b \<and> adata b = Some a"
  shows "owned h"
  using assms unfolding owned_def by blast

lemma ownedD:
  assumes "owned h"
  shows owned_brk: "0 < brk h"
    and owned_live: "\<And>x b a. objs h x = Some b \<Longrightarrow> adata b = Some a \<Longrightarrow> live h a = Some (unat (asize b))"
    and owned_unique: "\<And>x y b c a. objs h x = Some b \<Longrightarrow> objs h y = Some c \<Longrightarrow> adata b = Some a \<Longrightarrow> adata c = Some a \<Longrightarrow> x = y"
    and owned_below: "\<And>a n. live h a = Some n \<Longrightarrow> a + n \<le> brk h \<and> a < brk h"
    and owned_owner: "\<And>a n. live h a = Some n \<Longrightarrow> \<exists>x b. objs h x = Some b \<and> adata b = Some a"
  using assms unfolding owned_def by blast+

lemma owned_alloc:
  assumes "owned h" "objs h x = None"
  shows "owned (AllocBuffer_alloc x n h)"
proof -
  let ?k = "AllocBuffer_alloc x n h"
  let ?c = "\<lparr>asize = n, adata = Some (brk h)\<rparr>"
  have k: "objs ?k = (objs h)(x \<mapsto> ?c)" "live ?k = (live h)(brk h \<mapsto> unat n)"
    "brk ?k = brk h + max 1 (unat n)"
    by (simp_all add: AllocBuffer_alloc_def new_chars_def)
  have fresh: "adata b \<noteq> Some (brk h)" if "objs h y = Some b" for y b
    using owned_live [OF assms(1) that] owned_below [OF assms(1)] by fastforce
  show ?thesis
  proof (rule ownedI, unfold k)
    fix y b a assume "((objs h)(x \<mapsto> ?c)) y = Some b" "adata b = Some a"
    then show "((live h)(brk h \<mapsto> unat n)) a = Some (unat (asize b))"
      using fresh owned_live [OF assms(1)] by (cases "y = x") auto
  next
    fix y z b c a
    assume "((objs h)(x \<mapsto> ?c)) y = Some b" "((objs h)(x \<mapsto> ?c)) z = Some c"
      "adata b = Some a" "adata c = Some a"
    then show "y = z"
      using fresh owned_unique [OF assms(1)] by (cases "y = x"; cases "z = x") auto
  next
    fix a l assume "((live h)(brk h \<mapsto> unat n)) a = Some l"
    then show "a + l \<le> brk h + max 1 (unat n) \<and> a < brk h + max 1 (unat n)"
      using owned_below [OF assms(1), of a l] by (cases "a = brk h") auto
  next
    fix a l assume l: "((live h)(brk h \<mapsto> unat n)) a = Some l"
    show "\<exists>y b. ((objs h)(x \<mapsto> ?c)) y = Some b \<and> adata b = Some a"
    proof (cases "a = brk h")
      case False
      with l owned_owner [OF assms(1), of a l] obtain y b where "objs h y = Some b" "adata b = Some a"
        by auto
      with assms(2) show ?thesis by (intro exI [of _ y]) auto
    qed (auto intro: exI [of _ x])
  qed (use owned_brk [OF assms(1)] in simp)
qed

lemma owned_default:
  assumes "owned h" "objs h x = None"
  shows "owned (AllocBuffer_default x h)"
proof (rule ownedI)
  let ?k = "AllocBuffer_default x h"
  fix a n assume "live ?k a = Some n"
  then have "live h a = Some n" by (simp add: AllocBuffer_default_def)
  from owned_owner [OF assms(1) this] obtain y b where "objs h y = Some b" "adata b = Some a" by blast
  with assms(2) show "\<exists>y b. objs ?k y = Some b \<and> adata b = Some a"
    by (intro exI [of _ y]) (auto simp: AllocBuffer_default_def)
next
  let ?k = "AllocBuffer_default x h"
  fix y z b c a
  assume "objs ?k y = Some b" "objs ?k z = Some c" "adata b = Some a" "adata c = Some a"
  then show "y = z"
    using owned_unique [OF assms(1)] by (auto simp: AllocBuffer_default_def split: if_splits)
qed (use owned_brk [OF assms(1)] owned_live [OF assms(1)] owned_below [OF assms(1)] in
      \<open>auto simp: AllocBuffer_default_def split: if_splits\<close>)

text \<open>Deleting an owned block never frees twice; the block then belongs to no live object.\<close>

lemma delete_owned:
  assumes "owned h" "objs h x = Some b"
  obtains h' where "delete_chars (adata b) h = Inr h'" "mem h' = mem h" "brk h' = brk h"
    "objs h' = objs h" "\<And>a. live h' a = (if adata b = Some a then None else live h a)"
proof (cases "adata b")
  case None
  then show thesis by (intro that [of h]) (simp_all add: delete_chars_def)
next
  case (Some a)
  with owned_live [OF assms] have "live h a = Some (unat (asize b))" by blast
  with Some show thesis
    by (intro that [of "h\<lparr>live := (live h)(a := None)\<rparr>"]) (auto simp: delete_chars_def)
qed

lemma owned_destroy:
  assumes "owned h" "AllocBuffer_destroy x h = Inr h'"
  shows "owned h'"
proof -
  from assms(2) obtain b where b: "objs h x = Some b"
    by (auto simp: AllocBuffer_destroy_def split: option.splits)
  from delete_owned [OF assms(1) b] obtain k where
    k: "delete_chars (adata b) h = Inr k" "brk k = brk h" "objs k = objs h"
      "\<And>a. live k a = (if adata b = Some a then None else live h a)" by metis
  from assms(2) b k(1) have h': "h' = k\<lparr>objs := (objs k)(x := None)\<rparr>"
    by (simp add: AllocBuffer_destroy_def)
  show ?thesis
  proof (rule ownedI)
    fix y c a assume c: "objs h' y = Some c" "adata c = Some a"
    then have y: "y \<noteq> x" "objs h y = Some c" by (auto simp: h' k split: if_splits)
    then have "adata b \<noteq> Some a" using owned_unique [OF assms(1) y(2) b c(2)] by auto
    then show "live h' a = Some (unat (asize c))"
      using owned_live [OF assms(1) y(2) c(2)] by (simp add: h' k)
  next
    fix a n assume l: "live h' a = Some n"
    then have "adata b \<noteq> Some a" "live h a = Some n" by (auto simp: h' k split: if_splits)
    with owned_owner [OF assms(1)] b obtain y c where "objs h y = Some c" "adata c = Some a" "y \<noteq> x"
      by fastforce
    then show "\<exists>y c. objs h' y = Some c \<and> adata c = Some a" by (auto simp: h' k)
  qed (use owned_brk [OF assms(1)] owned_below [OF assms(1)] owned_unique [OF assms(1)] in
        \<open>auto simp: h' k split: if_splits\<close>)
qed

lemma owned_move_init:
  assumes "owned h" "objs h x = None" "AllocBuffer_move_init x other h = Inr h'"
  shows "owned h'"
proof -
  from assms(3) obtain b where b: "objs h other = Some b"
    and h': "h' = h\<lparr>objs := (objs h)(x \<mapsto> b, other \<mapsto> \<lparr>asize = 0, adata = None\<rparr>)\<rparr>"
    by (auto simp: AllocBuffer_move_init_def split: option.splits)
  with assms(2) have "x \<noteq> other" by auto
  note b = b this
  show ?thesis
  proof (rule ownedI)
    fix a n assume "live h' a = Some n"
    then have "live h a = Some n" by (simp add: h')
    from owned_owner [OF assms(1) this] obtain y c where yc: "objs h y = Some c" "adata c = Some a" by blast
    show "\<exists>y c. objs h' y = Some c \<and> adata c = Some a"
    proof (cases "y = other")
      case True
      with yc b show ?thesis by (intro exI [of _ x]) (auto simp: h')
    next
      case False
      with yc assms(2) show ?thesis by (intro exI [of _ y]) (auto simp: h')
    qed
  next
    fix y z c d a
    assume "objs h' y = Some c" "objs h' z = Some d" "adata c = Some a" "adata d = Some a"
    then show "y = z"
      using b owned_unique [OF assms(1)] by (auto simp: h' split: if_splits)
  next
    fix y c a assume "objs h' y = Some c" "adata c = Some a"
    then show "live h' a = Some (unat (asize c))"
      using b owned_live [OF assms(1)] by (auto simp: h' split: if_splits)
  qed (use owned_brk [OF assms(1)] owned_below [OF assms(1)] in \<open>auto simp: h'\<close>)
qed

text \<open>Move assignment onto another object is: destroy the target, then move into its place.\<close>

lemma move_assign_is_destroy_move:
  assumes "owned h" "AllocBuffer_move_assign x other h = Inr h'" "other \<noteq> x"
  obtains k where "AllocBuffer_destroy x h = Inr k" "AllocBuffer_move_init x other k = Inr h'"
proof -
  from assms(2,3) obtain a b where ab: "objs h x = Some a" "objs h other = Some b"
    by (auto simp: AllocBuffer_move_assign_def split: option.splits)
  from delete_owned [OF assms(1) ab(1)] obtain k where
    k: "delete_chars (adata a) h = Inr k" "objs k = objs h" by metis
  show thesis
    by (rule that [of "k\<lparr>objs := (objs k)(x := None)\<rparr>"])
      (use ab k assms(2,3) in \<open>auto simp: AllocBuffer_destroy_def AllocBuffer_move_init_def
         AllocBuffer_move_assign_def fun_upd_twist\<close>)
qed

lemma owned_move_assign:
  assumes "owned h" "AllocBuffer_move_assign x other h = Inr h'"
  shows "owned h'"
proof (cases "other = x")
  case True
  with assms show ?thesis by (auto simp: AllocBuffer_move_assign_def split: option.splits)
next
  case False
  from move_assign_is_destroy_move [OF assms False] obtain k where
    k: "AllocBuffer_destroy x h = Inr k" "AllocBuffer_move_init x other k = Inr h'" by metis
  have "objs k x = None"
    using k(1) by (auto simp: AllocBuffer_destroy_def result_simps split: option.splits)
  with owned_move_init owned_destroy [OF assms(1) k(1)] k(2) show ?thesis by blast
qed

inductive alloc_step :: "free_store \<Rightarrow> free_store \<Rightarrow> bool" where
  step_alloc: "objs h x = None \<Longrightarrow> alloc_step h (AllocBuffer_alloc x n h)"
| step_default: "objs h x = None \<Longrightarrow> alloc_step h (AllocBuffer_default x h)"
| step_destroy: "AllocBuffer_destroy x h = Inr h' \<Longrightarrow> alloc_step h h'"
| step_move_init: "objs h x = None \<Longrightarrow> AllocBuffer_move_init x y h = Inr h' \<Longrightarrow> alloc_step h h'"
| step_move_assign: "AllocBuffer_move_assign x y h = Inr h' \<Longrightarrow> alloc_step h h'"

inductive_cases alloc_stepE: "alloc_step h h'"

definition fresh_store :: "free_store \<Rightarrow> bool" where
  "fresh_store h \<longleftrightarrow> 0 < brk h \<and> live h = Map.empty \<and> objs h = Map.empty"

interpretation alloc: step_system fresh_store alloc_step .

lemma alloc_step_owned: "owned h \<Longrightarrow> alloc_step h h' \<Longrightarrow> owned h'"
  by (erule alloc_stepE)
    (auto intro: owned_alloc owned_default owned_destroy owned_move_init owned_move_assign)

lemma fresh_store_owned: "fresh_store h \<Longrightarrow> owned h"
  by (simp add: fresh_store_def owned_def)

lemma alloc_reach_owned: "alloc.reach h \<Longrightarrow> owned h"
  by (erule alloc.reach_invariant) (auto intro: fresh_store_owned alloc_step_owned)

section \<open>Properties\<close>

text \<open>C35: \<open>AllocBuffer\<close> objects never share or leak a block and are never freed twice: in every
  state reached from an empty free store by construction, destruction, move construction and
  move assignment (self-assignment included), the ownership invariant holds and destroying or
  move-assigning any existing object returns.\<close>

theorem AllocBuffer_ownership:
  assumes "alloc.reach h" "objs h x = Some a" "objs h y = Some b"
  shows "owned h \<and> returns (AllocBuffer_destroy x h) \<and> returns (AllocBuffer_move_assign x y h)"
proof -
  from assms(1) have "owned h" by (rule alloc_reach_owned)
  moreover obtain k where "delete_chars (adata a) h = Inr k"
    using delete_owned [OF calculation assms(2)] by metis
  ultimately show ?thesis
    using assms(2,3) by (simp add: AllocBuffer_destroy_def AllocBuffer_move_assign_def returns_def)
qed

theorem AllocBuffer_ownership_witness:
  "\<exists>h a b. alloc.reach h \<and> objs h 1 = Some a \<and> objs h 2 = Some b
     \<and> owned h \<and> returns (AllocBuffer_destroy 1 h) \<and> returns (AllocBuffer_move_assign 1 2 h)"
proof -
  define h0 where "h0 = \<lparr>mem = (\<lambda>_. 0), brk = 1, live = Map.empty, objs = Map.empty\<rparr>"
  define h1 where "h1 = AllocBuffer_alloc 1 5 h0"
  define h2 where "h2 = AllocBuffer_alloc 2 0 h1"
  have r: "alloc.reach h2" unfolding h2_def h1_def
    by (intro alloc.reach_step [OF _ step_alloc] alloc.reach_start)
      (simp_all add: h0_def fresh_store_def AllocBuffer_alloc_def new_chars_def)
  have o: "objs h2 1 = Some \<lparr>asize = 5, adata = Some 1\<rparr>" "objs h2 2 = Some \<lparr>asize = 0, adata = Some 6\<rparr>"
    by (simp_all add: h2_def h1_def h0_def AllocBuffer_alloc_def new_chars_def)
  show ?thesis using r o AllocBuffer_ownership [OF r o] by blast
qed

text \<open>\<open>AllocBuffer::copy\<close> of a view into owned memory succeeds, keeps the ownership invariant,
  yields a new non-empty object with exactly the bytes of the view, and changes no byte of the
  view itself.\<close>

theorem AllocBuffer_copy_correct:
  assumes "owned h" "objs h x = None" "bdata b + unat (bsize b) \<le> brk h"
  shows "\<exists>h' c. AllocBuffer_copy x b h = Inr h' \<and> owned h' \<and> objs h' x = Some c
           \<and> \<not> AllocBuffer_empty c \<and> contents (mem h') (as_buffer c) = contents (mem h) b
           \<and> contents (mem h') b = contents (mem h) b"
proof -
  define k where "k = AllocBuffer_alloc x (bsize b) h"
  define c where "c = \<lparr>asize = bsize b, adata = Some (brk h)\<rparr>"
  define m where "m = memcpy (brk h) (bdata b) (unat (bsize b)) (mem h)"
  have k: "objs k x = Some c" "mem k = mem h"
    by (simp_all add: k_def c_def AllocBuffer_alloc_def new_chars_def)
  have "owned k" using assms(1,2) by (simp add: k_def owned_alloc)
  then have "owned (k\<lparr>mem := m\<rparr>)" by (simp add: owned_def)
  moreover have "AllocBuffer_copy x b h = Inr (k\<lparr>mem := m\<rparr>)"
    using k by (simp add: AllocBuffer_copy_def k_def [symmetric] Buffer_copy_to_def as_buffer_def c_def m_def)
  moreover have "contents m (as_buffer c) = contents (mem h) b"
    using memcpy_contents_target [of b "as_buffer c" "mem h"] by (simp add: m_def as_buffer_def c_def)
  moreover have "contents m b = contents (mem h) b"
    by (rule contents_frame) (use assms(3) in \<open>simp add: m_def memcpy_def\<close>)
  ultimately show ?thesis using k by (auto simp: AllocBuffer_empty_def c_def)
qed

theorem AllocBuffer_copy_correct_witness:
  "\<exists>h' c. AllocBuffer_copy 7 \<lparr>bsize = 2, bdata = 2\<rparr>
       \<lparr>mem = (\<lambda>a. of_nat a), brk = 5, live = Map.empty, objs = Map.empty\<rparr> = Inr h' \<and> objs h' 7 = Some c
     \<and> contents (mem h') (as_buffer c) = [2, 3]"
proof -
  let ?h = "\<lparr>mem = (\<lambda>a. of_nat a), brk = 5, live = Map.empty, objs = Map.empty\<rparr> :: free_store"
  have "owned ?h" by (simp add: owned_def)
  from AllocBuffer_copy_correct [OF this, of 7 "\<lparr>bsize = 2, bdata = 2\<rparr>"] show ?thesis
    by (auto simp: contents_def)
qed

text \<open>The one-argument \<open>slice(start)\<close> is not bounds-checked. Its size \<open>size - start\<close> wraps, the
  wrapped sum \<open>start + (size - start)\<close> is \<open>size\<close> again, so the assertion holds for every \<open>start\<close>;
  past the end the resulting view is larger than the buffer it was cut from.\<close>

theorem Buffer_slice_unchecked:
  "Buffer_slice b start = Inr \<lparr>bsize = bsize b - start, bdata = bdata b + unat start\<rparr>
     \<and> (bsize b < start \<longrightarrow> bsize b < bsize b - start)"
proof -
  have "bsize b < bsize b - start" if "bsize b < start"
    using that by (simp add: word_less_nat_alt unat_sub_if_size word_size)
      (use unat_less_2p [of start] in simp)
  then show ?thesis by (simp add: Buffer_slice_def Buffer_slice2_def)
qed

theorem Buffer_slice_unchecked_witness:
  "(2 :: u64) < 4 \<and> (2 :: u64) < 2 - 4 \<and> Buffer_slice \<lparr>bsize = 2, bdata = 100\<rparr> 4 = Inr \<lparr>bsize = - 2, bdata = 104\<rparr>"
  using Buffer_slice_unchecked [of "\<lparr>bsize = 2, bdata = 100\<rparr>" 4] by simp

text \<open>On a view of at least 8 bytes past \<open>pos\<close>, \<open>convert<uint64_t>(pos)\<close> passes its assertion, what
  is written through it is read back, and every byte outside those eight keeps its value.\<close>

theorem Buffer_convert_roundtrip:
  assumes "unat pos + 8 \<le> unat (bsize b)"
  shows "\<exists>p. Buffer_convert b pos 8 = Inr p
           \<and> typealias_get_u64 p (typealias_set_u64 p v m) = v
           \<and> contents (typealias_set_u64 p v m) b
               = take (unat pos) (contents m b) @ put_u64 v @ drop (unat pos + 8) (contents m b)"
proof -
  have "unat (pos + 8) = unat pos + 8"
    using assms no_wrap_plus [of pos 8] unat_less_2p [of "bsize b"] by simp
  with assms have ok: "pos + 8 \<le> bsize b" by (simp add: word_le_nat_alt)
  let ?p = "bdata b + unat pos"
  have "typealias_get_u64 ?p (typealias_set_u64 ?p v m) = v"
    using load_store_same [of ?p "put_u64 v" m] get_put_u64 [of v "[]"]
    by (simp add: typealias_get_u64_def typealias_set_u64_def)
  moreover have "contents (typealias_set_u64 ?p v m) b
               = take (unat pos) (contents m b) @ put_u64 v @ drop (unat pos + 8) (contents m b)"
    using assms
    by (intro nth_equalityI) (auto simp: contents_nth typealias_set_u64_def store_def nth_append add.commute)
  ultimately show ?thesis using ok by (simp add: Buffer_convert_def)
qed

theorem Buffer_convert_roundtrip_witness:
  "\<exists>p. Buffer_convert \<lparr>bsize = 16, bdata = 100\<rparr> 8 8 = Inr p
     \<and> typealias_get_u64 p (typealias_set_u64 p 77 (\<lambda>_. 0)) = 77"
  using Buffer_convert_roundtrip [of 8 "\<lparr>bsize = 16, bdata = 100\<rparr>" 77 "\<lambda>_. 0"] by auto

end
