(* ===== verification/Streams.thy ===== *)
theory Streams
  imports Buffers
begin

text \<open>
  The two abstract classes everything else is written against: \<open>Stream\<close>
  (\<^verbatim>\<open>libreactor/reactor.h\<close>, bytes) and \<open>PacketStream\<close> (\<^verbatim>\<open>libreactor/packet_stream.h\<close>, packets).
  A class is the record of its virtual methods over the state of the implementing object.

  The locales state what the callers rely on. \<open>byte_stream\<close>: a write takes a prefix of the data, a
  read yields the next bytes of the input. \<open>packet_sink\<close>: a packet offered while
  \<open>is_send_ready\<close> holds is accepted and appended to what has been emitted, and readiness runs out.
  \<open>packet_source\<close>: \<open>recv\<close> yields the packets of the input in order. The implementing theories
  discharge these laws for their classes; the loops that only use the interface
  (\<open>WriteQueue\<close>, \<open>Piper\<close>, \<open>Transport\<close>) are proved once over them.
\<close>

section \<open>Virtual methods\<close>

record 's stream_ops =
  sread :: "'s \<Rightarrow> nat \<Rightarrow> (bytes \<times> 's) result"
  swrite :: "'s \<Rightarrow> bytes \<Rightarrow> (nat \<times> 's) result"
  sclose :: "'s \<Rightarrow> 's"

record 'p packet_ops =
  precv :: "'p \<Rightarrow> (bytes option \<times> 'p) result"
  psend :: "'p \<Rightarrow> bytes \<Rightarrow> 'p result"
  pis_send_ready :: "'p \<Rightarrow> bool"
  pclose :: "'p \<Rightarrow> 'p"

text \<open>\<open>AbstractPacketStream::send\<close> requires a zero send offset and forwards to \<open>send_with_offset\<close>.\<close>

definition AbstractPacketStream_send ::
    "('p \<Rightarrow> nat) \<Rightarrow> ('p \<Rightarrow> bytes \<Rightarrow> 'p result) \<Rightarrow> 'p \<Rightarrow> bytes \<Rightarrow> 'p result" where
  "AbstractPacketStream_send get_send_offset send_with_offset p data =
     assertR (get_send_offset p = 0) (send_with_offset p data)"

section \<open>Contracts\<close>

locale byte_stream =
  fixes sops :: "'s stream_ops"
    and sinv :: "'s \<Rightarrow> bool"
    and written :: "'s \<Rightarrow> bytes"
    and incoming :: "'s \<Rightarrow> bytes"
  assumes swrite_law: "sinv s \<Longrightarrow> d \<noteq> [] \<Longrightarrow>
      \<exists>n s'. swrite sops s d = Inr (n, s') \<and> n \<le> length d \<and> sinv s'
        \<and> written s' = written s @ take n d \<and> incoming s' = incoming s"
    and sread_law: "sinv s \<Longrightarrow> \<exists>d s'. sread sops s n = Inr (d, s') \<and> length d \<le> n \<and> sinv s'
        \<and> written s' = written s \<and> incoming s = d @ incoming s'"

locale packet_sink =
  fixes pops :: "'p packet_ops"
    and pinv :: "'p \<Rightarrow> bool"
    and emitted :: "'p \<Rightarrow> 'o list"
    and enc :: "bytes \<Rightarrow> 'o list"
    and room :: "'p \<Rightarrow> nat"
    and mtu :: nat
  assumes psend_law: "pinv p \<Longrightarrow> pis_send_ready pops p \<Longrightarrow> length d \<le> mtu \<Longrightarrow>
      \<exists>p'. psend pops p d = Inr p' \<and> pinv p' \<and> emitted p' = emitted p @ enc d"
    and room_law: "pinv p \<Longrightarrow> pis_send_ready pops p \<Longrightarrow> d \<noteq> [] \<Longrightarrow> psend pops p d = Inr p' \<Longrightarrow>
      room p' < room p"

locale packet_source =
  fixes pops :: "'p packet_ops"
    and pinv :: "'p \<Rightarrow> bool"
    and inbox :: "'p \<Rightarrow> bytes list"
  assumes precv_law: "pinv p \<Longrightarrow> \<exists>r p'. precv pops p = Inr (r, p') \<and> pinv p'
      \<and> inbox p = (case r of None \<Rightarrow> [] | Some d \<Rightarrow> [d]) @ inbox p'"

text \<open>A stream used in both directions: receiving does not touch what was emitted.\<close>

locale packet_duplex =
  packet_sink pops pinv emitted enc room mtu + packet_source pops pinv inbox
  for pops :: "'p packet_ops" and pinv :: "'p \<Rightarrow> bool" and emitted :: "'p \<Rightarrow> 'o list"
    and enc :: "bytes \<Rightarrow> 'o list" and room :: "'p \<Rightarrow> nat" and mtu :: nat
    and inbox :: "'p \<Rightarrow> bytes list" +
  assumes recv_keeps_emitted: "pinv p \<Longrightarrow> precv pops p = Inr (r, p') \<Longrightarrow> emitted p' = emitted p"

text \<open>
  A network that may reorder: \<open>recv\<close> yields some packet of those that have arrived. A stream that keeps
  the order is one.
\<close>

locale packet_bag =
  fixes pops :: "'p packet_ops"
    and pinv :: "'p \<Rightarrow> bool"
    and arrivals :: "'p \<Rightarrow> bytes multiset"
  assumes precv_bag: "pinv p \<Longrightarrow> \<exists>r p'. precv pops p = Inr (r, p') \<and> pinv p'
      \<and> arrivals p = (case r of None \<Rightarrow> {#} | Some d \<Rightarrow> {#d#}) + arrivals p'"

sublocale packet_source \<subseteq> bag: packet_bag pops pinv "\<lambda>p. mset (inbox p)"
proof unfold_locales
  fix p assume "pinv p"
  from precv_law [OF this] show "\<exists>r p'. precv pops p = Inr (r, p') \<and> pinv p'
      \<and> mset (inbox p) = (case r of None \<Rightarrow> {#} | Some d \<Rightarrow> {#d#}) + mset (inbox p')"
    by (fastforce split: option.splits)
qed

locale packet_network =
  packet_sink pops pinv emitted enc room mtu + packet_bag pops pinv arrivals
  for pops :: "'p packet_ops" and pinv :: "'p \<Rightarrow> bool" and emitted :: "'p \<Rightarrow> 'o list"
    and enc :: "bytes \<Rightarrow> 'o list" and room :: "'p \<Rightarrow> nat" and mtu :: nat
    and arrivals :: "'p \<Rightarrow> bytes multiset" +
  assumes bag_keeps_emitted: "pinv p \<Longrightarrow> precv pops p = Inr (r, p') \<Longrightarrow> emitted p' = emitted p"

sublocale packet_duplex \<subseteq> net: packet_network pops pinv emitted enc room mtu "\<lambda>p. mset (inbox p)"
  by unfold_locales (rule recv_keeps_emitted)

end
