(* ===== verification/Reactor.thy ===== *)
theory Reactor
  imports Streams
begin

text \<open>
  \<^verbatim>\<open>libreactor/reactor.cpp\<close>, \<^verbatim>\<open>libreactor/epoll.cpp\<close>, \<^verbatim>\<open>libreactor/signals.cpp\<close>: the event loop and its
  file descriptors.

  Callbacks are values of a type \<open>'f\<close>, run by the parameter \<open>exec\<close>; the operating system is the
  parameter \<open>kernel_ops\<close> over a state \<open>'k\<close> (the system calls the code makes, each with its result and
  the \<open>errno\<close> that is set afterwards). \<open>FD\<close> objects live in a store, since the reactor's table and the
  owner share them. The locale \<open>kernel_fd\<close> states what read(2) and write(2) do to one descriptor;
  under it an \<open>FD\<close> meets the \<open>byte_stream\<close> contract.
\<close>

section \<open>System calls\<close>

datatype errno = EAGAIN | EINTR | Other_errno

record EPollResult =
  rfd :: int
  read_ready :: bool
  write_ready :: bool
  error :: bool

record 'k kernel_ops =
  k_read :: "'k \<Rightarrow> int \<Rightarrow> nat \<Rightarrow> bytes option \<times> errno \<times> 'k"
  k_write :: "'k \<Rightarrow> int \<Rightarrow> bytes \<Rightarrow> nat option \<times> errno \<times> 'k"
  k_close :: "'k \<Rightarrow> int \<Rightarrow> 'k"
  k_setnonblocking :: "'k \<Rightarrow> int \<Rightarrow> bool \<times> 'k"
  k_epoll_add :: "'k \<Rightarrow> int \<Rightarrow> bool \<times> 'k"
  k_epoll_wait :: "'k \<Rightarrow> int \<Rightarrow> (int \<times> u32) list option \<times> errno \<times> 'k"

section \<open>State\<close>

record 'f FD =
  fd :: int
  error_reported :: bool
  on_read_ready :: 'f
  on_write_ready :: 'f
  on_error :: 'f

record 'f signals =
  signal_appeared :: "int \<Rightarrow> bool"
  signal_handlers :: "int \<rightharpoonup> 'f"
  signals_registered :: "int list"

record ('f, 'k) reactor =
  fds :: "int \<rightharpoonup> nat"
  fd_objs :: "nat \<Rightarrow> 'f FD"
  next_obj :: nat
  scheduled_functions :: "'f list"
  want_exit :: bool
  epoch :: u64
  sigs :: "'f signals"
  kernel :: 'k

type_synonym ('f, 'k) handler = "'f \<Rightarrow> ('f, 'k) reactor \<Rightarrow> ('f, 'k) reactor result"

definition Reactor_schedule :: "'f \<Rightarrow> ('f, 'k) reactor \<Rightarrow> ('f, 'k) reactor result" where
  "Reactor_schedule func r =
     assertR (length (scheduled_functions r) < 1000)
      (Inr (r\<lparr>scheduled_functions := scheduled_functions r @ [func]\<rparr>))"

text \<open>
  The components above the reactor keep what they schedule in lists of their own (\<open>ltasks\<close>, \<open>scheduled\<close>
  and so on), to which a call of \<open>reactor.schedule\<close> appends. \<open>schedule_new emb old new r\<close> makes those
  calls on the reactor: a list that was \<open>old\<close> when a handler was entered is \<open>new\<close> when it returns, and
  \<open>emb\<close> turns its entries into the reactor's functions. The assertion of \<open>Reactor::schedule\<close> is in it.
  A failing call aborts the program, so what the rest of the handler would have done does not matter.
\<close>

fun schedule_all :: "'f list \<Rightarrow> ('f, 'k) reactor \<Rightarrow> ('f, 'k) reactor result" where
  "schedule_all [] r = Inr r"
| "schedule_all (f # fs) r = bindR (Reactor_schedule f r) (schedule_all fs)"

definition schedule_new :: "('t \<Rightarrow> 'f) \<Rightarrow> 't list \<Rightarrow> 't list \<Rightarrow> ('f, 'k) reactor \<Rightarrow> ('f, 'k) reactor result" where
  "schedule_new emb old new r = schedule_all (map emb (drop (length old) new)) r"

lemma schedule_all_law:
  "schedule_all fs r =
     (if fs = [] \<or> length (scheduled_functions r) + length fs \<le> 1000
      then Inr (r\<lparr>scheduled_functions := scheduled_functions r @ fs\<rparr>) else Inl Assert_failed)"
proof (induction fs arbitrary: r)
  case (Cons f fs)
  show ?case
    by (cases "length (scheduled_functions r) < 1000") (auto simp: Reactor_schedule_def assertR_def Cons.IH)
qed simp

lemma schedule_new_law:
  "schedule_new emb old (old @ ts) r =
     (if ts = [] \<or> length (scheduled_functions r) + length ts \<le> 1000
      then Inr (r\<lparr>scheduled_functions := scheduled_functions r @ map emb ts\<rparr>) else Inl Assert_failed)"
  by (simp add: schedule_new_def schedule_all_law)

lemma schedule_new_same [simp]: "schedule_new emb old old r = Inr r"
  by (simp add: schedule_new_def)

definition Reactor_exit :: "('f, 'k) reactor \<Rightarrow> ('f, 'k) reactor" where
  "Reactor_exit r = r\<lparr>want_exit := True\<rparr>"

section \<open>File descriptors\<close>

definition FD_handle_error :: "nat \<Rightarrow> ('f, 'k) reactor \<Rightarrow> ('f, 'k) reactor result" where
  "FD_handle_error x r =
     (if error_reported (fd_objs r x) then Inr r
      else Reactor_schedule (on_error (fd_objs r x))
             (r\<lparr>fd_objs := (fd_objs r)(x := (fd_objs r x)\<lparr>error_reported := True\<rparr>)\<rparr>))"

definition FD_write :: "'k kernel_ops \<Rightarrow> nat \<Rightarrow> ('f, 'k) reactor \<Rightarrow> bytes \<Rightarrow> (nat \<times> ('f, 'k) reactor) result" where
  "FD_write K x r data =
     assertR (data \<noteq> [])
      (let (ret, errno, k) = k_write K (kernel r) (fd (fd_objs r x)) data; r' = r\<lparr>kernel := k\<rparr>
       in case ret of
            None \<Rightarrow> (if errno \<noteq> EAGAIN then bindR (FD_handle_error x r') (\<lambda>r''. Inr (0, r'')) else Inr (0, r'))
          | Some n \<Rightarrow> Inr (n, r'))"

text \<open>The epoch limit of \<open>FD::read\<close> is compiled out (\<open>ENABLE_EPOCH_LIMIT\<close> is not defined).\<close>

definition FD_read :: "'k kernel_ops \<Rightarrow> nat \<Rightarrow> ('f, 'k) reactor \<Rightarrow> nat \<Rightarrow> (bytes \<times> ('f, 'k) reactor) result" where
  "FD_read K x r sz =
     (let (ret, errno, k) = k_read K (kernel r) (fd (fd_objs r x)) sz; r' = r\<lparr>kernel := k\<rparr>
      in if ret = None \<or> ret = Some []
         then (if errno \<noteq> EAGAIN then bindR (FD_handle_error x r') (\<lambda>r''. Inr ([], r'')) else Inr ([], r'))
         else Inr (the ret, r'))"

definition FD_close :: "'k kernel_ops \<Rightarrow> nat \<Rightarrow> ('f, 'k) reactor \<Rightarrow> ('f, 'k) reactor" where
  "FD_close K x r =
     (let r1 = r\<lparr>kernel := k_close K (kernel r) (fd (fd_objs r x))\<rparr>;
          r2 = r1\<lparr>fd_objs := (fd_objs r1)(x := (fd_objs r1 x)\<lparr>fd := -1\<rparr>)\<rparr>
      in r2\<lparr>fds := (fds r2)(fd (fd_objs r2 x) := None)\<rparr>)"

definition FD_ops :: "'k kernel_ops \<Rightarrow> nat \<Rightarrow> ('f, 'k) reactor stream_ops" where
  "FD_ops K x = \<lparr>sread = FD_read K x, swrite = FD_write K x, sclose = FD_close K x\<rparr>"

text \<open>\<open>take_fd\<close>: the table entry is made before \<open>epoll.add\<close> can fail.\<close>

definition Reactor_take_fd :: "'k kernel_ops \<Rightarrow> 'f \<Rightarrow> int \<Rightarrow> ('f, 'k) reactor \<Rightarrow> (nat \<times> ('f, 'k) reactor) result" where
  "Reactor_take_fd K nop n r =
     (let (ok, k) = k_setnonblocking K (kernel r) n in
      if \<not> ok then Inl (Thrown ''system_error'')
      else let x = next_obj r;
               obj = \<lparr>fd = n, error_reported = False, on_read_ready = nop, on_write_ready = nop, on_error = nop\<rparr>;
               r' = r\<lparr>kernel := k, next_obj := Suc x, fd_objs := (fd_objs r)(x := obj), fds := (fds r)(n \<mapsto> x)\<rparr>;
               (added, k') = k_epoll_add K k n
           in if added then Inr (x, r'\<lparr>kernel := k'\<rparr>) else Inl (Thrown ''system_error''))"

definition Stream_set_on_read_ready_and_schedule ::
    "nat \<Rightarrow> 'f \<Rightarrow> ('f, 'k) reactor \<Rightarrow> ('f, 'k) reactor result" where
  "Stream_set_on_read_ready_and_schedule x f r =
     Reactor_schedule f (r\<lparr>fd_objs := (fd_objs r)(x := (fd_objs r x)\<lparr>on_read_ready := f\<rparr>)\<rparr>)"

definition Stream_set_on_write_ready_and_schedule ::
    "nat \<Rightarrow> 'f \<Rightarrow> ('f, 'k) reactor \<Rightarrow> ('f, 'k) reactor result" where
  "Stream_set_on_write_ready_and_schedule x f r =
     Reactor_schedule f (r\<lparr>fd_objs := (fd_objs r)(x := (fd_objs r x)\<lparr>on_write_ready := f\<rparr>)\<rparr>)"

section \<open>Signals and epoll\<close>

definition Signals_handle :: "int \<Rightarrow> 'f signals \<Rightarrow> 'f signals" where
  "Signals_handle sig s = s\<lparr>signal_appeared := (signal_appeared s)(sig := True)\<rparr>"

definition Signals_register_signal_handler :: "int \<Rightarrow> 'f \<Rightarrow> 'f signals \<Rightarrow> 'f signals" where
  "Signals_register_signal_handler sig fun s =
     s\<lparr>signal_appeared := (signal_appeared s)(sig := False), signal_handlers := (signal_handlers s)(sig \<mapsto> fun),
       signals_registered := signals_registered s @ [sig]\<rparr>"

fun Signals_call_handlers :: "('f, 'k) handler \<Rightarrow> int list \<Rightarrow> ('f, 'k) reactor \<Rightarrow> ('f, 'k) reactor result" where
  "Signals_call_handlers exec [] r = Inr r"
| "Signals_call_handlers exec (sig # rest) r =
     (if signal_appeared (sigs r) sig
      then let r' = r\<lparr>sigs := (sigs r)\<lparr>signal_appeared := (signal_appeared (sigs r))(sig := False)\<rparr>\<rparr>
           in case signal_handlers (sigs r') sig of
                None \<Rightarrow> Inl (Thrown ''bad_function_call'')
              | Some f \<Rightarrow> bindR (exec f r') (Signals_call_handlers exec rest)
      else Signals_call_handlers exec rest r)"

text \<open>\<open>EPOLLIN\<close>, \<open>EPOLLOUT\<close>, \<open>EPOLLERR\<close>, \<open>EPOLLHUP\<close>, \<open>EPOLLRDHUP\<close> are the bits 0, 2, 3, 4 and 13.\<close>

definition EPoll_result :: "int \<times> u32 \<Rightarrow> EPollResult" where
  "EPoll_result ev =
     \<lparr>rfd = fst ev,
      read_ready = (snd ev AND 0x001 \<noteq> 0),
      write_ready = (snd ev AND 0x004 \<noteq> 0),
      error = (snd ev AND (0x2000 OR 0x010 OR 0x008) \<noteq> 0)\<rparr>"

definition EPoll_wait :: "'k kernel_ops \<Rightarrow> int \<Rightarrow> ('f, 'k) reactor \<Rightarrow> (EPollResult list \<times> ('f, 'k) reactor) result" where
  "EPoll_wait K timeout r =
     (let (evs, errno, k) = k_epoll_wait K (kernel r) timeout; r' = r\<lparr>kernel := k\<rparr>
      in case evs of
           Some es \<Rightarrow> Inr (map EPoll_result es, r')
         | None \<Rightarrow> (if errno = EINTR then Inr ([], r') else Inl (Thrown ''system_error'')))"

section \<open>The loop\<close>

fun run_all :: "('f, 'k) handler \<Rightarrow> 'f list \<Rightarrow> ('f, 'k) reactor \<Rightarrow> ('f, 'k) reactor result" where
  "run_all exec [] r = Inr r"
| "run_all exec (f # fs) r = bindR (exec f r) (run_all exec fs)"

definition dispatch_one :: "('f, 'k) handler \<Rightarrow> EPollResult \<Rightarrow> ('f, 'k) reactor \<Rightarrow> ('f, 'k) reactor result" where
  "dispatch_one exec e r = (case fds r (rfd e) of
       None \<Rightarrow> Inr r
     | Some _ \<Rightarrow>
         let obj = (\<lambda>s. the (fds s (rfd e))) in
         bindR (if read_ready e then exec (on_read_ready (fd_objs r (obj r))) r else Inr r) (\<lambda>r.
         bindR (if write_ready e then exec (on_write_ready (fd_objs r (obj r))) r else Inr r) (\<lambda>r.
         if error e then FD_handle_error (obj r) r else Inr r)))"

fun dispatch :: "('f, 'k) handler \<Rightarrow> EPollResult list \<Rightarrow> ('f, 'k) reactor \<Rightarrow> ('f, 'k) reactor result" where
  "dispatch exec [] r = Inr r"
| "dispatch exec (e # es) r = bindR (dispatch_one exec e r) (dispatch exec es)"

definition Reactor_step :: "'k kernel_ops \<Rightarrow> ('f, 'k) handler \<Rightarrow> ('f, 'k) reactor \<Rightarrow> ('f, 'k) reactor result" where
  "Reactor_step K exec r =
     (let r0 = r\<lparr>epoch := epoch r + 1, scheduled_functions := []\<rparr> in
      bindR (run_all exec (scheduled_functions r) r0) (\<lambda>r1.
      let timeout = (if scheduled_functions r1 = [] then -1 else 0) in
      bindR (EPoll_wait K timeout r1) (\<lambda>(result, r2).
      bindR (Signals_call_handlers exec (signals_registered (sigs r2)) r2) (dispatch exec result))))"

text \<open>\<open>run\<close> loops until a handler calls \<open>exit\<close>; the bound counts steps.\<close>

fun Reactor_run :: "nat \<Rightarrow> 'k kernel_ops \<Rightarrow> ('f, 'k) handler \<Rightarrow> ('f, 'k) reactor \<Rightarrow> ('f, 'k) reactor result" where
  "Reactor_run fuel K exec r =
     (if want_exit r then Inr r
      else case fuel of
        0 \<Rightarrow> Inl Fuel_exhausted
      | Suc n \<Rightarrow> bindR (Reactor_step K exec r) (Reactor_run n K exec))"

declare Reactor_run.simps [simp del]

section \<open>Errors are reported once\<close>

datatype fd_io = IO_read nat | IO_write bytes

fun fd_io_step :: "'k kernel_ops \<Rightarrow> nat \<Rightarrow> fd_io \<Rightarrow> ('f, 'k) reactor \<Rightarrow> ('f, 'k) reactor result" where
  "fd_io_step K x (IO_read n) r = bindR (FD_read K x r n) (\<lambda>v. Inr (snd v))"
| "fd_io_step K x (IO_write d) r = bindR (FD_write K x r d) (\<lambda>v. Inr (snd v))"

fun fd_io_run :: "'k kernel_ops \<Rightarrow> nat \<Rightarrow> fd_io list \<Rightarrow> ('f, 'k) reactor \<Rightarrow> ('f, 'k) reactor result" where
  "fd_io_run K x [] r = Inr r"
| "fd_io_run K x (i # is) r = bindR (fd_io_step K x i r) (fd_io_run K x is)"

definition reported_by :: "nat \<Rightarrow> ('f, 'k) reactor \<Rightarrow> ('f, 'k) reactor \<Rightarrow> bool" where
  "reported_by x r r' \<longleftrightarrow> on_error (fd_objs r' x) = on_error (fd_objs r x)
     \<and> (if error_reported (fd_objs r' x) \<and> \<not> error_reported (fd_objs r x)
        then scheduled_functions r' = scheduled_functions r @ [on_error (fd_objs r x)]
        else scheduled_functions r' = scheduled_functions r
           \<and> error_reported (fd_objs r' x) = error_reported (fd_objs r x))"

lemma reported_by_refl: "reported_by x r r"
  by (simp add: reported_by_def)

lemma reported_by_trans: "reported_by x r s \<Longrightarrow> reported_by x s t \<Longrightarrow> reported_by x r t"
  by (auto simp: reported_by_def split: if_splits)

lemma reported_by_kernel [simp]: "reported_by x (r\<lparr>kernel := k\<rparr>) r' = reported_by x r r'"
  "reported_by x r (r'\<lparr>kernel := k\<rparr>) = reported_by x r r'"
  by (simp_all add: reported_by_def)

lemma handle_error_reported: "FD_handle_error x r = Inr r' \<Longrightarrow> reported_by x r r'"
  by (auto simp: FD_handle_error_def Reactor_schedule_def reported_by_def result_simps split: if_splits)

lemma fd_io_step_reported: "fd_io_step K x i r = Inr r' \<Longrightarrow> reported_by x r r'"
  by (cases i)
    (auto simp: FD_read_def FD_write_def Let_def result_simps reported_by_refl
      dest!: handle_error_reported split: if_splits option.splits prod.splits)

section \<open>A descriptor as a byte stream\<close>

locale kernel_fd =
  fixes K :: "'k kernel_ops"
    and n :: int
    and kwritten :: "'k \<Rightarrow> bytes"
    and kincoming :: "'k \<Rightarrow> bytes"
    and x :: nat
  assumes k_write_law: "k_write K k n d = (ret, errno, k') \<Longrightarrow>
      kincoming k' = kincoming k \<and> (case ret of None \<Rightarrow> kwritten k' = kwritten k
        | Some m \<Rightarrow> m \<le> length d \<and> kwritten k' = kwritten k @ take m d)"
    and k_read_law: "k_read K k n m = (got, errno, k') \<Longrightarrow>
      kwritten k' = kwritten k \<and> (case got of None \<Rightarrow> kincoming k' = kincoming k
        | Some d \<Rightarrow> length d \<le> m \<and> kincoming k = d @ kincoming k')"
begin

definition fd_inv :: "('f, 'k) reactor \<Rightarrow> bool" where
  "fd_inv r \<longleftrightarrow> fd (fd_objs r x) = n \<and> (error_reported (fd_objs r x) \<or> length (scheduled_functions r) < 1000)"

lemma handle_error_inv:
  assumes "fd_inv r"
  shows "\<exists>r'. FD_handle_error x r = Inr r' \<and> fd_inv r' \<and> kernel r' = kernel r"
  using assms by (auto simp: FD_handle_error_def Reactor_schedule_def fd_inv_def)

lemma fd_write_law:
  assumes "fd_inv r" "d \<noteq> []"
  shows "\<exists>m r'. FD_write K x r d = Inr (m, r') \<and> m \<le> length d \<and> fd_inv r'
      \<and> kwritten (kernel r') = kwritten (kernel r) @ take m d \<and> kincoming (kernel r') = kincoming (kernel r)"
proof -
  obtain ret errno k where w: "k_write K (kernel r) n d = (ret, errno, k)" by (metis prod_cases3)
  note law = k_write_law [OF w]
  have f: "fd (fd_objs r x) = n" and i: "fd_inv (r\<lparr>kernel := k\<rparr>)" using assms by (auto simp: fd_inv_def)
  from handle_error_inv [OF i] obtain r' where
    "FD_handle_error x (r\<lparr>kernel := k\<rparr>) = Inr r'" "fd_inv r'" "kernel r' = k" by auto
  with law i assms(2) w f show ?thesis
    by (cases ret; cases "errno = EAGAIN") (auto simp: FD_write_def Let_def)
qed

lemma fd_read_law:
  assumes "fd_inv r"
  shows "\<exists>d r'. FD_read K x r m = Inr (d, r') \<and> length d \<le> m \<and> fd_inv r'
      \<and> kwritten (kernel r') = kwritten (kernel r) \<and> kincoming (kernel r) = d @ kincoming (kernel r')"
proof -
  obtain ret errno k where w: "k_read K (kernel r) n m = (ret, errno, k)" by (metis prod_cases3)
  note law = k_read_law [OF w]
  have f: "fd (fd_objs r x) = n" and i: "fd_inv (r\<lparr>kernel := k\<rparr>)" using assms by (auto simp: fd_inv_def)
  from handle_error_inv [OF i] obtain r' where
    "FD_handle_error x (r\<lparr>kernel := k\<rparr>) = Inr r'" "fd_inv r'" "kernel r' = k" by auto
  with law i w f show ?thesis
    by (cases "ret = None \<or> ret = Some []"; cases "errno = EAGAIN")
      (auto simp: FD_read_def Let_def split: option.splits)
qed

end

sublocale kernel_fd \<subseteq> fd_stream: byte_stream "FD_ops K x" fd_inv "\<lambda>r. kwritten (kernel r)" "\<lambda>r. kincoming (kernel r)"
  by unfold_locales (use fd_write_law fd_read_law in \<open>auto simp: FD_ops_def\<close>)

text \<open>
  One kernel that obeys these laws, for concrete runs: descriptor 3 is a socket whose successive
  reads find the chunks \<open>rx\<close> (an empty chunk is \<open>EAGAIN\<close>), whose successive writes find the room
  \<open>wx\<close>, and which collects what was written in \<open>tx\<close>.
\<close>

record sock =
  rx :: "bytes list"
  wx :: "nat list"
  tx :: bytes

definition sock_read :: "sock \<Rightarrow> int \<Rightarrow> nat \<Rightarrow> bytes option \<times> errno \<times> sock" where
  "sock_read k f m = (case rx k of
       [] \<Rightarrow> (None, EAGAIN, k)
     | c # cs \<Rightarrow> (if c = [] then (None, EAGAIN, k\<lparr>rx := cs\<rparr>)
         else (Some (take m c), EAGAIN, k\<lparr>rx := (if drop m c = [] then cs else drop m c # cs)\<rparr>)))"

definition sock_write :: "sock \<Rightarrow> int \<Rightarrow> bytes \<Rightarrow> nat option \<times> errno \<times> sock" where
  "sock_write k f d = (case wx k of
       [] \<Rightarrow> (None, EAGAIN, k)
     | m # ms \<Rightarrow> (if m = 0 then (None, EAGAIN, k\<lparr>wx := ms\<rparr>)
         else (Some (min m (length d)), EAGAIN, k\<lparr>wx := ms, tx := tx k @ take m d\<rparr>)))"

definition sock_kernel :: "sock kernel_ops" where
  "sock_kernel = \<lparr>k_read = sock_read, k_write = sock_write, k_close = (\<lambda>k _. k),
     k_setnonblocking = (\<lambda>k _. (True, k)), k_epoll_add = (\<lambda>k _. (True, k)),
     k_epoll_wait = (\<lambda>k _. (Some [], EAGAIN, k))\<rparr>"

interpretation sock: kernel_fd sock_kernel 3 tx "\<lambda>k. concat (rx k)" 0
  by unfold_locales
    (auto simp: sock_kernel_def sock_read_def sock_write_def min_def split: list.splits if_splits)

section \<open>Properties\<close>

text \<open>A step of the reactor runs exactly the functions that were scheduled before it, once each and
  in the order they were scheduled; what they schedule is kept, in order, for the next step.
  Stated for handlers that schedule (\<open>spawn\<close>) and act on the rest of the world (\<open>act\<close>).\<close>

theorem Reactor_step_runs_scheduled:
  assumes "\<And>f r. exec f r = Inr (r\<lparr>scheduled_functions := scheduled_functions r @ spawn f, kernel := act f (kernel r)\<rparr>)"
    and "k_epoll_wait K (fold act (scheduled_functions r) (kernel r))
           (if concat (map spawn (scheduled_functions r)) = [] then -1 else 0) = (Some [], e, k)"
    and "\<And>s. \<not> signal_appeared (sigs r) s"
  shows "Reactor_step K exec r = Inr (r\<lparr>epoch := epoch r + 1,
           scheduled_functions := concat (map spawn (scheduled_functions r)), kernel := k\<rparr>)"
proof -
  have run: "run_all exec fs q = Inr (q\<lparr>scheduled_functions := scheduled_functions q @ concat (map spawn fs),
      kernel := fold act fs (kernel q)\<rparr>)" for fs q
    by (induction fs arbitrary: q) (simp_all add: assms(1))
  have sig: "Signals_call_handlers exec ss q = Inr q" if "sigs q = sigs r" for ss q
    using that by (induction ss) (simp_all add: assms(3))
  show ?thesis
    using assms(2) by (simp add: Reactor_step_def run EPoll_wait_def sig)
qed

theorem Reactor_step_runs_scheduled_witness:
  "\<exists>r'. Reactor_step \<lparr>k_read = (\<lambda>k _ _. (None, EAGAIN, k)), k_write = (\<lambda>k _ _. (None, EAGAIN, k)),
         k_close = (\<lambda>k _. k), k_setnonblocking = (\<lambda>k _. (True, k)), k_epoll_add = (\<lambda>k _. (True, k)),
         k_epoll_wait = (\<lambda>k _. (Some [], EAGAIN, k))\<rparr>
       (\<lambda>f r. Inr (r\<lparr>scheduled_functions := scheduled_functions r @ [f + 10], kernel := kernel r @ [f]\<rparr>))
       \<lparr>fds = Map.empty, fd_objs = (\<lambda>_. \<lparr>fd = 0, error_reported = False, on_read_ready = 0, on_write_ready = 0, on_error = 0\<rparr>),
        next_obj = 0, scheduled_functions = [1, 2 :: nat], want_exit = False, epoch = 0,
        sigs = \<lparr>signal_appeared = (\<lambda>_. False), signal_handlers = Map.empty, signals_registered = []\<rparr>, kernel = []\<rparr>
     = Inr r' \<and> scheduled_functions r' = [11, 12] \<and> kernel r' = [1, 2]"
  by (subst Reactor_step_runs_scheduled [where spawn = "\<lambda>f. [f + 10]" and act = "\<lambda>f k. k @ [f]"
        and e = EAGAIN and k = "[1, 2]"]) simp_all

text \<open>Whatever sequence of reads and writes fails, an \<open>FD\<close> schedules its error callback at most
  once, and never again after it has been reported.\<close>

theorem FD_error_reported_once:
  assumes "fd_io_run K x is r = Inr r'"
  shows "reported_by x r r'"
  using assms
proof (induction "is" arbitrary: r)
  case (Cons i "is")
  then obtain q where "fd_io_step K x i r = Inr q" "fd_io_run K x is q = Inr r'"
    by (auto simp: result_simps)
  with Cons.IH fd_io_step_reported reported_by_trans show ?case by blast
qed (simp add: reported_by_refl)

definition sock_reactor :: "sock \<Rightarrow> (nat, sock) reactor" where
  "sock_reactor k = \<lparr>fds = [3 \<mapsto> 0],
     fd_objs = (\<lambda>_. \<lparr>fd = 3, error_reported = False, on_read_ready = 1, on_write_ready = 2, on_error = 3\<rparr>),
     next_obj = 1, scheduled_functions = [], want_exit = False, epoch = 0,
     sigs = \<lparr>signal_appeared = (\<lambda>_. False), signal_handlers = Map.empty, signals_registered = []\<rparr>, kernel = k\<rparr>"

theorem FD_error_reported_once_witness:
  "\<exists>r'. fd_io_run (sock_kernel\<lparr>k_read := (\<lambda>k _ _. (Some [], Other_errno, k))\<rparr>) 0 [IO_read 5, IO_read 5]
       (sock_reactor \<lparr>rx = [], wx = [], tx = []\<rparr>) = Inr r' \<and> scheduled_functions r' = [3]
     \<and> reported_by 0 (sock_reactor \<lparr>rx = [], wx = [], tx = []\<rparr>) r'"
proof -
  let ?K = "sock_kernel\<lparr>k_read := (\<lambda>k _ _. (Some [], Other_errno, k))\<rparr>"
  let ?r = "sock_reactor \<lparr>rx = [], wx = [], tx = []\<rparr>"
  obtain r' where r': "fd_io_run ?K 0 [IO_read 5, IO_read 5] ?r = Inr r'" "scheduled_functions r' = [3]"
    by (simp add: FD_read_def FD_handle_error_def Reactor_schedule_def sock_reactor_def)
  with FD_error_reported_once [OF r'(1)] show ?thesis by blast
qed

text \<open>\<open>FD::close\<close> does not remove the descriptor from the reactor's table: it sets \<open>fd\<close> to \<open>-1\<close>
  before erasing the entry of \<open>fd\<close>, so for any table without an entry for \<open>-1\<close> the old entry stays,
  and still leads to the closed object.\<close>

theorem FD_close_keeps_table_entry:
  assumes "fds r (fd (fd_objs r x)) = Some x" "fds r (-1) = None"
  shows "fds (FD_close K x r) = fds r \<and> fds (FD_close K x r) (fd (fd_objs r x)) = Some x
           \<and> fd (fd_objs (FD_close K x r) x) = -1"
  using assms by (auto simp: FD_close_def Let_def)

theorem FD_close_keeps_table_entry_witness:
  "fds (FD_close sock_kernel 0 (sock_reactor \<lparr>rx = [], wx = [], tx = []\<rparr>)) 3 = Some 0"
  using FD_close_keeps_table_entry [of "sock_reactor \<lparr>rx = [], wx = [], tx = []\<rparr>" 0 sock_kernel]
  by (simp add: sock_reactor_def)

end
