(* ===== verification/Future.thy ===== *)
theory Future
  imports Prelude
begin

text \<open>
  \<^verbatim>\<open>libreactor/future.h\<close>: futures and completers.

  The shared \<open>_FutureData\<close> objects live in a store and are referred to by number. The closures the class
  installs as callbacks are a datatype, one constructor per lambda of the source, that names the objects the
  lambda captures; the functions of the user are symbols \<open>'f\<close> whose meaning, an effect on the store, is a
  parameter. A moved-from exception pointer is \<open>None\<close>. A value that was never assigned is the default value of
  its type. Callbacks call each other through the store, so calls take fuel.
\<close>

section \<open>Data\<close>

datatype FutureState = WAITING | IMMEDIATE_EXCEPTION | IMMEDIATE_VALUE

datatype 'f value_callback =
    Store_value nat
  | Ignore_value
  | Complete nat
  | Apply_then 'f nat
  | Apply_bind 'f nat
  | User_value 'f

datatype 'f exception_callback =
    Store_exception nat
  | Fail nat
  | Throw_exception
  | Log_exception
  | Recover 'f nat
  | Recover_bind 'f nat
  | User_exception 'f

record ('f, 'v) future_data =
  fstate :: FutureState
  fvalue :: 'v
  fexception :: "string option"
  fvalue_callback :: "'f value_callback"
  fexception_callback :: "'f exception_callback"

record ('f, 'v) future_store =
  futures :: "nat \<Rightarrow> ('f, 'v) future_data"
  next_future :: nat

text \<open>What the user's functions do, per signature they are used at.\<close>

record ('f, 'v) future_env =
  default_value :: 'v
  apply_fun :: "'f \<Rightarrow> 'v \<Rightarrow> ('f, 'v) future_store \<Rightarrow> ('v \<times> ('f, 'v) future_store) result"
  apply_bind :: "'f \<Rightarrow> 'v \<Rightarrow> ('f, 'v) future_store \<Rightarrow> (nat \<times> ('f, 'v) future_store) result"
  apply_recover :: "'f \<Rightarrow> string option \<Rightarrow> ('f, 'v) future_store \<Rightarrow> ('v \<times> ('f, 'v) future_store) result"
  apply_recover_bind :: "'f \<Rightarrow> string option \<Rightarrow> ('f, 'v) future_store \<Rightarrow> (nat \<times> ('f, 'v) future_store) result"
  apply_user :: "'f \<Rightarrow> 'v \<Rightarrow> ('f, 'v) future_store \<Rightarrow> ('f, 'v) future_store result"
  apply_user_exception :: "'f \<Rightarrow> string option \<Rightarrow> ('f, 'v) future_store \<Rightarrow> ('f, 'v) future_store result"

definition upd_future :: "nat \<Rightarrow> (('f, 'v) future_data \<Rightarrow> ('f, 'v) future_data) \<Rightarrow> ('f, 'v) future_store \<Rightarrow> ('f, 'v) future_store" where
  "upd_future d u s = s\<lparr>futures := (futures s)(d := u (futures s d))\<rparr>"

definition new_future :: "('f, 'v) future_data \<Rightarrow> ('f, 'v) future_store \<Rightarrow> nat \<times> ('f, 'v) future_store" where
  "new_future x s = (next_future s, s\<lparr>futures := (futures s)(next_future s := x), next_future := next_future s + 1\<rparr>)"

definition Future_make_immediate :: "'v \<Rightarrow> ('f, 'v) future_store \<Rightarrow> nat \<times> ('f, 'v) future_store" where
  "Future_make_immediate v s = new_future \<lparr>fstate = IMMEDIATE_VALUE, fvalue = v, fexception = None,
     fvalue_callback = Ignore_value, fexception_callback = Log_exception\<rparr> s"

definition Future_make_exception :: "('f, 'v) future_env \<Rightarrow> string \<Rightarrow> ('f, 'v) future_store \<Rightarrow> nat \<times> ('f, 'v) future_store" where
  "Future_make_exception env ex s = new_future \<lparr>fstate = IMMEDIATE_EXCEPTION, fvalue = default_value env,
     fexception = Some ex, fvalue_callback = Ignore_value, fexception_callback = Log_exception\<rparr> s"

definition Completer_new :: "('f, 'v) future_env \<Rightarrow> ('f, 'v) future_store \<Rightarrow> nat \<times> ('f, 'v) future_store" where
  "Completer_new env s = new_future \<lparr>fstate = WAITING, fvalue = default_value env, fexception = None,
     fvalue_callback = Store_value (next_future s), fexception_callback = Store_exception (next_future s)\<rparr> s"

definition ImmediateCompleter_new :: "'v \<Rightarrow> ('f, 'v) future_store \<Rightarrow> nat \<times> ('f, 'v) future_store" where
  "ImmediateCompleter_new v s = new_future \<lparr>fstate = WAITING, fvalue = v, fexception = None,
     fvalue_callback = Ignore_value, fexception_callback = Store_exception (next_future s)\<rparr> s"

definition Future_has_result :: "('f, 'v) future_store \<Rightarrow> nat \<Rightarrow> bool" where
  "Future_has_result s d \<longleftrightarrow> fstate (futures s d) \<noteq> WAITING"

text \<open>
  Exceptions are named by what \<open>what()\<close> says of them. \<open>throw *ex\<close> throws a copy of static type
  \<open>std::exception\<close>: the copy keeps neither the type nor the message of the exception \<open>ex\<close> points to.
\<close>

definition thrown_copy :: "string \<Rightarrow> string" where
  "thrown_copy ex = ''std::exception''"

section \<open>Callbacks\<close>

text \<open>
  One call of \<open>on_success_or_failure\<close>, \<open>Completer::result\<close>, \<open>result_failure\<close> or of an installed lambda. In
  \<open>on_success_or_failure\<close> the exception is moved out of the data before it is passed on.
\<close>

datatype ('f, 'v) future_call =
    Call_on_success_or_failure nat "'f value_callback" "'f exception_callback"
  | Call_result nat 'v
  | Call_result_failure nat "string option"
  | Call_value "'f value_callback" 'v
  | Call_exception "'f exception_callback" "string option"

primrec run_call :: "nat \<Rightarrow> ('f, 'v) future_env \<Rightarrow> ('f, 'v) future_call \<Rightarrow> ('f, 'v) future_store \<Rightarrow> ('f, 'v) future_store result" where
  "run_call 0 env c s = Inl Fuel_exhausted"
| "run_call (Suc n) env c s = (case c of
     Call_on_success_or_failure d fv fe \<Rightarrow> (case fstate (futures s d) of
         IMMEDIATE_VALUE \<Rightarrow> run_call n env (Call_value fv (fvalue (futures s d))) s
       | IMMEDIATE_EXCEPTION \<Rightarrow>
           run_call n env (Call_exception fe (fexception (futures s d))) (upd_future d (\<lambda>x. x\<lparr>fexception := None\<rparr>) s)
       | WAITING \<Rightarrow> Inr (upd_future d (\<lambda>x. x\<lparr>fvalue_callback := fv, fexception_callback := fe\<rparr>) s))
   | Call_result d v \<Rightarrow>
       assertR (fstate (futures s d) = WAITING)
        (run_call n env (Call_value (fvalue_callback (futures s d)) v)
          (upd_future d (\<lambda>x. x\<lparr>fstate := IMMEDIATE_VALUE\<rparr>) s))
   | Call_result_failure d ex \<Rightarrow>
       assertR (fstate (futures s d) = WAITING)
        (run_call n env (Call_exception (fexception_callback (futures s d)) ex)
          (upd_future d (\<lambda>x. x\<lparr>fstate := IMMEDIATE_EXCEPTION\<rparr>) s))
   | Call_value cb v \<Rightarrow> (case cb of
         Store_value d \<Rightarrow> Inr (upd_future d (\<lambda>x. x\<lparr>fstate := IMMEDIATE_VALUE, fvalue := v\<rparr>) s)
       | Ignore_value \<Rightarrow> Inr s
       | Complete f \<Rightarrow> run_call n env (Call_result f v) s
       | Apply_then g f \<Rightarrow> bindR (apply_fun env g v s) (\<lambda>r. run_call n env (Call_result f (fst r)) (snd r))
       | Apply_bind g f \<Rightarrow> bindR (apply_bind env g v s) (\<lambda>r.
           run_call n env (Call_on_success_or_failure (fst r) (Complete f) (Fail f)) (snd r))
       | User_value g \<Rightarrow> apply_user env g v s)
   | Call_exception cb ex \<Rightarrow> (case cb of
         Store_exception d \<Rightarrow> Inr (upd_future d (\<lambda>x. x\<lparr>fstate := IMMEDIATE_EXCEPTION, fexception := ex\<rparr>) s)
       | Fail f \<Rightarrow> run_call n env (Call_result_failure f ex) s
       | Throw_exception \<Rightarrow> (case ex of None \<Rightarrow> Inl Undefined_behaviour | Some e \<Rightarrow> Inl (Thrown (thrown_copy e)))
       | Log_exception \<Rightarrow> (case ex of None \<Rightarrow> Inl Undefined_behaviour | Some e \<Rightarrow> Inr s)
       | Recover g f \<Rightarrow> bindR (apply_recover env g ex s) (\<lambda>r. run_call n env (Call_result f (fst r)) (snd r))
       | Recover_bind g f \<Rightarrow> bindR (apply_recover_bind env g ex s) (\<lambda>r.
           run_call n env (Call_on_success_or_failure (fst r) (Complete f) (Fail f)) (snd r))
       | User_exception g \<Rightarrow> apply_user_exception env g ex s))"

definition Future_on_success_or_failure :: "nat \<Rightarrow> ('f, 'v) future_env \<Rightarrow> nat \<Rightarrow> 'f value_callback \<Rightarrow> 'f exception_callback \<Rightarrow>
      ('f, 'v) future_store \<Rightarrow> ('f, 'v) future_store result" where
  "Future_on_success_or_failure n env d fv fe s = run_call n env (Call_on_success_or_failure d fv fe) s"

definition Completer_result :: "nat \<Rightarrow> ('f, 'v) future_env \<Rightarrow> nat \<Rightarrow> 'v \<Rightarrow> ('f, 'v) future_store \<Rightarrow> ('f, 'v) future_store result" where
  "Completer_result n env d v s = run_call n env (Call_result d v) s"

definition Completer_result_failure :: "nat \<Rightarrow> ('f, 'v) future_env \<Rightarrow> nat \<Rightarrow> string option \<Rightarrow> ('f, 'v) future_store \<Rightarrow>
      ('f, 'v) future_store result" where
  "Completer_result_failure n env d ex s = run_call n env (Call_result_failure d ex) s"

text \<open>\<open>ImmediateCompleter::result\<close> passes the value it was built with.\<close>

definition ImmediateCompleter_result :: "nat \<Rightarrow> ('f, 'v) future_env \<Rightarrow> nat \<Rightarrow> ('f, 'v) future_store \<Rightarrow> ('f, 'v) future_store result" where
  "ImmediateCompleter_result n env d s = Completer_result n env d (fvalue (futures s d)) s"

definition Completer_complete_from :: "nat \<Rightarrow> ('f, 'v) future_env \<Rightarrow> nat \<Rightarrow> nat \<Rightarrow> ('f, 'v) future_store \<Rightarrow> ('f, 'v) future_store result" where
  "Completer_complete_from n env f d s = Future_on_success_or_failure n env d (Complete f) (Fail f) s"

section \<open>Combinators\<close>

definition Future_on_success :: "nat \<Rightarrow> ('f, 'v) future_env \<Rightarrow> nat \<Rightarrow> 'f value_callback \<Rightarrow> ('f, 'v) future_store \<Rightarrow> ('f, 'v) future_store result" where
  "Future_on_success n env d fv s = Future_on_success_or_failure n env d fv Throw_exception s"

definition Future_on_failure :: "nat \<Rightarrow> ('f, 'v) future_env \<Rightarrow> nat \<Rightarrow> 'f exception_callback \<Rightarrow> ('f, 'v) future_store \<Rightarrow> ('f, 'v) future_store result" where
  "Future_on_failure n env d fe s = Future_on_success_or_failure n env d Ignore_value fe s"

definition Future_ignore :: "nat \<Rightarrow> ('f, 'v) future_env \<Rightarrow> nat \<Rightarrow> ('f, 'v) future_store \<Rightarrow> ('f, 'v) future_store result" where
  "Future_ignore n env d s = Future_on_success_or_failure n env d Ignore_value Log_exception s"

definition derived_future :: "nat \<Rightarrow> ('f, 'v) future_env \<Rightarrow> nat \<Rightarrow> (nat \<Rightarrow> 'f value_callback) \<Rightarrow> (nat \<Rightarrow> 'f exception_callback) \<Rightarrow>
    ('f, 'v) future_store \<Rightarrow> (nat \<times> ('f, 'v) future_store) result" where
  "derived_future n env d fv fe s =
     (let (f, s1) = Completer_new env s in
      bindR (Future_on_success_or_failure n env d (fv f) (fe f) s1) (\<lambda>s2. Inr (f, s2)))"

definition Future_then :: "nat \<Rightarrow> ('f, 'v) future_env \<Rightarrow> nat \<Rightarrow> 'f \<Rightarrow> ('f, 'v) future_store \<Rightarrow> (nat \<times> ('f, 'v) future_store) result" where
  "Future_then n env d g s = derived_future n env d (Apply_then g) Fail s"

definition Future_then_future :: "nat \<Rightarrow> ('f, 'v) future_env \<Rightarrow> nat \<Rightarrow> 'f \<Rightarrow> ('f, 'v) future_store \<Rightarrow> (nat \<times> ('f, 'v) future_store) result" where
  "Future_then_future n env d g s = derived_future n env d (Apply_bind g) Fail s"

definition Future_except :: "nat \<Rightarrow> ('f, 'v) future_env \<Rightarrow> nat \<Rightarrow> 'f \<Rightarrow> ('f, 'v) future_store \<Rightarrow> (nat \<times> ('f, 'v) future_store) result" where
  "Future_except n env d g s = derived_future n env d Complete (Recover g) s"

definition Future_except_future :: "nat \<Rightarrow> ('f, 'v) future_env \<Rightarrow> nat \<Rightarrow> 'f \<Rightarrow> ('f, 'v) future_store \<Rightarrow> (nat \<times> ('f, 'v) future_store) result" where
  "Future_except_future n env d g s = derived_future n env d Complete (Recover_bind g) s"

text \<open>
  \<open>wait\<close> runs the event loop, a parameter, from inside a call. Its local variables \<open>ready\<close> and \<open>value\<close>, which the callback
  captures by reference, are a cell \<open>w\<close> of the store that no completer knows.
\<close>

fun wait_loop :: "nat \<Rightarrow> (('f, 'v) future_store \<Rightarrow> ('f, 'v) future_store result) \<Rightarrow> nat \<Rightarrow> ('f, 'v) future_store \<Rightarrow>
    ('v \<times> ('f, 'v) future_store) result" where
  "wait_loop 0 step w s = Inl Fuel_exhausted"
| "wait_loop (Suc n) step w s =
     (if fstate (futures s w) = IMMEDIATE_VALUE then Inr (fvalue (futures s w), s)
      else bindR (step s) (wait_loop n step w))"

definition wait_cell :: "('f, 'v) future_env \<Rightarrow> ('f, 'v) future_store \<Rightarrow> nat \<times> ('f, 'v) future_store" where
  "wait_cell env s = new_future \<lparr>fstate = WAITING, fvalue = default_value env, fexception = None,
     fvalue_callback = Ignore_value, fexception_callback = Log_exception\<rparr> s"

definition Future_wait :: "nat \<Rightarrow> nat \<Rightarrow> ('f, 'v) future_env \<Rightarrow> (('f, 'v) future_store \<Rightarrow> ('f, 'v) future_store result) \<Rightarrow> nat \<Rightarrow>
    ('f, 'v) future_store \<Rightarrow> ('v \<times> ('f, 'v) future_store) result" where
  "Future_wait m n env step d s =
     (let (w, s1) = wait_cell env s in
      bindR (Future_on_success n env d (Store_value w) s1) (wait_loop m step w))"

section \<open>Properties\<close>

text \<open>A future that waits and has nothing attached, as a completer creates it.\<close>

definition unattached :: "('f, 'v) future_store \<Rightarrow> nat \<Rightarrow> bool" where
  "unattached s d \<longleftrightarrow> d < next_future s \<and> fstate (futures s d) = WAITING
     \<and> fvalue_callback (futures s d) = Store_value d \<and> fexception_callback (futures s d) = Store_exception d"

definition resolved :: "('f, 'v) future_store \<Rightarrow> nat \<Rightarrow> 'v \<Rightarrow> bool" where
  "resolved s d v \<longleftrightarrow> fstate (futures s d) = IMMEDIATE_VALUE \<and> fvalue (futures s d) = v"

definition rejected :: "('f, 'v) future_store \<Rightarrow> nat \<Rightarrow> string \<Rightarrow> bool" where
  "rejected s d ex \<longleftrightarrow> fstate (futures s d) = IMMEDIATE_EXCEPTION \<and> fexception (futures s d) = Some ex"

text \<open>How a completer is asked to finish.\<close>

definition settle :: "nat \<Rightarrow> ('f, 'v) future_env \<Rightarrow> nat \<Rightarrow> string + 'v \<Rightarrow> ('f, 'v) future_store \<Rightarrow> ('f, 'v) future_store result" where
  "settle n env d r s = (case r of Inl ex \<Rightarrow> Completer_result_failure n env d (Some ex) s | Inr v \<Rightarrow> Completer_result n env d v s)"

definition settled :: "('f, 'v) future_store \<Rightarrow> nat \<Rightarrow> string + 'v \<Rightarrow> bool" where
  "settled s d r \<longleftrightarrow> (case r of Inl ex \<Rightarrow> rejected s d ex | Inr v \<Rightarrow> resolved s d v)"

lemmas future_defs = settle_def settled_def unattached_def resolved_def rejected_def derived_future_def
  Future_on_success_or_failure_def Completer_result_def Completer_result_failure_def Completer_new_def new_future_def
  upd_future_def Let_def

lemma fuel_6: "6 \<le> n \<Longrightarrow> \<exists>m. n = Suc (Suc (Suc (Suc (Suc (Suc m)))))"
  by (rule exI [of _ "n - 6"]) simp

text \<open>C24: it does not matter whether a continuation is attached before or after its future completes, nor whether the
  future ends in a value or an exception: both orders return, and leave the derived future with the same result,
  the function's value or the same exception.\<close>

theorem Future_then_order_independent:
  assumes "unattached s d" "6 \<le> n" "\<And>v s. apply_fun env g v s = Inr (h v, s)"
  shows "\<exists>f s1 s2 s1' s2'. Future_then n env d g s = Inr (f, s1) \<and> settle n env d r s1 = Inr s2
     \<and> settle n env d r s = Inr s1' \<and> Future_then n env d g s1' = Inr (f, s2')
     \<and> settled s2 f (map_sum (\<lambda>ex. ex) h r) \<and> settled s2' f (map_sum (\<lambda>ex. ex) h r)"
proof -
  obtain m where n: "n = Suc (Suc (Suc (Suc (Suc (Suc m)))))" using fuel_6 [OF assms(2)] by blast
  show ?thesis
    using assms(1) by (cases r) (auto simp: n future_defs Future_then_def assms(3))
qed

definition example_future_env :: "(unit, nat) future_env" where
  "example_future_env = \<lparr>default_value = 0, apply_fun = (\<lambda>g v s. Inr (v + 1, s)), apply_bind = (\<lambda>g v s. Inr (1, s)),
     apply_recover = (\<lambda>g ex s. Inr (0, s)), apply_recover_bind = (\<lambda>g ex s. Inr (0, s)),
     apply_user = (\<lambda>g v s. Inr s), apply_user_exception = (\<lambda>g ex s. Inr s)\<rparr>"

definition example_store :: "(unit, nat) future_store" where
  "example_store = snd (Completer_new example_future_env (snd (Completer_new example_future_env
     \<lparr>futures = (\<lambda>d. undefined), next_future = 0\<rparr>)))"

lemma example_store_unattached: "unattached example_store 0" "unattached example_store 1"
  by (simp_all add: unattached_def example_store_def Completer_new_def new_future_def)

theorem Future_then_order_independent_witness:
  "\<exists>f s1 s2. Future_then 6 example_future_env 0 () example_store = Inr (f, s1)
     \<and> settle 6 example_future_env 0 (Inr 41) s1 = Inr s2 \<and> settled s2 f (Inr 42)"
proof -
  have a: "\<And>v s. apply_fun example_future_env () v s = Inr (v + 1, s)" by (simp add: example_future_env_def)
  have n: "6 \<le> (6 :: nat)" by simp
  from Future_then_order_independent [OF example_store_unattached(1) n a, of "Inr 41"] show ?thesis by auto
qed

text \<open>A continuation that returns a future joins it. Whether the future it was attached to or the future the
  continuation returns completes first, and whether each ends in a value or an exception, the derived future ends
  like the returned one, or with the exception of the first.\<close>

theorem Future_then_future_joins:
  assumes "unattached s d" "unattached s e" "d \<noteq> e" "6 \<le> n" "\<And>v s. apply_bind env g v s = Inr (e, s)"
  shows "\<exists>f s1 s2 s3 s2' s3'. Future_then_future n env d g s = Inr (f, s1)
     \<and> settle n env d a s1 = Inr s2 \<and> settle n env e b s2 = Inr s3
     \<and> settle n env e b s1 = Inr s2' \<and> settle n env d a s2' = Inr s3'
     \<and> settled s3 f (case a of Inl ex \<Rightarrow> Inl ex | Inr v \<Rightarrow> b) \<and> settled s3' f (case a of Inl ex \<Rightarrow> Inl ex | Inr v \<Rightarrow> b)"
proof -
  obtain m where n: "n = Suc (Suc (Suc (Suc (Suc (Suc m)))))" using fuel_6 [OF assms(4)] by blast
  show ?thesis
    using assms(1-3) by (cases a; cases b) (auto simp: n future_defs Future_then_future_def assms(5))
qed

theorem Future_then_future_joins_witness:
  "\<exists>f s1 s2 s3. Future_then_future 6 example_future_env 0 () example_store = Inr (f, s1)
     \<and> settle 6 example_future_env 1 (Inr 7) s1 = Inr s2 \<and> settle 6 example_future_env 0 (Inr 3) s2 = Inr s3
     \<and> settled s3 f (Inr 7)"
proof -
  have a: "\<And>v s. apply_bind example_future_env () v s = Inr (1, s)" by (simp add: example_future_env_def)
  have n: "6 \<le> (6 :: nat)" "(0 :: nat) \<noteq> 1" by simp_all
  from Future_then_future_joins [OF example_store_unattached n(2,1) a, of "Inr 3" "Inr 7"] show ?thesis by auto
qed

text \<open>A future has one consumer and one completion. Attaching a second continuation to a waiting future silently
  discards the first: the future derived from it waits for ever, whatever the outcome; and completing a
  second time fails an assertion.\<close>

theorem Future_single_consumer:
  assumes "unattached s d" "6 \<le> n" "\<And>v s. apply_fun env g v s = Inr (h v, s)"
  shows "\<exists>f f' s1 s2 s3. Future_then n env d g s = Inr (f, s1) \<and> Future_then n env d g s1 = Inr (f', s2)
     \<and> settle n env d r s2 = Inr s3 \<and> settled s3 f' (map_sum (\<lambda>ex. ex) h r) \<and> \<not> Future_has_result s3 f
     \<and> settle n env d r' s3 = Inl Assert_failed"
proof -
  obtain m where n: "n = Suc (Suc (Suc (Suc (Suc (Suc m)))))" using fuel_6 [OF assms(2)] by blast
  show ?thesis
    using assms(1) by (cases r; cases r') (auto simp: n future_defs Future_then_def Future_has_result_def assms(3))
qed

theorem Future_single_consumer_witness:
  "\<exists>f f' s1 s2 s3. Future_then 6 example_future_env 0 () example_store = Inr (f, s1)
     \<and> Future_then 6 example_future_env 0 () s1 = Inr (f', s2)
     \<and> settle 6 example_future_env 0 (Inr 41) s2 = Inr s3 \<and> \<not> Future_has_result s3 f"
proof -
  have a: "\<And>v s. apply_fun example_future_env () v s = Inr (v + 1, s)" by (simp add: example_future_env_def)
  have n: "6 \<le> (6 :: nat)" by simp
  from Future_single_consumer [OF example_store_unattached(1) n a, of "Inr 41" "Inr 0"] show ?thesis by blast
qed

section \<open>Waiting\<close>

lemma wait_loop_quiet:
  assumes "\<forall>i < k. step (ss i) = Inr (ss (Suc i)) \<and> fstate (futures (ss i) w) = WAITING"
  shows "wait_loop (k + m) step w (ss 0) = wait_loop m step w (ss k)"
  using assms
proof (induction k arbitrary: ss)
  case (Suc k)
  have "wait_loop (k + m) step w (ss (Suc 0)) = wait_loop m step w (ss (Suc k))"
    using Suc.IH [of "\<lambda>i. ss (Suc i)"] Suc.prems by auto
  with Suc.prems show ?case by auto
qed simp

text \<open>C14: waiting for a future in a nested event loop. If the loop completes the future in its step \<open>k\<close>, whatever it does to other futures
  before, \<open>wait\<close> returns the value after this step, or throws; what it throws is not the exception the future failed with but a
  plain \<open>std::exception\<close>, whatever that exception was. While the loop has not completed the future, \<open>wait\<close> does not return.\<close>

theorem Future_wait_outcome:
  assumes "unattached s d" "3 \<le> n"
    and "ss 0 = upd_future d (\<lambda>x. x\<lparr>fvalue_callback := Store_value (next_future s), fexception_callback := Throw_exception\<rparr>)
           (snd (wait_cell env s))"
    and "\<forall>i < k. step (ss i) = Inr (ss (Suc i)) \<and> (\<forall>x \<in> {d, next_future s}. futures (ss (Suc i)) x = futures (ss i) x)"
    and "step (ss k) = settle n env d r (ss k)"
  shows "(k + 1 < m \<longrightarrow> (case r of Inl ex \<Rightarrow> Future_wait m n env step d s = Inl (Thrown ''std::exception'')
             | Inr v \<Rightarrow> \<exists>s'. Future_wait m n env step d s = Inr (v, s')))
     \<and> (m \<le> k \<longrightarrow> Future_wait m n env step d s = Inl Fuel_exhausted)"
proof -
  let ?w = "next_future s"
  have d: "d < ?w" "fstate (futures s d) = WAITING" using assms(1) by (simp_all add: unattached_def)
  obtain n' where n: "n = Suc (Suc (Suc n'))" using assms(2) by (metis add_numeral_left numeral_3_eq_3 le_Suc_ex plus_nat.simps(1) add_Suc)
  have "Future_on_success n env d (Store_value ?w) (snd (wait_cell env s)) = Inr (ss 0)"
    using d assms(3) by (simp add: n Future_on_success_def Future_on_success_or_failure_def wait_cell_def new_future_def)
  then have start: "Future_wait m n env step d s = wait_loop m step ?w (ss 0)" for m
    by (simp add: Future_wait_def wait_cell_def new_future_def)
  have same: "futures (ss i) x = futures (ss 0) x" if "i \<le> k" "x \<in> {d, ?w}" for i x
    using that assms(4) by (induction i) auto
  have w: "fstate (futures (ss i) ?w) = WAITING" if "i \<le> k" for i
    using same [OF that] d assms(3) by (simp add: wait_cell_def new_future_def upd_future_def)
  have cb: "fstate (futures (ss k) d) = WAITING" "fvalue_callback (futures (ss k) d) = Store_value ?w"
    "fexception_callback (futures (ss k) d) = Throw_exception"
    using same [of k d] d assms(3) by (simp_all add: wait_cell_def new_future_def upd_future_def)
  have quiet: "wait_loop (j + m) step ?w (ss 0) = wait_loop m step ?w (ss j)" if "j \<le> k" for j m
    by (rule wait_loop_quiet) (use that assms(4) w in auto)
  have "Future_wait m n env step d s = Inl Fuel_exhausted" if "m \<le> k"
    using quiet [OF that, of 0] start by simp
  moreover have "case r of Inl ex \<Rightarrow> Future_wait m n env step d s = Inl (Thrown ''std::exception'')
      | Inr v \<Rightarrow> \<exists>s'. Future_wait m n env step d s = Inr (v, s')" if m: "k + 1 < m"
  proof -
    obtain l where l: "m = k + Suc (Suc l)" using less_imp_Suc_add [OF m] by auto
    have "Future_wait m n env step d s = bindR (settle n env d r (ss k)) (wait_loop (Suc l) step ?w)"
      unfolding start l quiet [OF order_refl] using w [of k] assms(5) by simp
    then show ?thesis using cb d
      by (cases r) (simp_all add: n settle_def Completer_result_def Completer_result_failure_def upd_future_def thrown_copy_def)
  qed
  ultimately show ?thesis by blast
qed

theorem Future_wait_outcome_witness:
  "(\<exists>s'. Future_wait 2 6 example_future_env (settle 6 example_future_env 0 (Inr 7)) 0 example_store = Inr (7, s'))
     \<and> Future_wait 2 6 example_future_env (settle 6 example_future_env 0 (Inl ''exit status 2'')) 0 example_store = Inl (Thrown ''std::exception'')"
proof -
  let ?s = "upd_future 0 (\<lambda>x. x\<lparr>fvalue_callback := Store_value (next_future example_store), fexception_callback := Throw_exception\<rparr>)
           (snd (wait_cell example_future_env example_store))"
  note wait = Future_wait_outcome [OF example_store_unattached(1), where n = 6 and m = 2 and k = 0 and ss = "\<lambda>_. ?s" and env = example_future_env]
  show ?thesis
    using wait [where r = "Inr 7" and step = "settle 6 example_future_env 0 (Inr 7)"]
      wait [where r = "Inl ''exit status 2''" and step = "settle 6 example_future_env 0 (Inl ''exit status 2'')"] by simp
qed

end
