(* ===== verification/Std_Heap.thy ===== *)
theory Std_Heap
  imports Prelude
begin

text \<open>
  The heap algorithms of the C++ standard library the program uses: \<open>std::make_heap\<close>, \<open>std::push_heap\<close>
  and \<open>std::pop_heap\<close> in \<^verbatim>\<open>multilink/multilink.cpp\<close>, and \<open>std::priority_queue\<close> over them in
  \<^verbatim>\<open>libreactor/timer.h\<close>. Both comparators of the program put a least key first, so the heap is given by
  a key function. The algorithms are binary heaps over a list with element swaps.

  The locale \<open>std_heap\<close> states what the standard promises of the three algorithms, and what follows for a
  client that takes the first element, changes its key and puts it back; the interpretation discharges the
  promises for the definitions.
\<close>

section \<open>Algorithms\<close>

definition parent :: "nat \<Rightarrow> nat" where
  "parent i = (i - 1) div 2"

definition swap :: "nat \<Rightarrow> nat \<Rightarrow> 'a list \<Rightarrow> 'a list" where
  "swap i j xs = xs[i := xs ! j, j := xs ! i]"

lemma parent_less: "0 < i \<Longrightarrow> parent i < i"
  by (simp add: parent_def)

function sift_up :: "('a \<Rightarrow> 'k::linorder) \<Rightarrow> nat \<Rightarrow> 'a list \<Rightarrow> 'a list" where
  "sift_up key i xs =
     (if 0 < i \<and> key (xs ! i) < key (xs ! parent i) then sift_up key (parent i) (swap i (parent i) xs) else xs)"
  by pat_completeness auto
termination
  by (relation "measure (\<lambda>(key, i, xs). i)") (auto simp: parent_less)

definition push_heap :: "('a \<Rightarrow> 'k::linorder) \<Rightarrow> 'a list \<Rightarrow> 'a list" where
  "push_heap key xs = sift_up key (length xs - 1) xs"

definition lesser_child :: "('a \<Rightarrow> 'k::linorder) \<Rightarrow> nat \<Rightarrow> nat \<Rightarrow> 'a list \<Rightarrow> nat" where
  "lesser_child key n i xs =
     (if 2 * i + 2 < n \<and> key (xs ! (2 * i + 2)) < key (xs ! (2 * i + 1)) then 2 * i + 2 else 2 * i + 1)"

function sift_down :: "('a \<Rightarrow> 'k::linorder) \<Rightarrow> nat \<Rightarrow> nat \<Rightarrow> 'a list \<Rightarrow> 'a list" where
  "sift_down key n i xs =
     (let c = lesser_child key n i xs in
      if 2 * i + 1 < n \<and> key (xs ! c) < key (xs ! i) then sift_down key n c (swap i c xs) else xs)"
  by pat_completeness auto
termination
  by (relation "measure (\<lambda>(key, n, i, xs). n - i)") (auto simp: lesser_child_def)

declare sift_up.simps [simp del] sift_down.simps [simp del]

text \<open>\<open>pop_heap\<close> moves the first element to the end of the range.\<close>

definition pop_heap :: "('a \<Rightarrow> 'k::linorder) \<Rightarrow> 'a list \<Rightarrow> 'a list" where
  "pop_heap key xs = (let n = length xs - 1 in sift_down key n 0 (swap 0 n xs))"

definition make_heap :: "('a \<Rightarrow> 'k::linorder) \<Rightarrow> 'a list \<Rightarrow> 'a list" where
  "make_heap key xs = foldl (\<lambda>h x. push_heap key (h @ [x])) [] xs"

section \<open>Heap order\<close>

definition heap_upto :: "('a \<Rightarrow> 'k::linorder) \<Rightarrow> nat \<Rightarrow> 'a list \<Rightarrow> bool" where
  "heap_upto key n xs \<longleftrightarrow> (\<forall>j. 0 < j \<and> j < n \<longrightarrow> key (xs ! parent j) \<le> key (xs ! j))"

definition is_heap :: "('a \<Rightarrow> 'k::linorder) \<Rightarrow> 'a list \<Rightarrow> bool" where
  "is_heap key xs \<longleftrightarrow> heap_upto key (length xs) xs"

lemma length_swap [simp]: "length (swap i j xs) = length xs"
  by (simp add: swap_def)

lemma swap_nth: "i < length xs \<Longrightarrow> j < length xs \<Longrightarrow>
    swap i j xs ! k = (if k = j then xs ! i else if k = i then xs ! j else xs ! k)"
  by (simp add: swap_def nth_list_update)

lemma mset_swap_eq: "i < length xs \<Longrightarrow> j < length xs \<Longrightarrow> mset (swap i j xs) = mset xs"
  using mset_swap [of j xs i] by (cases "i = j") (simp_all add: swap_def)

lemma parent_eq_iff: "0 < j \<Longrightarrow> parent j = i \<longleftrightarrow> j = 2 * i + 1 \<or> j = 2 * i + 2"
  unfolding parent_def by presburger

lemma sift_up_mset: "i < length xs \<Longrightarrow> mset (sift_up key i xs) = mset xs"
proof (induction key i xs rule: sift_up.induct)
  case (1 key i xs)
  show ?case
  proof (cases "0 < i \<and> key (xs ! i) < key (xs ! parent i)")
    case True
    then have "parent i < length xs" using 1(2) parent_less [of i] by linarith
    with 1 True show ?thesis by (simp add: sift_up.simps [of key i] mset_swap_eq)
  qed (auto simp: sift_up.simps [of key i])
qed

lemma sift_up_heap:
  assumes "i < length xs" "\<And>j. 0 < j \<Longrightarrow> j < length xs \<Longrightarrow> j \<noteq> i \<Longrightarrow> key (xs ! parent j) \<le> key (xs ! j)"
    and "\<And>j. 0 < i \<Longrightarrow> 0 < j \<Longrightarrow> j < length xs \<Longrightarrow> parent j = i \<Longrightarrow> key (xs ! parent i) \<le> key (xs ! j)"
  shows "is_heap key (sift_up key i xs)"
  using assms
proof (induction key i xs rule: sift_up.induct)
  case (1 key i xs)
  show ?case
  proof (cases "0 < i \<and> key (xs ! i) < key (xs ! parent i)")
    case False
    then have "key (xs ! parent j) \<le> key (xs ! j)" if "0 < j" "j < length xs" for j
      using 1(3) [OF that] that by (cases "j = i") (auto simp: not_less)
    with False show ?thesis by (auto simp: sift_up.simps [of key i] is_heap_def heap_upto_def)
  next
    case True
    let ?p = "parent i" and ?ys = "swap i (parent i) xs"
    have p: "?p < i" "?p < length xs" using True 1(2) parent_less [of i] by linarith+
    note nth = swap_nth [OF 1(2) p(2)]
    have a: "key (?ys ! parent j) \<le> key (?ys ! j)" if j: "0 < j" "j < length ?ys" "j \<noteq> ?p" for j
    proof -
      have j': "j < length xs" "parent j < j" using j parent_less by simp_all
      consider "j = i" | "j \<noteq> i" "parent j = ?p" | "j \<noteq> i" "parent j = i" | "j \<noteq> i" "parent j \<noteq> ?p" "parent j \<noteq> i"
        by blast
      then show ?thesis
      proof cases
        case 2
        then show ?thesis using 1(3) [OF j(1) j'(1)] True j p by (auto simp: nth intro: order_trans less_imp_le)
      next
        case 3
        then show ?thesis using 1(4) [OF _ j(1) j'(1)] True j p j' by (simp add: nth)
      qed (use 1(3) [OF j(1) j'(1)] True j p j' in \<open>auto simp: nth less_imp_le\<close>)
    qed
    have b: "key (?ys ! parent ?p) \<le> key (?ys ! j)" if j: "0 < ?p" "0 < j" "j < length ?ys" "parent j = ?p" for j
    proof -
      have pp: "parent ?p < ?p" using j(1) by (rule parent_less)
      then have up: "key (xs ! parent ?p) \<le> key (xs ! ?p)" using 1(3) [OF j(1) p(2)] p by simp
      have "parent j < j" using j(2) by (rule parent_less)
      with j(4) have "j \<noteq> ?p" by simp
      with up pp p j 1(3) [OF j(2)] show ?thesis by (cases "j = i") (auto simp: nth intro: order_trans)
    qed
    have "is_heap key (sift_up key ?p ?ys)" by (rule 1(1) [OF True _ a b]) (use p in simp_all)
    with True show ?thesis by (simp add: sift_up.simps [of key i xs])
  qed
qed

lemma lesser_child_law:
  assumes "2 * i + 1 < n"
  shows "lesser_child key n i xs < n" "0 < lesser_child key n i xs" "i < lesser_child key n i xs"
    "parent (lesser_child key n i xs) = i"
  using assms by (auto simp: lesser_child_def parent_def)

lemma lesser_child_least:
  assumes "2 * i + 1 < n" "0 < j" "j < n" "parent j = i"
  shows "key (xs ! lesser_child key n i xs) \<le> key (xs ! j)"
  using assms by (auto simp: lesser_child_def parent_eq_iff not_less)

lemma sift_down_mset: "i < n \<Longrightarrow> n \<le> length xs \<Longrightarrow> mset (sift_down key n i xs) = mset xs"
proof (induction key n i xs rule: sift_down.induct)
  case (1 key n i xs)
  let ?c = "lesser_child key n i xs"
  show ?case
  proof (cases "2 * i + 1 < n \<and> key (xs ! ?c) < key (xs ! i)")
    case True
    with lesser_child_law [of i n key xs] 1(2,3) have "?c < n" "?c < length xs" by simp_all
    with 1 True show ?thesis by (simp add: sift_down.simps [of key n i] mset_swap_eq Let_def)
  qed (auto simp: sift_down.simps [of key n i] Let_def)
qed

lemma sift_down_rest: "i < n \<Longrightarrow> n \<le> length xs \<Longrightarrow> n \<le> k \<Longrightarrow> sift_down key n i xs ! k = xs ! k \<and> length (sift_down key n i xs) = length xs"
proof (induction key n i xs rule: sift_down.induct)
  case (1 key n i xs)
  let ?c = "lesser_child key n i xs"
  show ?case
  proof (cases "2 * i + 1 < n \<and> key (xs ! ?c) < key (xs ! i)")
    case True
    with lesser_child_law [of i n key xs] 1(2,3) have "?c < n" "?c < length xs" by simp_all
    with 1 True show ?thesis by (simp add: sift_down.simps [of key n i xs] swap_nth Let_def)
  qed (auto simp: sift_down.simps [of key n i] Let_def)
qed

lemma sift_down_heap:
  assumes "i < n" "n \<le> length xs" "\<And>j. 0 < j \<Longrightarrow> j < n \<Longrightarrow> parent j \<noteq> i \<Longrightarrow> key (xs ! parent j) \<le> key (xs ! j)"
    and "\<And>j. 0 < i \<Longrightarrow> 0 < j \<Longrightarrow> j < n \<Longrightarrow> parent j = i \<Longrightarrow> key (xs ! parent i) \<le> key (xs ! j)"
  shows "heap_upto key n (sift_down key n i xs)"
  using assms
proof (induction key n i xs rule: sift_down.induct)
  case (1 key n i xs)
  let ?c = "lesser_child key n i xs"
  show ?case
  proof (cases "2 * i + 1 < n \<and> key (xs ! ?c) < key (xs ! i)")
    case False
    have "key (xs ! parent j) \<le> key (xs ! j)" if j: "0 < j" "j < n" for j
    proof (cases "parent j = i")
      case True
      with j have lt: "2 * i + 1 < n" by (auto simp: parent_eq_iff)
      with False have "key (xs ! i) \<le> key (xs ! ?c)" by (simp add: not_less)
      with lesser_child_least [OF lt j True, of key xs] True show ?thesis by (auto intro: order_trans)
    qed (use 1(4) j in blast)
    with False show ?thesis by (auto simp: sift_down.simps [of key n i] heap_upto_def Let_def)
  next
    case True
    let ?ys = "swap i ?c xs"
    note c = lesser_child_law [OF conjunct1 [OF True], of key xs]
    have len: "i < length xs" "?c < length xs" using 1(2,3) c(1) by linarith+
    note nth = swap_nth [OF len]
    have a: "key (?ys ! parent j) \<le> key (?ys ! j)" if j: "0 < j" "j < n" "parent j \<noteq> ?c" for j
    proof -
      have pj: "parent j < j" using j(1) by (rule parent_less)
      consider "j = ?c" | "j = i" "0 < i" | "j \<noteq> ?c" "parent j = i" | "j \<noteq> ?c" "j \<noteq> i" "parent j \<noteq> i" using j(1) by blast
      then show ?thesis
      proof cases
        case 1
        then show ?thesis using True c(3,4) by (simp add: nth less_imp_le)
      next
        case 2
        then show ?thesis using "1.prems"(4) [OF 2(2) c(2,1,4)] j pj c(3) by (auto simp: nth)
      next
        case 3
        then show ?thesis using lesser_child_least [OF conjunct1 [OF True] j(1,2), of key xs] c(3) pj by (auto simp: nth)
      next
        case 4
        then show ?thesis using "1.prems"(3) [OF j(1,2)] j by (simp add: nth)
      qed
    qed
    have b: "key (?ys ! parent ?c) \<le> key (?ys ! j)" if j: "0 < j" "j < n" "parent j = ?c" for j
    proof -
      have "parent j < j" using j(1) by (rule parent_less)
      with j c(3) have "j \<noteq> ?c" "j \<noteq> i" "parent j \<noteq> i" by auto
      with "1.prems"(3) [OF j(1,2)] j c(3,4) show ?thesis by (simp add: nth)
    qed
    have "heap_upto key n (sift_down key n ?c ?ys)"
      by (rule 1(1) [OF refl True _ _ a b]) (use c "1.prems"(2) in simp_all)
    with True show ?thesis by (simp add: sift_down.simps [of key n i xs] Let_def)
  qed
qed

lemma is_heap_first: "is_heap key xs \<Longrightarrow> x \<in> set xs \<Longrightarrow> key (hd xs) \<le> key x"
proof -
  assume h: "is_heap key xs" and x: "x \<in> set xs"
  have "j < length xs \<Longrightarrow> key (xs ! 0) \<le> key (xs ! j)" for j
  proof (induction j rule: less_induct)
    case (less j)
    show ?case
    proof (cases "j = 0")
      case False
      then have "parent j < j" by (simp add: parent_less)
      with less have "key (xs ! 0) \<le> key (xs ! parent j)" by simp
      also have "\<dots> \<le> key (xs ! j)" using h less.prems False by (simp add: is_heap_def heap_upto_def)
      finally show ?thesis .
    qed simp
  qed
  with x show ?thesis by (metis hd_conv_nth in_set_conv_nth length_0_conv less_nat_zero_code)
qed

section \<open>What the standard promises\<close>

locale std_heap =
  fixes make push pop :: "('a \<Rightarrow> 'k::linorder) \<Rightarrow> 'a list \<Rightarrow> 'a list"
  assumes make_law: "is_heap key (make key xs) \<and> mset (make key xs) = mset xs"
    and push_law: "xs \<noteq> [] \<Longrightarrow> is_heap key (butlast xs) \<Longrightarrow> is_heap key (push key xs) \<and> mset (push key xs) = mset xs"
    and pop_law: "xs \<noteq> [] \<Longrightarrow> is_heap key xs \<Longrightarrow>
      is_heap key (butlast (pop key xs)) \<and> last (pop key xs) = hd xs \<and> mset (pop key xs) = mset xs \<and> pop key xs \<noteq> []"
begin

lemma is_heap_cong: "(\<And>x. x \<in> set xs \<Longrightarrow> key x = key' x) \<Longrightarrow> is_heap key xs = is_heap key' xs"
proof -
  assume eq: "\<And>x. x \<in> set xs \<Longrightarrow> key x = key' x"
  have "key (xs ! j) = key' (xs ! j) \<and> key (xs ! parent j) = key' (xs ! parent j)" if "0 < j" "j < length xs" for j
    using eq nth_mem [OF that(2)] nth_mem [OF order_less_trans [OF parent_less [OF that(1)] that(2)]] by simp
  then show ?thesis by (auto simp: is_heap_def heap_upto_def)
qed

text \<open>Taking the first element, changing its key alone and pushing it back keeps the heap.\<close>

lemma refresh_first:
  assumes "is_heap key xs" "xs \<noteq> []" "distinct xs" "\<And>x. x \<in> set xs \<Longrightarrow> x \<noteq> hd xs \<Longrightarrow> key' x = key x"
  shows "is_heap key' (push key' (pop key xs)) \<and> mset (push key' (pop key xs)) = mset xs"
proof -
  from pop_law [OF assms(2,1)] have p: "is_heap key (butlast (pop key xs))" "last (pop key xs) = hd xs"
    "mset (pop key xs) = mset xs" "pop key xs \<noteq> []" by auto
  then have eq: "pop key xs = butlast (pop key xs) @ [hd xs]" by (metis append_butlast_last_id)
  have "distinct (pop key xs)" using p(3) assms(3) by (metis mset_eq_imp_distinct_iff)
  then have "hd xs \<notin> set (butlast (pop key xs))" by (subst (asm) eq) simp
  moreover have "set (butlast (pop key xs)) \<subseteq> set xs"
    using p(3) by (metis in_set_butlastD set_mset_mset subsetI)
  ultimately have "is_heap key' (butlast (pop key xs))"
    using p(1) is_heap_cong [of "butlast (pop key xs)" key' key] assms(4) by blast
  from push_law [OF p(4) this] p(3) show ?thesis by simp
qed

end

lemma push_heap_law:
  assumes "xs \<noteq> []" "is_heap key (butlast xs)"
  shows "is_heap key (push_heap key xs) \<and> mset (push_heap key xs) = mset xs"
proof
  let ?i = "length xs - 1"
  have i: "?i < length xs" using assms(1) by simp
  have par: "parent j < length xs - 1" if "0 < j" "j < length xs" for j
    using parent_less [OF that(1)] that(2) by linarith
  have nb: "butlast xs ! k = xs ! k" if "k < length xs - 1" for k
    using that by (simp add: nth_butlast)
  show "is_heap key (push_heap key xs)"
    unfolding push_heap_def
  proof (rule sift_up_heap [OF i])
    fix j assume j: "0 < j" "j < length xs" "j \<noteq> ?i"
    then have "j < length xs - 1" by linarith
    with assms(2) j(1) have "key (butlast xs ! parent j) \<le> key (butlast xs ! j)"
      by (simp add: is_heap_def heap_upto_def)
    with nb [OF \<open>j < length xs - 1\<close>] nb [OF par [OF j(1,2)]] show "key (xs ! parent j) \<le> key (xs ! j)" by simp
  next
    fix j assume "0 < j" "j < length xs" "parent j = ?i"
    with par [of j] show "key (xs ! parent ?i) \<le> key (xs ! j)" by simp
  qed
  show "mset (push_heap key xs) = mset xs"
    unfolding push_heap_def by (rule sift_up_mset [OF i])
qed

lemma pop_heap_law:
  assumes "xs \<noteq> []" "is_heap key xs"
  shows "is_heap key (butlast (pop_heap key xs)) \<and> last (pop_heap key xs) = hd xs
    \<and> mset (pop_heap key xs) = mset xs \<and> pop_heap key xs \<noteq> []"
proof (cases "length xs = 1")
  case True
  then obtain x where "xs = [x]" by (auto simp: length_Suc_conv)
  then show ?thesis
    by (simp add: pop_heap_def swap_def sift_down.simps Let_def is_heap_def heap_upto_def)
next
  case False
  define n where "n = length xs - 1"
  let ?ys = "swap 0 n xs" and ?zs = "sift_down key n 0 (swap 0 n xs)"
  have n: "0 < n" "n < length xs" "length xs = Suc n" using False assms(1) by (auto simp: n_def neq_Nil_conv)
  have nth: "?ys ! k = (if k = n then xs ! 0 else if k = 0 then xs ! n else xs ! k)" for k
    by (rule swap_nth) (use n in simp_all)
  have zs: "?zs ! n = ?ys ! n" "length ?zs = Suc n" using sift_down_rest [of 0 n ?ys n key] n by simp_all
  have "heap_upto key n ?zs"
  proof (rule sift_down_heap)
    fix j assume j: "0 < j" "j < n" "parent j \<noteq> 0"
    moreover from parent_less [OF j(1)] j have "parent j < n" by linarith
    ultimately show "key (?ys ! parent j) \<le> key (?ys ! j)"
      using assms(2) n by (simp add: nth is_heap_def heap_upto_def)
  qed (use n in simp_all)
  moreover have "butlast ?zs ! k = ?zs ! k" if "k < n" for k using that zs by (simp add: nth_butlast)
  ultimately have "is_heap key (butlast ?zs)"
    using zs order_less_trans [OF parent_less] by (auto simp: is_heap_def heap_upto_def)
  moreover have "?zs \<noteq> []" using zs(2) by auto
  moreover from this have "last ?zs = hd xs" using zs n assms(1) by (simp add: last_conv_nth nth hd_conv_nth)
  moreover have "mset ?zs = mset xs" using sift_down_mset [of 0 n ?ys key] n by (simp add: mset_swap_eq)
  moreover have "pop_heap key xs = ?zs" by (simp add: pop_heap_def n_def Let_def)
  ultimately show ?thesis by simp
qed

lemma make_heap_law: "is_heap key (make_heap key xs) \<and> mset (make_heap key xs) = mset xs"
proof (induction xs rule: rev_induct)
  case Nil
  show ?case by (simp add: make_heap_def is_heap_def heap_upto_def)
next
  case (snoc x xs)
  then show ?case using push_heap_law [of "make_heap key xs @ [x]" key] by (simp add: make_heap_def)
qed

interpretation heap: std_heap make_heap push_heap pop_heap
  by unfold_locales (rule make_heap_law push_heap_law pop_heap_law; assumption)+

end
