(* ===== verification/Timer.thy ===== *)
theory Timer
  imports Std_Heap
begin

text \<open>
  \<^verbatim>\<open>libreactor/timer.h\<close> and \<^verbatim>\<open>timer.cpp\<close>: functions scheduled on a timer descriptor.

  \<open>std::priority_queue\<close> is the heap of \<open>Std_Heap\<close> with the earliest time first: \<open>emplace\<close> appends and calls
  \<open>push_heap\<close>, \<open>pop\<close> calls \<open>pop_heap\<close> and removes the last element, \<open>top\<close> is the first. The functions are symbols;
  what a call of one schedules on the timer is a parameter, as is the clock, which is read once per call of
  \<open>get_time\<close>. \<open>armed\<close> is the value last given to \<open>timerfd_settime\<close>; \<open>fired\<close> records the calls.
\<close>

section \<open>State and operations\<close>

datatype 'f timer_func = Func 'f | Each_func u64 'f

datatype 'f timer_request = Req_schedule u64 'f | Req_once u64 'f

record 'f timer =
  tqueue :: "(u64 \<times> 'f timer_func) list"
  armed :: "(u64 \<times> u64) option"
  clock_reads :: nat
  fired :: "(u64 \<times> 'f timer_func) list"

record 'f timer_env =
  clock :: "nat \<Rightarrow> u64"
  requests :: "'f \<Rightarrow> 'f timer_request list"

definition Timer_init :: "'f timer" where
  "Timer_init = \<lparr>tqueue = [], armed = None, clock_reads = 0, fired = []\<rparr>"

definition Timer_get_time :: "'f timer_env \<Rightarrow> 'f timer \<Rightarrow> u64 \<times> 'f timer" where
  "Timer_get_time env t = (clock env (clock_reads t), t\<lparr>clock_reads := clock_reads t + 1\<rparr>)"

definition Timer_schedule_for :: "u64 \<Rightarrow> 'f timer \<Rightarrow> 'f timer" where
  "Timer_schedule_for time t = t\<lparr>armed := Some (time div 1000000, (time mod 1000000) * 1000)\<rparr>"

definition Timer_schedule_front :: "'f timer \<Rightarrow> 'f timer" where
  "Timer_schedule_front t = Timer_schedule_for (fst (hd (tqueue t))) t"

definition Timer_schedule :: "u64 \<Rightarrow> 'f timer_func \<Rightarrow> 'f timer \<Rightarrow> 'f timer" where
  "Timer_schedule time f t = Timer_schedule_front (t\<lparr>tqueue := push_heap fst (tqueue t @ [(time, f)])\<rparr>)"

definition Timer_once :: "'f timer_env \<Rightarrow> u64 \<Rightarrow> 'f timer_func \<Rightarrow> 'f timer \<Rightarrow> 'f timer" where
  "Timer_once env delta f t = (let (now, t1) = Timer_get_time env t in Timer_schedule (now + delta) f t1)"

definition Timer_each :: "'f timer_env \<Rightarrow> u64 \<Rightarrow> 'f \<Rightarrow> 'f timer \<Rightarrow> 'f timer" where
  "Timer_each env delta g t = Timer_once env delta (Each_func delta g) t"

definition timer_request :: "'f timer_env \<Rightarrow> 'f timer \<Rightarrow> 'f timer_request \<Rightarrow> 'f timer" where
  "timer_request env t r = (case r of
       Req_schedule time g \<Rightarrow> Timer_schedule time (Func g) t
     | Req_once delta g \<Rightarrow> Timer_once env delta (Func g) t)"

text \<open>A call of a scheduled function; the lambda of \<open>each\<close> calls the function and schedules itself again.\<close>

definition run_func :: "'f timer_env \<Rightarrow> 'f timer_func \<Rightarrow> 'f timer \<Rightarrow> 'f timer" where
  "run_func env f t = (case f of
       Func g \<Rightarrow> foldl (timer_request env) t (requests env g)
     | Each_func delta g \<Rightarrow> Timer_each env delta g (foldl (timer_request env) t (requests env g)))"

text \<open>The loop of \<open>timer_ready\<close>: the event is called while it is still in the queue, and \<open>pop\<close> comes after the call.\<close>

fun timer_loop :: "nat \<Rightarrow> 'f timer_env \<Rightarrow> u64 \<Rightarrow> 'f timer \<Rightarrow> 'f timer result" where
  "timer_loop 0 env current t = Inl Fuel_exhausted"
| "timer_loop (Suc fuel) env current t =
     (if tqueue t \<noteq> [] \<and> fst (hd (tqueue t)) \<le> current then
        let ev = hd (tqueue t);
            t1 = run_func env (snd ev) (t\<lparr>fired := fired t @ [ev]\<rparr>)
        in timer_loop fuel env current (t1\<lparr>tqueue := butlast (pop_heap fst (tqueue t1))\<rparr>)
      else Inr t)"

definition Timer_timer_ready :: "nat \<Rightarrow> 'f timer_env \<Rightarrow> 'f timer \<Rightarrow> 'f timer result" where
  "Timer_timer_ready fuel env t =
     (let (current, t1) = Timer_get_time env t in
      bindR (timer_loop fuel env current t1) (\<lambda>t2.
        Inr (if tqueue t2 \<noteq> [] then Timer_schedule_front t2 else t2)))"

section \<open>The queue\<close>

lemma sift_up_first:
  "i < length xs \<Longrightarrow> key (xs ! 0) \<le> key (xs ! i) \<Longrightarrow> sift_up key i xs ! 0 = xs ! 0"
proof (induction key i xs rule: sift_up.induct)
  case (1 key i xs)
  show ?case
  proof (cases "0 < i \<and> key (xs ! i) < key (xs ! parent i)")
    case True
    then have p: "parent i \<noteq> 0" "parent i < length xs" using "1.prems" parent_less [of i] by (auto intro: Nat.gr0I)
    have s: "swap i (parent i) xs ! 0 = xs ! 0" "swap i (parent i) xs ! parent i = xs ! i"
      using p True "1.prems"(1) by (simp_all add: swap_nth)
    with "1.IH" [OF True] p "1.prems" True show ?thesis by (simp add: sift_up.simps [of key i xs])
  next
    case False
    then show ?thesis by (subst sift_up.simps) (simp only: if_False)
  qed
qed

lemma push_heap_first:
  assumes "xs \<noteq> []" "key (hd xs) \<le> key x"
  shows "hd (push_heap key (xs @ [x])) = hd xs"
proof -
  have "sift_up key (length xs) (xs @ [x]) ! 0 = (xs @ [x]) ! 0"
    by (rule sift_up_first) (use assms in \<open>simp_all add: nth_append hd_conv_nth\<close>)
  moreover have "push_heap key (xs @ [x]) \<noteq> []"
    using sift_up_mset [of "length xs" "xs @ [x]" key] by (auto simp: push_heap_def)
  ultimately show ?thesis using assms(1) by (simp add: push_heap_def hd_conv_nth nth_append)
qed

text \<open>
  \<open>adds current t t'\<close>: functions were scheduled, all after \<open>current\<close>; the first event, which is due, stays first.
\<close>

definition adds :: "u64 \<Rightarrow> 'f timer \<Rightarrow> 'f timer \<Rightarrow> bool" where
  "adds current t t' \<longleftrightarrow> fired t' = fired t \<and> is_heap fst (tqueue t') \<and> tqueue t' \<noteq> [] \<and> hd (tqueue t') = hd (tqueue t)
     \<and> (\<exists>ns. mset (tqueue t') = mset (tqueue t) + ns \<and> (\<forall>e \<in># ns. current < fst e))"

definition due_first :: "u64 \<Rightarrow> 'f timer \<Rightarrow> bool" where
  "due_first current t \<longleftrightarrow> is_heap fst (tqueue t) \<and> tqueue t \<noteq> [] \<and> fst (hd (tqueue t)) \<le> current"

lemma adds_refl: "due_first current t \<Longrightarrow> adds current t t"
  by (simp add: adds_def due_first_def)

lemma adds_trans:
  assumes "adds current a b" "adds current b c"
  shows "adds current a c"
proof -
  from assms obtain ns ns' where "mset (tqueue c) = mset (tqueue a) + (ns + ns')"
    "\<forall>e \<in># ns. current < fst e" "\<forall>e \<in># ns'. current < fst e" by (auto simp: adds_def ac_simps)
  moreover from this have "\<forall>e \<in># ns + ns'. current < fst e" by auto
  ultimately show ?thesis using assms unfolding adds_def by (metis (no_types, lifting))
qed

lemma adds_due: "adds current t t' \<Longrightarrow> due_first current t \<Longrightarrow> due_first current t'"
  by (simp add: adds_def due_first_def)

lemma schedule_adds:
  assumes "due_first current t" "current < time"
  shows "adds current t (Timer_schedule time f t)"
proof -
  let ?q = "push_heap fst (tqueue t @ [(time, f)])"
  have "is_heap fst ?q" "mset ?q = mset (tqueue t @ [(time, f)])"
    using heap.push_law [of "tqueue t @ [(time, f)]" fst] assms(1) by (simp_all add: due_first_def)
  moreover have "hd ?q = hd (tqueue t)"
    by (rule push_heap_first) (use assms in \<open>auto simp: due_first_def\<close>)
  ultimately show ?thesis using assms
    by (auto simp: adds_def Timer_schedule_def Timer_schedule_front_def Timer_schedule_for_def
        intro!: exI [of _ "{#(time, f)#}"])
qed

lemma once_adds:
  assumes "due_first current t" "\<And>n. current < clock env n + delta"
  shows "adds current t (Timer_once env delta f t)"
proof -
  let ?t = "t\<lparr>clock_reads := clock_reads t + 1\<rparr>"
  have "due_first current ?t" using assms(1) by (simp add: due_first_def)
  from schedule_adds [OF this assms(2)] show ?thesis
    by (simp add: Timer_once_def Timer_get_time_def adds_def)
qed

definition later :: "'f timer_env \<Rightarrow> u64 \<Rightarrow> 'f timer_request \<Rightarrow> bool" where
  "later env current r \<longleftrightarrow> (case r of Req_schedule time g \<Rightarrow> current < time | Req_once delta g \<Rightarrow> \<forall>n. current < clock env n + delta)"

definition quiet :: "'f timer_env \<Rightarrow> u64 \<Rightarrow> 'f timer_func \<Rightarrow> bool" where
  "quiet env current f \<longleftrightarrow> (case f of
       Func g \<Rightarrow> (\<forall>r \<in> set (requests env g). later env current r)
     | Each_func delta g \<Rightarrow> (\<forall>r \<in> set (requests env g). later env current r) \<and> (\<forall>n. current < clock env n + delta))"

lemma requests_add:
  "due_first current t \<Longrightarrow> \<forall>r \<in> set rs. later env current r \<Longrightarrow> adds current t (foldl (timer_request env) t rs)"
proof (induction rs arbitrary: t)
  case (Cons r rs)
  have a: "adds current t (timer_request env t r)"
    using Cons.prems by (cases r) (auto simp: timer_request_def later_def schedule_adds once_adds)
  with Cons.IH [OF adds_due [OF a Cons.prems(1)]] Cons.prems(2) show ?case by (auto intro: adds_trans)
qed (simp add: adds_refl)

lemma run_func_adds:
  assumes "due_first current t" "quiet env current f"
  shows "adds current t (run_func env f t)"
proof (cases f)
  case (Func g)
  with assms requests_add show ?thesis by (auto simp: run_func_def quiet_def)
next
  case (Each_func delta g)
  let ?t = "foldl (timer_request env) t (requests env g)"
  have a: "adds current t ?t" using assms Each_func requests_add by (auto simp: quiet_def)
  have "adds current ?t (Timer_each env delta g ?t)"
    unfolding Timer_each_def by (rule once_adds [OF adds_due [OF a assms(1)]]) (use assms(2) Each_func in \<open>simp add: quiet_def\<close>)
  with a show ?thesis using Each_func by (auto simp: run_func_def intro: adds_trans)
qed

definition due :: "u64 \<Rightarrow> (u64 \<times> 'f timer_func) multiset \<Rightarrow> (u64 \<times> 'f timer_func) multiset" where
  "due current es = filter_mset (\<lambda>e. fst e \<le> current) es"

definition not_due :: "u64 \<Rightarrow> (u64 \<times> 'f timer_func) multiset \<Rightarrow> (u64 \<times> 'f timer_func) multiset" where
  "not_due current es = filter_mset (\<lambda>e. current < fst e) es"

lemma due_later: "\<forall>e \<in># ns. current < fst e \<Longrightarrow> due current ns = {#} \<and> not_due current ns = ns"
  unfolding due_def not_due_def by (induction ns) auto

lemma due_simps [simp]:
  "due current (a + b) = due current a + due current b" "not_due current (a + b) = not_due current a + not_due current b"
  "fst e \<le> current \<Longrightarrow> due current (add_mset e a) = add_mset e (due current a)"
  "fst e \<le> current \<Longrightarrow> not_due current (add_mset e a) = not_due current a"
  by (simp_all add: due_def not_due_def)

text \<open>One pass of the loop takes exactly the first event out.\<close>

lemma pop_law:
  assumes "adds current t t'" "q = butlast (pop_heap fst (tqueue t'))"
  shows "is_heap fst q \<and> (\<exists>ns. (\<forall>e \<in># ns. current < fst e) \<and> add_mset (hd (tqueue t)) (mset q) = mset (tqueue t) + ns)"
proof -
  from assms(1) obtain ns where ns: "mset (tqueue t') = mset (tqueue t) + ns" "\<forall>e \<in># ns. current < fst e"
    "is_heap fst (tqueue t')" "tqueue t' \<noteq> []" "hd (tqueue t') = hd (tqueue t)" by (auto simp: adds_def)
  let ?p = "pop_heap fst (tqueue t')"
  from heap.pop_law [OF ns(4,3)] have p: "is_heap fst q" "last ?p = hd (tqueue t)" "mset ?p = mset (tqueue t')"
    "?p \<noteq> []" using ns(5) assms(2) by auto
  have "?p = q @ [last ?p]" using p(4) assms(2) by simp
  then have "mset ?p = add_mset (last ?p) (mset q)" by (metis mset_append mset_single_iff add_mset_add_single)
  with p ns show ?thesis by auto
qed

lemma timer_loop_law:
  assumes "is_heap fst (tqueue t)" "\<forall>e \<in> set (tqueue t). fst e \<le> current \<longrightarrow> quiet env current (snd e)"
    and "size (due current (mset (tqueue t))) < fuel"
  shows "\<exists>t' fs ns. timer_loop fuel env current t = Inr t' \<and> fired t' = fired t @ fs \<and> sorted (map fst fs)
     \<and> mset fs = due current (mset (tqueue t)) \<and> (\<forall>e \<in># ns. current < fst e)
     \<and> mset (tqueue t') = not_due current (mset (tqueue t)) + ns \<and> is_heap fst (tqueue t')"
  using assms
proof (induction fuel arbitrary: t)
  case (Suc fuel)
  show ?case
  proof (cases "tqueue t \<noteq> [] \<and> fst (hd (tqueue t)) \<le> current")
    case False
    have nd: "current < fst e" if "e \<in> set (tqueue t)" for e
      using is_heap_first [OF Suc.prems(1) that] that False by (cases "tqueue t") auto
    then have "due current (mset (tqueue t)) = {#} \<and> not_due current (mset (tqueue t)) = mset (tqueue t)"
      by (intro due_later) simp
    with False Suc.prems(1) show ?thesis by (intro exI [of _ t] exI [of _ "[]"] exI [of _ "{#}"]) auto
  next
    case True
    let ?ev = "hd (tqueue t)" and ?t0 = "t\<lparr>fired := fired t @ [hd (tqueue t)]\<rparr>"
    let ?t1 = "run_func env (snd ?ev) ?t0"
    have d: "due_first current ?t0" using True Suc.prems(1) by (simp add: due_first_def)
    have "quiet env current (snd ?ev)" using Suc.prems(2) True by simp
    from run_func_adds [OF d this] have a: "adds current ?t0 ?t1" .
    define q where qd: "q = butlast (pop_heap fst (tqueue ?t1))"
    from pop_law [OF a qd] obtain ns where q: "butlast (pop_heap fst (tqueue ?t1)) = q" "is_heap fst q"
      "\<forall>e \<in># ns. current < fst e" "add_mset ?ev (mset q) = mset (tqueue t) + ns" by (auto simp: qd)
    let ?t2 = "?t1\<lparr>tqueue := q\<rparr>"
    have f1: "fired ?t1 = fired t @ [?ev]" using a by (simp add: adds_def)
    have dq: "add_mset ?ev (due current (mset q)) = due current (mset (tqueue t))"
      "not_due current (mset q) = not_due current (mset (tqueue t)) + ns"
      using arg_cong [OF q(4), of "due current"] arg_cong [OF q(4), of "not_due current"] due_later [OF q(3)] True
      by simp_all
    have sub: "e \<in> set (tqueue t)" if "e \<in> set q" "fst e \<le> current" for e
    proof -
      have "e \<in># mset (tqueue t) + ns" unfolding q(4) [symmetric] using that(1) by simp
      with that(2) q(3) show ?thesis by auto
    qed
    have "size (due current (mset q)) < fuel" using Suc.prems(3) unfolding dq(1) [symmetric] by simp
    with Suc.IH [of ?t2] q(2) sub Suc.prems(2) obtain t' fs ns' where
      r: "timer_loop fuel env current ?t2 = Inr t'" "fired t' = fired ?t2 @ fs" "sorted (map fst fs)"
      "mset fs = due current (mset q)" "\<forall>e \<in># ns'. current < fst e"
      "mset (tqueue t') = not_due current (mset q) + ns'" "is_heap fst (tqueue t')" by auto
    have e: "timer_loop (Suc fuel) env current t = Inr t'" using True r(1) q(1) by (simp add: Let_def)
    have "fst ?ev \<le> fst x" if "x \<in> set fs" for x
    proof -
      have "x \<in># due current (mset q)" using that r(4) by (metis set_mset_mset)
      then have "x \<in> set (tqueue t)" using sub by (auto simp: due_def)
      then show ?thesis by (rule is_heap_first [OF Suc.prems(1)])
    qed
    then have "sorted (map fst (?ev # fs))" using r(3) by auto
    moreover have "mset (?ev # fs) = due current (mset (tqueue t))" using r(4) dq(1) by simp
    moreover have "\<forall>e \<in># ns + ns'. current < fst e" using q(3) r(5) by auto
    ultimately show ?thesis using e r(2,6,7) f1 dq(2)
      by (intro exI [of _ t'] exI [of _ "?ev # fs"] exI [of _ "ns + ns'"]) (simp add: ac_simps)
  qed
qed simp

section \<open>Properties\<close>

text \<open>C25: \<open>timer_ready\<close> runs exactly the due events, earliest first. If the functions it calls schedule only events after
  the time it read, the loop ends after one pass per due event, each due event is called once, in order of time,
  nothing else is lost from the queue, no event that is left is due, and the descriptor is armed for the earliest
  one left.\<close>

theorem Timer_ready_runs_due_in_order:
  assumes "is_heap fst (tqueue t)" "current = clock env (clock_reads t)"
    and "\<forall>e \<in> set (tqueue t). fst e \<le> current \<longrightarrow> quiet env current (snd e)" "length (tqueue t) < fuel"
  shows "\<exists>t' fs ns. Timer_timer_ready fuel env t = Inr t' \<and> fired t' = fired t @ fs \<and> sorted (map fst fs)
     \<and> mset fs = {#e \<in># mset (tqueue t). fst e \<le> current#} \<and> (\<forall>e \<in># ns. current < fst e)
     \<and> mset (tqueue t') = {#e \<in># mset (tqueue t). current < fst e#} + ns
     \<and> (tqueue t' \<noteq> [] \<longrightarrow> (\<exists>e \<in> set (tqueue t'). (\<forall>e' \<in> set (tqueue t'). fst e \<le> fst e')
           \<and> armed t' = Some (fst e div 1000000, fst e mod 1000000 * 1000)))"
proof -
  let ?t = "t\<lparr>clock_reads := clock_reads t + 1\<rparr>"
  have "size (due current (mset (tqueue ?t))) < fuel"
    using assms(4) size_filter_mset_lesseq [of "\<lambda>e. fst e \<le> current" "mset (tqueue t)"] by (simp add: due_def)
  with timer_loop_law [of ?t current env fuel] assms(1,3) obtain t' fs ns where
    r: "timer_loop fuel env current ?t = Inr t'" "fired t' = fired t @ fs" "sorted (map fst fs)"
    "mset fs = due current (mset (tqueue t))" "\<forall>e \<in># ns. current < fst e"
    "mset (tqueue t') = not_due current (mset (tqueue t)) + ns" "is_heap fst (tqueue t')" by auto
  let ?r = "if tqueue t' \<noteq> [] then Timer_schedule_front t' else t'"
  have "Timer_timer_ready fuel env t = Inr ?r" using r(1) assms(2) by (simp add: Timer_timer_ready_def Timer_get_time_def)
  moreover have f: "tqueue ?r = tqueue t'" "fired ?r = fired t'"
    by (simp_all add: Timer_schedule_front_def Timer_schedule_for_def)
  moreover have "\<exists>e \<in> set (tqueue t'). (\<forall>e' \<in> set (tqueue t'). fst e \<le> fst e')
      \<and> armed ?r = Some (fst e div 1000000, fst e mod 1000000 * 1000)" if "tqueue t' \<noteq> []"
    using that is_heap_first [OF r(7)]
    by (intro bexI [of _ "hd (tqueue t')"]) (auto simp: Timer_schedule_front_def Timer_schedule_for_def)
  ultimately show ?thesis using r(2-6)
    by (intro exI [of _ ?r] exI [of _ fs] exI [of _ ns]) (simp only: due_def not_due_def f, simp)
qed

definition example_timer_env :: "nat timer_env" where
  "example_timer_env = \<lparr>clock = (\<lambda>n. 100 + of_nat n), requests = (\<lambda>g. if g = 7 then [Req_schedule 5 8] else [])\<rparr>"

definition example_timer :: "nat timer" where
  "example_timer = \<lparr>tqueue = [(40, Func 1), (90, Func 2), (200, Func 3)], armed = None, clock_reads = 0, fired = []\<rparr>"

theorem Timer_ready_runs_due_in_order_witness:
  "\<exists>t' fs. Timer_timer_ready 4 example_timer_env example_timer = Inr t' \<and> fired t' = fs \<and> sorted (map fst fs)
     \<and> mset fs = {#(40, Func 1), (90, Func 2)#}"
proof -
  have h: "is_heap fst (tqueue example_timer)"
    by (auto simp: is_heap_def heap_upto_def example_timer_def parent_def less_Suc_eq numeral_3_eq_3)
  have "\<forall>e \<in> set (tqueue example_timer). fst e \<le> 100 \<longrightarrow> quiet example_timer_env 100 (snd e)"
    by (auto simp: example_timer_def quiet_def example_timer_env_def)
  moreover have "(100 :: u64) = clock example_timer_env (clock_reads example_timer)"
    by (simp add: example_timer_def example_timer_env_def)
  ultimately obtain t' fs where "Timer_timer_ready 4 example_timer_env example_timer = Inr t'"
    "fired t' = fired example_timer @ fs" "sorted (map fst fs)" "mset fs = {#e \<in># mset (tqueue example_timer). fst e \<le> 100#}"
    using Timer_ready_runs_due_in_order [OF h, of 100 example_timer_env 4] by (auto simp: example_timer_def)
  then show ?thesis by (simp add: example_timer_def)
qed

text \<open>An event that schedules an earlier one starves the loop. \<open>pop\<close> runs after the call and removes whatever is first
  then: the newly scheduled, earlier event is dropped without being called, the event that was just called stays
  and is called again, and \<open>timer_ready\<close> never returns.\<close>

theorem Timer_earlier_event_starves:
  assumes "tqueue t = [(time, Func g)]" "requests env g = [Req_schedule earlier h]" "earlier < time"
    and "time \<le> clock env (clock_reads t)"
  shows "Timer_timer_ready fuel env t = Inl Fuel_exhausted"
proof -
  have "timer_loop fuel env current u = Inl Fuel_exhausted" if "tqueue u = [(time, Func g)]" "time \<le> current" for u current
    using that(1)
  proof (induction fuel arbitrary: u)
    case (Suc fuel)
    have "push_heap fst [(time, Func g), (earlier, Func h)] = [(earlier, Func h), (time, Func g)]"
      using assms(3) by (simp add: push_heap_def sift_up.simps parent_def swap_def)
    moreover have "butlast (pop_heap fst [(earlier, Func h), (time, Func g)]) = [(time, Func g)]"
      by (simp add: pop_heap_def sift_down.simps Let_def swap_def)
    ultimately show ?case using Suc that(2) assms(2)
      by (simp add: Let_def run_func_def timer_request_def Timer_schedule_def Timer_schedule_front_def Timer_schedule_for_def)
  qed simp
  with assms(1,4) show ?thesis by (simp add: Timer_timer_ready_def Timer_get_time_def)
qed

theorem Timer_earlier_event_starves_witness:
  "Timer_timer_ready 1000 example_timer_env (example_timer\<lparr>tqueue := [(50, Func 7)]\<rparr>) = Inl Fuel_exhausted"
  by (rule Timer_earlier_event_starves [of _ 50 7 _ 5 8]) (simp_all add: example_timer_env_def example_timer_def)

end
