(* ===== verification/Packet_Streams.thy ===== *)
theory Packet_Streams
  imports Reactor
begin

text \<open>
  \<^verbatim>\<open>libreactor/packet_stream_util.cpp\<close>: packet streams over a byte stream, and the pipe between two
  packet streams.

  \<open>FreeWriterPacketStream\<close> keeps the unsent tail of at most one packet. \<open>FreePacketStream\<close> adds
  unframed reads, \<open>LengthPacketStream\<close> a 4-byte length in front of every packet. Functions handed
  to \<open>reactor.schedule\<close> are appended to the field \<open>scheduled\<close>; \<open>schedule_new\<close> of the theory Reactor makes
  these calls on the reactor, with the assertion on the length of its queue, and \<open>length_run\<close> uses it
  after every call. Callbacks the code calls at once are appended to \<open>called\<close>. All but one of them are
  called last in their function, so a callback that calls back into the stream is the next operation of
  a sequence; a callback of the error \<open>LengthPacketStream::recv\<close> reports before it takes the packet is
  assumed to leave the stream alone. Of the receive buffer the model keeps the valid bytes, so \<open>recv_buffer_pos\<close> is its
  length. The lemmas show that both classes satisfy the \<open>packet_sink\<close> contract over every byte
  stream, that the length framing is inverted by the reader, and that a pipe neither loses,
  duplicates nor reorders packets.
\<close>

section \<open>FreeWriterPacketStream and FreePacketStream\<close>

datatype ps_callback = On_send_ready | On_recv_ready | On_error
datatype ps_task = Run_callback ps_callback | Run_write_ready | Run_read_ready

definition PACKET_MTU :: nat where "PACKET_MTU = 16384"

record 's free_writer =
  stream :: 's
  send_buffer_current :: bytes
  scheduled :: "ps_task list"
  called :: "ps_callback list"

definition schedule :: "ps_task \<Rightarrow> ('s, 'm) free_writer_scheme \<Rightarrow> ('s, 'm) free_writer_scheme" where
  "schedule t p = p\<lparr>scheduled := scheduled p @ [t]\<rparr>"

definition call :: "ps_callback \<Rightarrow> ('s, 'm) free_writer_scheme \<Rightarrow> ('s, 'm) free_writer_scheme" where
  "call c p = p\<lparr>called := called p @ [c]\<rparr>"

definition FreeWriterPacketStream_init :: "'s \<Rightarrow> 's free_writer" where
  "FreeWriterPacketStream_init s = \<lparr>stream = s, send_buffer_current = [], scheduled = [], called = []\<rparr>"

definition FreeWriterPacketStream_error_ready ::
    "('s, 'm) free_writer_scheme \<Rightarrow> ('s, 'm) free_writer_scheme" where
  "FreeWriterPacketStream_error_ready p = call On_error p"

definition FreeWriterPacketStream_is_send_ready :: "('s, 'm) free_writer_scheme \<Rightarrow> bool" where
  "FreeWriterPacketStream_is_send_ready p \<longleftrightarrow> send_buffer_current p = []"

definition FreeWriterPacketStream_send_with_offset ::
    "('s, 'm) free_writer_scheme \<Rightarrow> bytes \<Rightarrow> ('s, 'm) free_writer_scheme result" where
  "FreeWriterPacketStream_send_with_offset p data =
     assertR (length data \<le> PACKET_MTU)
      (assertR (FreeWriterPacketStream_is_send_ready p)
        (Inr (schedule Run_write_ready (p\<lparr>send_buffer_current := data\<rparr>))))"

text \<open>
  The loop of \<open>write_ready\<close>. It leaves either with nothing left to send, or because the stream took
  nothing. A stream that claims to have written more than it was given would leave a wild view.
\<close>

function write_loop :: "'s stream_ops \<Rightarrow> 's \<Rightarrow> bytes \<Rightarrow> ('s \<times> bytes) result" where
  "write_loop ops s cur =
     (if cur = [] then Inr (s, [])
      else bindR (swrite ops s cur) (\<lambda>r.
        if fst r = 0 then Inr (snd r, cur)
        else if fst r \<le> length cur then write_loop ops (snd r) (drop (fst r) cur)
        else Inl Undefined_behaviour))"
  by pat_completeness auto
termination
  by (relation "measure (\<lambda>(ops, s, cur). length cur)") auto

declare write_loop.simps [simp del]

definition FreeWriterPacketStream_write_ready ::
    "'s stream_ops \<Rightarrow> ('s, 'm) free_writer_scheme \<Rightarrow> ('s, 'm) free_writer_scheme result" where
  "FreeWriterPacketStream_write_ready ops p =
     bindR (write_loop ops (stream p) (send_buffer_current p)) (\<lambda>(s, cur).
       let p' = p\<lparr>stream := s, send_buffer_current := cur\<rparr>
       in Inr (if cur = [] then call On_send_ready (schedule (Run_callback On_send_ready) p') else p'))"

definition FreeWriterPacketStream_close ::
    "'s stream_ops \<Rightarrow> ('s, 'm) free_writer_scheme \<Rightarrow> ('s, 'm) free_writer_scheme" where
  "FreeWriterPacketStream_close ops p = p\<lparr>stream := sclose ops (stream p)\<rparr>"

record 's free_packet_stream = "'s free_writer" +
  recv_mtu :: nat

text \<open>\<open>create\<close> sets the stream's callbacks and schedules the two ready handlers.\<close>

definition FreePacketStream_create :: "'s \<Rightarrow> nat \<Rightarrow> 's free_packet_stream" where
  "FreePacketStream_create s mtu =
     \<lparr>stream = s, send_buffer_current = [], scheduled = [Run_write_ready, Run_read_ready], called = [],
      recv_mtu = mtu\<rparr>"

definition FreePacketStream_recv ::
    "'s stream_ops \<Rightarrow> 's free_packet_stream \<Rightarrow> (bytes option \<times> 's free_packet_stream) result" where
  "FreePacketStream_recv ops p =
     bindR (sread ops (stream p) (recv_mtu p)) (\<lambda>(data, s).
       Inr (if data = [] then None else Some data, p\<lparr>stream := s\<rparr>))"

definition FreePacketStream_read_ready :: "'s free_packet_stream \<Rightarrow> 's free_packet_stream" where
  "FreePacketStream_read_ready p = call On_recv_ready p"

definition FreePacketStream_ops :: "'s stream_ops \<Rightarrow> 's free_packet_stream packet_ops" where
  "FreePacketStream_ops ops =
     \<lparr>precv = FreePacketStream_recv ops,
      psend = AbstractPacketStream_send (\<lambda>_. 0) FreeWriterPacketStream_send_with_offset,
      pis_send_ready = FreeWriterPacketStream_is_send_ready,
      pclose = FreeWriterPacketStream_close ops\<rparr>"

section \<open>LengthPacketStream\<close>

record 's length_packet_stream = "'s free_writer" +
  recv_buffer :: bytes

definition LengthPacketStream_create :: "'s \<Rightarrow> 's length_packet_stream" where
  "LengthPacketStream_create s =
     \<lparr>stream = s, send_buffer_current = [], scheduled = [Run_write_ready, Run_read_ready], called = [],
      recv_buffer = []\<rparr>"

text \<open>
  \<open>recv_buffer_pos >= expected_size + 4\<close>: the sum is taken in \<open>uint32_t\<close> and wraps, the position is
  converted to it.
\<close>

definition packet_complete :: "bytes \<Rightarrow> bool" where
  "packet_complete buf \<longleftrightarrow> 4 \<le> length buf \<and> get_u32 buf + 4 \<le> (of_nat (length buf) :: u32)"

function length_read_loop :: "'s stream_ops \<Rightarrow> 's \<Rightarrow> bytes \<Rightarrow> ('s \<times> bytes \<times> bool) result" where
  "length_read_loop ops s buf =
     bindR (sread ops s (2 * PACKET_MTU - length buf)) (\<lambda>(d, s').
      if 2 * PACKET_MTU < length (buf @ d) then Inl Undefined_behaviour
      else if packet_complete (buf @ d) then Inr (s', buf @ d, True)
      else if d = [] then Inr (s', buf @ d, False)
      else length_read_loop ops s' (buf @ d))"
  by pat_completeness auto
termination
  by (relation "measure (\<lambda>(ops, s, buf). 2 * PACKET_MTU - length buf)") (auto simp flip: length_greater_0_conv)

declare length_read_loop.simps [simp del]

definition LengthPacketStream_read_ready ::
    "'s stream_ops \<Rightarrow> 's length_packet_stream \<Rightarrow> 's length_packet_stream result" where
  "LengthPacketStream_read_ready ops p =
     bindR (length_read_loop ops (stream p) (recv_buffer p)) (\<lambda>(s, buf, full).
       let p' = p\<lparr>stream := s, recv_buffer := buf\<rparr>
       in Inr (if full then call On_recv_ready p' else p'))"

text \<open>
  \<open>recv\<close>: the size test calls \<open>on_error\<close> when \<open>expected_size <= MTU\<close>. \<open>slice\<close> checks the receive
  buffer (twice the MTU), \<open>copy_to\<close> the caller's buffer (one MTU).
\<close>

definition LengthPacketStream_recv ::
    "'s length_packet_stream \<Rightarrow> (bytes option \<times> 's length_packet_stream) result" where
  "LengthPacketStream_recv p =
     (if 4 \<le> length (recv_buffer p) then
        let buf = recv_buffer p; expected = unat (get_u32 buf);
            p' = (if expected \<le> PACKET_MTU then call On_error p else p)
        in if packet_complete buf then
             assertR (4 + expected \<le> 2 * PACKET_MTU)
              (assertR (expected \<le> PACKET_MTU)
                (assertR (expected + 4 \<le> length buf)
                  (Inr (Some (take expected (drop 4 buf)),
                        schedule Run_read_ready (p'\<lparr>recv_buffer := drop (expected + 4) buf\<rparr>)))))
           else Inr (None, p')
      else Inr (None, p))"

definition length_frame :: "bytes \<Rightarrow> bytes" where
  "length_frame data = put_u32 (of_nat (length data)) @ data"

definition LengthPacketStream_send ::
    "'s length_packet_stream \<Rightarrow> bytes \<Rightarrow> 's length_packet_stream result" where
  "LengthPacketStream_send p data =
     AbstractPacketStream_send (\<lambda>_. 0) FreeWriterPacketStream_send_with_offset p (length_frame data)"

definition LengthPacketStream_ops :: "'s stream_ops \<Rightarrow> 's length_packet_stream packet_ops" where
  "LengthPacketStream_ops ops =
     \<lparr>precv = LengthPacketStream_recv, psend = LengthPacketStream_send,
      pis_send_ready = FreeWriterPacketStream_is_send_ready,
      pclose = FreeWriterPacketStream_close ops\<rparr>"

text \<open>The specification of the framing: the packets a byte sequence carries.\<close>

function length_packets :: "bytes \<Rightarrow> bytes list" where
  "length_packets bs =
     (if length bs < 4 \<or> length bs < 4 + unat (get_u32 bs) then []
      else take (unat (get_u32 bs)) (drop 4 bs) # length_packets (drop (4 + unat (get_u32 bs)) bs))"
  by pat_completeness auto
termination
  by (relation "measure length") auto

declare length_packets.simps [simp del]

section \<open>Pipes\<close>

datatype piper_task = Piper_send_ready_task | Piper_recv_ready_task

record ('i, 'o) piper =
  pin :: 'i
  pout :: 'o
  current :: "bytes option"
  pbuffer :: nat
  ptasks :: "piper_task list"

definition Piper_create :: "'i \<Rightarrow> 'o \<Rightarrow> nat \<Rightarrow> ('i, 'o) piper" where
  "Piper_create i out mtu = \<lparr>pin = i, pout = out, current = None, pbuffer = mtu, ptasks = []\<rparr>"

definition Piper_recv_ready :: "'i packet_ops \<Rightarrow> ('i, 'o) piper \<Rightarrow> ('i, 'o) piper result" where
  "Piper_recv_ready inops p =
     (if current p \<noteq> None then Inr p
      else bindR (precv inops (pin p)) (\<lambda>(data, i).
        case data of
          None \<Rightarrow> Inr (p\<lparr>pin := i\<rparr>)
        | Some d \<Rightarrow> assertR (length d \<le> pbuffer p)
            (Inr (p\<lparr>pin := i, current := Some d, ptasks := ptasks p @ [Piper_send_ready_task]\<rparr>))))"

definition Piper_send_ready :: "'o packet_ops \<Rightarrow> ('i, 'o) piper \<Rightarrow> ('i, 'o) piper result" where
  "Piper_send_ready outops p = (case current p of
       None \<Rightarrow> Inr p
     | Some d \<Rightarrow> (if pis_send_ready outops (pout p)
         then bindR (psend outops (pout p) d) (\<lambda>o'.
           Inr (p\<lparr>pout := o', current := None, ptasks := ptasks p @ [Piper_recv_ready_task]\<rparr>))
         else Inr p))"

inductive piper_step :: "'i packet_ops \<Rightarrow> 'o packet_ops \<Rightarrow> ('i, 'o) piper \<Rightarrow> ('i, 'o) piper \<Rightarrow> bool"
  for inops :: "'i packet_ops" and outops :: "'o packet_ops" where
  "Piper_recv_ready inops p = Inr p' \<Longrightarrow> piper_step inops outops p p'"
| "Piper_send_ready outops p = Inr p' \<Longrightarrow> piper_step inops outops p p'"

inductive_cases piper_stepE: "piper_step inops outops p p'"

section \<open>Writers over any byte stream\<close>

lemmas writer_defs = FreeWriterPacketStream_is_send_ready_def FreeWriterPacketStream_send_with_offset_def
  AbstractPacketStream_send_def schedule_def call_def

context byte_stream
begin

definition writer_sent :: "('s, 'm) free_writer_scheme \<Rightarrow> bytes" where
  "writer_sent p = written (stream p) @ send_buffer_current p"

lemma write_loop_law:
  "sinv s \<Longrightarrow> \<exists>s' cur'. write_loop sops s cur = Inr (s', cur') \<and> sinv s'
     \<and> written s' @ cur' = written s @ cur \<and> incoming s' = incoming s"
proof (induction "length cur" arbitrary: s cur rule: less_induct)
  case less
  show ?case
  proof (cases "cur = []")
    case False
    from swrite_law [OF less.prems False] obtain n t where
      w: "swrite sops s cur = Inr (n, t)" "n \<le> length cur" "sinv t"
        "written t = written s @ take n cur" "incoming t = incoming s" by blast
    show ?thesis
    proof (cases "n = 0")
      case True
      with w False show ?thesis by (simp add: write_loop.simps [of sops s cur])
    next
      case n: False
      with False have "length (drop n cur) < length cur" by simp
      from less.hyps [OF this w(3)] obtain s' cur' where
        "write_loop sops t (drop n cur) = Inr (s', cur')" "sinv s'"
        "written s' @ cur' = written t @ drop n cur" "incoming s' = incoming t" by blast
      with w False n show ?thesis by (simp add: write_loop.simps [of sops s cur])
    qed
  qed (use less.prems in \<open>simp add: write_loop.simps\<close>)
qed

lemma write_ready_law:
  assumes "sinv (stream p)"
  shows "\<exists>p'. FreeWriterPacketStream_write_ready sops p = Inr p' \<and> sinv (stream p')
           \<and> writer_sent p' = writer_sent p \<and> incoming (stream p') = incoming (stream p)
           \<and> (FreeWriterPacketStream_is_send_ready p' \<longleftrightarrow>
                called p' = called p @ [On_send_ready]
                \<and> scheduled p' = scheduled p @ [Run_callback On_send_ready])"
proof -
  from write_loop_law [OF assms, of "send_buffer_current p"] obtain s' cur' where
    "write_loop sops (stream p) (send_buffer_current p) = Inr (s', cur')" "sinv s'"
    "written s' @ cur' = written (stream p) @ send_buffer_current p"
    "incoming s' = incoming (stream p)" by blast
  then show ?thesis
    by (auto simp: FreeWriterPacketStream_write_ready_def writer_sent_def Let_def
        FreeWriterPacketStream_is_send_ready_def schedule_def call_def)
qed

lemma send_with_offset_law:
  assumes "FreeWriterPacketStream_is_send_ready p" "length d \<le> PACKET_MTU"
  shows "FreeWriterPacketStream_send_with_offset p d
           = Inr (schedule Run_write_ready (p\<lparr>send_buffer_current := d\<rparr>))"
    and "writer_sent (schedule Run_write_ready (p\<lparr>send_buffer_current := d\<rparr>)) = writer_sent p @ d"
  using assms by (simp_all add: writer_defs writer_sent_def)

end

sublocale byte_stream \<subseteq> free: packet_sink "FreePacketStream_ops sops" "\<lambda>p. sinv (stream p)"
  writer_sent "\<lambda>d. d" "\<lambda>p. if send_buffer_current p = [] then 1 else 0" PACKET_MTU
  by unfold_locales
    (auto simp: FreePacketStream_ops_def AbstractPacketStream_send_def send_with_offset_law result_simps
      writer_defs writer_sent_def)

sublocale byte_stream \<subseteq> len: packet_sink "LengthPacketStream_ops sops" "\<lambda>p. sinv (stream p)"
  writer_sent length_frame "\<lambda>p. if send_buffer_current p = [] then 1 else 0" "PACKET_MTU - 4"
  by unfold_locales
    (auto simp: LengthPacketStream_ops_def LengthPacketStream_send_def AbstractPacketStream_send_def
      send_with_offset_law result_simps writer_defs writer_sent_def length_frame_def PACKET_MTU_def)

section \<open>The length framing and its reader\<close>

lemma get_u32_append: "4 \<le> length a \<Longrightarrow> get_u32 (a @ b) = get_u32 a"
  by (simp add: get_u32_def)

lemma unat_of_nat_u32: "n < 2 ^ 32 \<Longrightarrow> unat (of_nat n :: u32) = n"
  by (simp add: unat_of_nat)

lemma get_u32_frame: "length d < 2 ^ 32 \<Longrightarrow> unat (get_u32 (length_frame d @ bs)) = length d"
  by (simp add: length_frame_def unat_of_nat_u32)

lemma length_packets_frame:
  assumes "length d < 2 ^ 32"
  shows "length_packets (length_frame d @ bs) = d # length_packets bs"
  using get_u32_frame [OF assms, of bs]
  by (subst length_packets.simps) (simp add: length_frame_def)

lemma length_packets_frames:
  "\<forall>d \<in> set ds. length d < 2 ^ 32 \<Longrightarrow> length_packets (concat (map length_frame ds)) = ds"
  by (induction ds) (simp_all add: length_packets_frame length_packets.simps [of "[]"])

lemma packet_complete_iff:
  assumes "length buf \<le> 2 * PACKET_MTU" "unat (get_u32 buf) \<le> PACKET_MTU"
  shows "packet_complete buf \<longleftrightarrow> 4 \<le> length buf \<and> 4 + unat (get_u32 buf) \<le> length buf"
proof -
  have "unat (get_u32 buf + 4) = unat (get_u32 buf) + 4"
    using assms(2) by (simp add: unat_word_ariths PACKET_MTU_def)
  moreover have "unat (of_nat (length buf) :: u32) = length buf"
    using assms(1) by (simp add: unat_of_nat_u32 PACKET_MTU_def)
  ultimately show ?thesis by (auto simp: packet_complete_def word_le_nat_alt add.commute)
qed

text \<open>What a peer that is itself a \<open>LengthPacketStream\<close> leaves on the wire.\<close>

definition length_wire :: "bytes \<Rightarrow> bytes list \<Rightarrow> bool" where
  "length_wire bs ds \<longleftrightarrow> bs = concat (map length_frame ds) \<and> (\<forall>d \<in> set ds. length d \<le> PACKET_MTU)"

lemma length_wire_packets: "length_wire bs ds \<Longrightarrow> length_packets bs = ds"
  by (auto simp: length_wire_def PACKET_MTU_def intro!: length_packets_frames)

lemma length_wire_head:
  assumes "length_wire (buf @ inc) ds" "4 \<le> length buf"
  obtains d ds' where "ds = d # ds'" "unat (get_u32 buf) = length d" "length d \<le> PACKET_MTU"
    "buf @ inc = length_frame d @ concat (map length_frame ds')" "\<forall>d \<in> set ds'. length d \<le> PACKET_MTU"
proof (cases ds)
  case Nil
  with assms show thesis by (auto simp: length_wire_def)
next
  case (Cons d ds')
  with assms(1) have eq: "buf @ inc = length_frame d @ concat (map length_frame ds')"
    and sz: "length d \<le> PACKET_MTU" "\<forall>d \<in> set ds'. length d \<le> PACKET_MTU"
    by (simp_all add: length_wire_def)
  have "unat (get_u32 buf) = unat (get_u32 (buf @ inc))" by (simp add: get_u32_append assms(2))
  also have "\<dots> = length d" unfolding eq by (rule get_u32_frame) (use sz in \<open>simp add: PACKET_MTU_def\<close>)
  finally show thesis using that Cons eq sz by blast
qed

lemma length_wire_recv:
  assumes w: "length_wire (recv_buffer p @ inc) ds" and l: "length (recv_buffer p) \<le> 2 * PACKET_MTU"
  shows "\<exists>r p'. LengthPacketStream_recv p = Inr (r, p') \<and> stream p' = stream p
     \<and> send_buffer_current p' = send_buffer_current p
     \<and> length (recv_buffer p') \<le> 2 * PACKET_MTU
     \<and> (\<exists>ds'. length_wire (recv_buffer p' @ inc) ds' \<and> ds = (case r of None \<Rightarrow> [] | Some d \<Rightarrow> [d]) @ ds')
     \<and> (r = None \<longleftrightarrow> \<not> packet_complete (recv_buffer p))"
proof (cases "4 \<le> length (recv_buffer p)")
  case True
  from length_wire_head [OF w True] obtain d ds' where h: "ds = d # ds'"
    "unat (get_u32 (recv_buffer p)) = length d" "length d \<le> PACKET_MTU"
    "recv_buffer p @ inc = length_frame d @ concat (map length_frame ds')"
    "\<forall>d \<in> set ds'. length d \<le> PACKET_MTU" .
  note c = packet_complete_iff [OF l h(3) [folded h(2)], unfolded h(2)]
  show ?thesis
  proof (cases "packet_complete (recv_buffer p)")
    case False
    with True w l h show ?thesis
      by (auto simp: LengthPacketStream_recv_def Let_def call_def)
  next
    case compl: True
    with c have len: "4 + length d \<le> length (recv_buffer p)" by simp
    have t: "take (length d) (drop 4 (recv_buffer p)) = d"
    proof -
      have "take (length d) (drop 4 (recv_buffer p)) = take (length d) (drop 4 (recv_buffer p @ inc))"
        using len by simp
      then show ?thesis by (simp add: h(4) length_frame_def)
    qed
    have "drop (length d + 4) (recv_buffer p) @ inc = drop (length d + 4) (recv_buffer p @ inc)"
      using len by simp
    also have "\<dots> = concat (map length_frame ds')" by (simp add: h(4) length_frame_def)
    finally have "length_wire (drop (length d + 4) (recv_buffer p) @ inc) ds'"
      using h(5) by (simp add: length_wire_def)
    moreover have "length (drop (length d + 4) (recv_buffer p)) \<le> 2 * PACKET_MTU" using l by simp
    ultimately show ?thesis using True compl h(1-3) len t
      by (auto simp: LengthPacketStream_recv_def Let_def call_def schedule_def PACKET_MTU_def)
  qed
next
  case False
  with w l show ?thesis by (auto simp: LengthPacketStream_recv_def packet_complete_def)
qed

context byte_stream
begin

lemma length_read_loop_law:
  "sinv s \<Longrightarrow> length buf \<le> 2 * PACKET_MTU \<Longrightarrow>
     \<exists>s' buf' full. length_read_loop sops s buf = Inr (s', buf', full) \<and> sinv s' \<and> written s' = written s
       \<and> buf' @ incoming s' = buf @ incoming s \<and> length buf' \<le> 2 * PACKET_MTU
       \<and> full = packet_complete buf'"
proof (induction "2 * PACKET_MTU - length buf" arbitrary: s buf rule: less_induct)
  case less
  from sread_law [OF less.prems(1)] obtain d t where
    d: "sread sops s (2 * PACKET_MTU - length buf) = Inr (d, t)"
    and r: "length d \<le> 2 * PACKET_MTU - length buf \<and> sinv t \<and> written t = written s \<and> incoming s = d @ incoming t"
    by blast
  show ?case
  proof (cases "packet_complete (buf @ d) \<or> d = []")
    case True
    with r d less.prems(2) show ?thesis
      by (auto simp: length_read_loop.simps [of sops s buf] packet_complete_def)
  next
    case False
    then have "0 < length d" by simp
    with conjunct1 [OF r] less.prems(2) have "2 * PACKET_MTU - length (buf @ d) < 2 * PACKET_MTU - length buf"
      unfolding length_append by linarith
    moreover from conjunct1 [OF r] less.prems(2) have "length (buf @ d) \<le> 2 * PACKET_MTU" by simp
    ultimately obtain s' buf' full where
      "length_read_loop sops t (buf @ d) = Inr (s', buf', full)" "sinv s'" "written s' = written t"
      "buf' @ incoming s' = (buf @ d) @ incoming t" "length buf' \<le> 2 * PACKET_MTU"
      "full = packet_complete buf'" using less.hyps [of "buf @ d" t] r by blast
    with False d r less.prems(2) show ?thesis
      by (auto simp: length_read_loop.simps [of sops s buf])
  qed
qed

definition length_inbox :: "'s length_packet_stream \<Rightarrow> bytes list" where
  "length_inbox p = length_packets (recv_buffer p @ incoming (stream p))"

definition length_inv :: "'s length_packet_stream \<Rightarrow> bool" where
  "length_inv p \<longleftrightarrow> sinv (stream p) \<and> length (recv_buffer p) \<le> 2 * PACKET_MTU
     \<and> length_wire (recv_buffer p @ incoming (stream p)) (length_inbox p)"

lemma length_invI:
  "sinv (stream p) \<Longrightarrow> length (recv_buffer p) \<le> 2 * PACKET_MTU \<Longrightarrow>
     length_wire (recv_buffer p @ incoming (stream p)) ds \<Longrightarrow> length_inv p \<and> length_inbox p = ds"
  using length_wire_packets by (fastforce simp: length_inv_def length_inbox_def)

lemma length_read_ready_law:
  assumes "length_inv p"
  shows "\<exists>p'. LengthPacketStream_read_ready sops p = Inr p' \<and> length_inv p'
     \<and> length_inbox p' = length_inbox p \<and> writer_sent p' = writer_sent p
     \<and> called p' = called p @ (if packet_complete (recv_buffer p') then [On_recv_ready] else [])"
proof -
  from assms have a: "sinv (stream p)" "length (recv_buffer p) \<le> 2 * PACKET_MTU"
    and w: "length_wire (recv_buffer p @ incoming (stream p)) (length_inbox p)"
    by (simp_all add: length_inv_def)
  from length_read_loop_law [OF a] obtain s' buf' full where
    l: "length_read_loop sops (stream p) (recv_buffer p) = Inr (s', buf', full)" "sinv s'"
      "written s' = written (stream p)" "buf' @ incoming s' = recv_buffer p @ incoming (stream p)"
      "length buf' \<le> 2 * PACKET_MTU" "full = packet_complete buf'" by blast
  let ?q = "p\<lparr>stream := s', recv_buffer := buf'\<rparr>"
  let ?p' = "if full then call On_recv_ready ?q else ?q"
  have "LengthPacketStream_read_ready sops p = Inr ?p'"
    by (simp add: LengthPacketStream_read_ready_def l(1) Let_def)
  moreover have "length_inv ?p' \<and> length_inbox ?p' = length_inbox p"
    by (rule length_invI) (use l w in \<open>auto simp: call_def\<close>)
  moreover have "writer_sent ?p' = writer_sent p"
    using l(3) by (simp add: writer_sent_def call_def)
  moreover have "called ?p' = called p @ (if packet_complete (recv_buffer ?p') then [On_recv_ready] else [])"
    using l(6) by (simp add: call_def)
  ultimately show ?thesis by blast
qed

lemma length_recv_law:
  assumes "length_inv p"
  shows "\<exists>r p'. LengthPacketStream_recv p = Inr (r, p') \<and> length_inv p'
     \<and> length_inbox p = (case r of None \<Rightarrow> [] | Some d \<Rightarrow> [d]) @ length_inbox p'
     \<and> writer_sent p' = writer_sent p"
proof -
  from assms length_wire_recv [of p "incoming (stream p)" "length_inbox p"] obtain r p' ds' where
    r: "LengthPacketStream_recv p = Inr (r, p')" "stream p' = stream p"
      "send_buffer_current p' = send_buffer_current p" "length (recv_buffer p') \<le> 2 * PACKET_MTU"
      "length_wire (recv_buffer p' @ incoming (stream p)) ds'"
      "length_inbox p = (case r of None \<Rightarrow> [] | Some d \<Rightarrow> [d]) @ ds'"
    by (auto simp: length_inv_def)
  from length_invI [of p' ds'] r assms have "length_inv p' \<and> length_inbox p' = ds'"
    by (simp add: length_inv_def)
  with r show ?thesis by (auto simp: writer_sent_def)
qed

end

sublocale byte_stream \<subseteq> length_stream: packet_duplex "LengthPacketStream_ops sops" length_inv
  writer_sent length_frame "\<lambda>p. if send_buffer_current p = [] then 1 else 0" "PACKET_MTU - 4" length_inbox
proof unfold_locales
  fix p and d :: bytes assume p: "length_inv p" "pis_send_ready (LengthPacketStream_ops sops) p" "length d \<le> PACKET_MTU - 4"
  from p(1) have "sinv (stream p)" by (simp add: length_inv_def)
  from len.psend_law [OF this p(2,3)] obtain p' where
    "psend (LengthPacketStream_ops sops) p d = Inr p'" "writer_sent p' = writer_sent p @ length_frame d"
    by blast
  moreover from this(1) have "stream p' = stream p" "recv_buffer p' = recv_buffer p"
    by (auto simp: LengthPacketStream_ops_def LengthPacketStream_send_def writer_defs result_simps)
  ultimately show "\<exists>p'. psend (LengthPacketStream_ops sops) p d = Inr p' \<and> length_inv p'
      \<and> writer_sent p' = writer_sent p @ length_frame d"
    using p(1) by (auto simp: length_inv_def length_inbox_def)
next
  fix p p' and d :: bytes assume "length_inv p" "pis_send_ready (LengthPacketStream_ops sops) p" "d \<noteq> []"
    "psend (LengthPacketStream_ops sops) p d = Inr p'"
  then show "(if send_buffer_current p' = [] then 1 else 0 :: nat) < (if send_buffer_current p = [] then 1 else 0)"
    using len.room_law [of p d p'] by (simp add: length_inv_def)
next
  fix p assume "length_inv p"
  from length_recv_law [OF this] show "\<exists>r p'. precv (LengthPacketStream_ops sops) p = Inr (r, p')
      \<and> length_inv p' \<and> length_inbox p = (case r of None \<Rightarrow> [] | Some d \<Rightarrow> [d]) @ length_inbox p'"
    by (auto simp: LengthPacketStream_ops_def)
next
  fix p r p' assume "length_inv p" "precv (LengthPacketStream_ops sops) p = Inr (r, p')"
  with length_recv_law [of p] show "writer_sent p' = writer_sent p"
    by (auto simp: LengthPacketStream_ops_def)
qed

section \<open>Pipes between a source and a sink\<close>

locale pipe =
  src: packet_source inops iinv inbox + snk: packet_sink outops oinv emitted enc room mtu
  for inops :: "'i packet_ops" and iinv :: "'i \<Rightarrow> bool" and inbox :: "'i \<Rightarrow> bytes list"
    and outops :: "'p packet_ops" and oinv :: "'p \<Rightarrow> bool" and emitted :: "'p \<Rightarrow> 'o list"
    and enc :: "bytes \<Rightarrow> 'o list" and room :: "'p \<Rightarrow> nat" and mtu :: nat
begin

text \<open>Everything that has left the pipe, is held by it, or is still to come, in order.\<close>

definition flow :: "('i, 'p) piper \<Rightarrow> 'o list" where
  "flow p = emitted (pout p) @ concat (map enc ((case current p of None \<Rightarrow> [] | Some d \<Rightarrow> [d]) @ inbox (pin p)))"

definition pipe_inv :: "('i, 'p) piper \<Rightarrow> bool" where
  "pipe_inv p \<longleftrightarrow> iinv (pin p) \<and> oinv (pout p) \<and> pbuffer p \<le> mtu
     \<and> (\<forall>d \<in> set (inbox (pin p)). length d \<le> pbuffer p)
     \<and> (case current p of None \<Rightarrow> True | Some d \<Rightarrow> length d \<le> pbuffer p)"

lemma recv_ready_law:
  assumes "pipe_inv p"
  shows "\<exists>p'. Piper_recv_ready inops p = Inr p' \<and> pipe_inv p' \<and> flow p' = flow p"
proof (cases "current p")
  case None
  from assms have "iinv (pin p)" by (simp add: pipe_inv_def)
  from src.precv_law [OF this] obtain r i where
    "precv inops (pin p) = Inr (r, i)" "iinv i" "inbox (pin p) = (case r of None \<Rightarrow> [] | Some d \<Rightarrow> [d]) @ inbox i"
    by blast
  with None assms show ?thesis
    by (cases r) (auto simp: Piper_recv_ready_def pipe_inv_def flow_def)
qed (use assms in \<open>auto simp: Piper_recv_ready_def\<close>)

lemma send_ready_law:
  assumes "pipe_inv p"
  shows "\<exists>p'. Piper_send_ready outops p = Inr p' \<and> pipe_inv p' \<and> flow p' = flow p"
proof (cases "current p")
  case (Some d)
  show ?thesis
  proof (cases "pis_send_ready outops (pout p)")
    case True
    with assms Some snk.psend_law [OF _ True, of d] obtain q where
      "psend outops (pout p) d = Inr q" "oinv q" "emitted q = emitted (pout p) @ enc d"
      by (fastforce simp: pipe_inv_def)
    with Some True assms show ?thesis by (auto simp: Piper_send_ready_def pipe_inv_def flow_def)
  qed (use Some assms in \<open>auto simp: Piper_send_ready_def\<close>)
qed (use assms in \<open>auto simp: Piper_send_ready_def\<close>)

lemma piper_steps_flow:
  assumes "(piper_step inops outops)\<^sup>*\<^sup>* p q" "pipe_inv p"
  shows "pipe_inv q \<and> flow q = flow p"
  using assms
proof (induction rule: rtranclp_induct)
  case (step q r)
  then have "pipe_inv q" "flow q = flow p" by auto
  with step.hyps(2) recv_ready_law [of q] send_ready_law [of q] show ?case
    by (auto elim!: piper_stepE)
qed simp

end

interpretation sock_pipe: pipe
  "LengthPacketStream_ops (FD_ops sock_kernel 0 :: (nat, sock) reactor stream_ops)" sock.fd_stream.length_inv
  sock.fd_stream.length_inbox
  "LengthPacketStream_ops (FD_ops sock_kernel 0 :: (nat, sock) reactor stream_ops)" sock.fd_stream.length_inv
  sock.fd_stream.writer_sent length_frame "\<lambda>p. if send_buffer_current p = [] then 1 else 0" "PACKET_MTU - 4"
  by (rule pipe.intro) unfold_locales

section \<open>Properties\<close>

text \<open>The handlers of a \<open>LengthPacketStream\<close> in the order the reactor and its client call them.\<close>

datatype 'f length_op = Op_read_ready | Op_write_ready | Op_recv | Op_reactor "'f list"

text \<open>
  They run on a reactor, whose queue receives what they schedule. Between them the reactor may run its
  queue and other objects may schedule: \<open>Op_reactor q\<close> leaves the functions \<open>q\<close> in the queue.
\<close>

fun length_run :: "(ps_task \<Rightarrow> 'f) \<Rightarrow> 's stream_ops \<Rightarrow> 'f length_op list \<Rightarrow>
    's length_packet_stream \<times> ('f, 'k) reactor \<Rightarrow> (bytes list \<times> 's length_packet_stream \<times> ('f, 'k) reactor) result" where
  "length_run emb ops [] (p, r) = Inr ([], p, r)"
| "length_run emb ops (Op_read_ready # xs) (p, r) =
     bindR (LengthPacketStream_read_ready ops p) (\<lambda>p'.
     bindR (schedule_new emb (scheduled p) (scheduled p') r) (\<lambda>r'. length_run emb ops xs (p', r')))"
| "length_run emb ops (Op_write_ready # xs) (p, r) =
     bindR (FreeWriterPacketStream_write_ready ops p) (\<lambda>p'.
     bindR (schedule_new emb (scheduled p) (scheduled p') r) (\<lambda>r'. length_run emb ops xs (p', r')))"
| "length_run emb ops (Op_recv # xs) (p, r) =
     bindR (LengthPacketStream_recv p) (\<lambda>(d, p').
     bindR (schedule_new emb (scheduled p) (scheduled p') r) (\<lambda>r'.
     bindR (length_run emb ops xs (p', r')) (\<lambda>(out, q). Inr ((case d of None \<Rightarrow> [] | Some d \<Rightarrow> [d]) @ out, q))))"
| "length_run emb ops (Op_reactor q # xs) (p, r) = length_run emb ops xs (p, r\<lparr>scheduled_functions := q\<rparr>)"

text \<open>Each call schedules at most one function; \<open>read_ready\<close> schedules none.\<close>

lemma read_ready_scheduled: "LengthPacketStream_read_ready ops p = Inr p' \<Longrightarrow> scheduled p' = scheduled p"
  by (auto simp: LengthPacketStream_read_ready_def call_def Let_def result_simps split: if_splits)

lemma write_ready_scheduled:
  "FreeWriterPacketStream_write_ready ops p = Inr p' \<Longrightarrow> \<exists>ts. scheduled p' = scheduled p @ ts \<and> length ts \<le> 1"
  by (auto simp: FreeWriterPacketStream_write_ready_def call_def schedule_def Let_def result_simps split: if_splits)

lemma recv_scheduled:
  "LengthPacketStream_recv p = Inr (d, p') \<Longrightarrow> \<exists>ts. scheduled p' = scheduled p @ ts \<and> length ts \<le> 1"
  by (auto simp: LengthPacketStream_recv_def call_def schedule_def Let_def result_simps split: if_splits)

lemma schedule_one:
  assumes "\<exists>ts. new = old @ ts \<and> length ts \<le> 1"
  shows "(\<exists>r'. schedule_new emb old new r = Inr r')
    \<or> (schedule_new emb old new r = Inl Assert_failed \<and> 1000 \<le> length (scheduled_functions r))"
  using assms by (auto simp: schedule_new_law)

context byte_stream
begin

lemma length_write_ready_inv:
  assumes "length_inv p"
  shows "\<exists>p'. FreeWriterPacketStream_write_ready sops p = Inr p' \<and> length_inv p' \<and> length_inbox p' = length_inbox p"
proof -
  from assms have "sinv (stream p)" by (simp add: length_inv_def)
  from write_ready_law [OF this] obtain p' where
    w: "FreeWriterPacketStream_write_ready sops p = Inr p'" "sinv (stream p')"
      "incoming (stream p') = incoming (stream p)" by blast
  then have "recv_buffer p' = recv_buffer p"
    by (auto simp: FreeWriterPacketStream_write_ready_def Let_def call_def schedule_def result_simps
        split: prod.splits if_splits)
  with w assms show ?thesis by (auto simp: length_inv_def length_inbox_def)
qed

text \<open>\<open>run_ok p out q\<close>: \<open>out\<close> has been taken from the packets \<open>p\<close> was to deliver, \<open>q\<close> still has the rest.\<close>

definition run_ok :: "'s length_packet_stream \<Rightarrow> bytes list \<Rightarrow> 's length_packet_stream \<Rightarrow> bool" where
  "run_ok p out q \<longleftrightarrow> length_inv q \<and> length_inbox p = out @ length_inbox q"

lemma bindR_return [simp]: "bindR m Inr = m"
  by (cases m) simp_all

text \<open>One call: it fails only in \<open>Reactor::schedule\<close>, when the queue is full.\<close>

lemma length_op_law:
  assumes "length_inv p"
  shows "(\<exists>out q r'. (\<forall>ys. length_run emb sops (x # ys) (p, r)
            = bindR (length_run emb sops ys (q, r')) (\<lambda>(o2, z). Inr (out @ o2, z))) \<and> run_ok p out q)
     \<or> ((\<forall>ys. length_run emb sops (x # ys) (p, r) = Inl Assert_failed)
          \<and> 1000 \<le> length (scheduled_functions r) \<and> x \<in> {Op_write_ready, Op_recv})"
proof (cases x)
  case Op_read_ready
  from length_read_ready_law [OF assms] obtain q where
    "LengthPacketStream_read_ready sops p = Inr q" "length_inv q" "length_inbox q = length_inbox p" by blast
  with read_ready_scheduled [OF this(1)] Op_read_ready show ?thesis
    by (intro disjI1 exI [of _ "[]"] exI [of _ q] exI [of _ r]) (simp add: run_ok_def)
next
  case Op_write_ready
  from length_write_ready_inv [OF assms] obtain q where
    q: "FreeWriterPacketStream_write_ready sops p = Inr q" "length_inv q" "length_inbox q = length_inbox p" by blast
  from schedule_one [OF write_ready_scheduled [OF q(1)], of emb r] show ?thesis
  proof (elim disjE exE conjE)
    fix r' assume "schedule_new emb (scheduled p) (scheduled q) r = Inr r'"
    with q Op_write_ready show ?thesis
      by (intro disjI1 exI [of _ "[]"] exI [of _ q] exI [of _ r']) (simp add: run_ok_def)
  qed (use q Op_write_ready in simp)
next
  case Op_recv
  from length_recv_law [OF assms] obtain d q where
    q: "LengthPacketStream_recv p = Inr (d, q)" "length_inv q"
      "length_inbox p = (case d of None \<Rightarrow> [] | Some d \<Rightarrow> [d]) @ length_inbox q" by blast
  from schedule_one [OF recv_scheduled [OF q(1)], of emb r] show ?thesis
  proof (elim disjE exE conjE)
    fix r' assume "schedule_new emb (scheduled p) (scheduled q) r = Inr r'"
    with q Op_recv show ?thesis
      by (intro disjI1 exI [of _ "case d of None \<Rightarrow> [] | Some d \<Rightarrow> [d]"] exI [of _ q] exI [of _ r']) (simp add: run_ok_def)
  qed (use q Op_recv in simp)
next
  case (Op_reactor fs)
  with assms show ?thesis
    by (intro disjI1 exI [of _ "[]"] exI [of _ p] exI [of _ "r\<lparr>scheduled_functions := fs\<rparr>"]) (simp add: run_ok_def)
qed

lemma length_run_law:
  "length_inv p \<Longrightarrow> (\<exists>out q r'. length_run emb sops xs (p, r) = Inr (out, q, r') \<and> run_ok p out q)
     \<or> (length_run emb sops xs (p, r) = Inl Assert_failed
         \<and> (\<exists>ys x zs out q r'. xs = ys @ x # zs \<and> length_run emb sops ys (p, r) = Inr (out, q, r') \<and> run_ok p out q
              \<and> 1000 \<le> length (scheduled_functions r') \<and> x \<in> {Op_write_ready, Op_recv}))"
proof (induction xs arbitrary: p r)
  case (Cons x xs)
  from length_op_law [OF Cons.prems, of emb x r] show ?case
  proof (elim disjE exE conjE)
    fix out q r'
    assume run: "\<forall>ys. length_run emb sops (x # ys) (p, r)
        = bindR (length_run emb sops ys (q, r')) (\<lambda>(o2, z). Inr (out @ o2, z))" and q: "run_ok p out q"
    then have "length_inv q" by (simp add: run_ok_def)
    from Cons.IH [OF this, of r'] show ?thesis
    proof (elim disjE exE conjE)
      fix o2 z r2 assume "length_run emb sops xs (q, r') = Inr (o2, z, r2)" "run_ok q o2 z"
      with run q show ?thesis by (auto simp: run_ok_def)
    next
      fix ys y zs o2 z r2
      assume f: "length_run emb sops xs (q, r') = Inl Assert_failed" "xs = ys @ y # zs"
        "length_run emb sops ys (q, r') = Inr (o2, z, r2)" "run_ok q o2 z" "1000 \<le> length (scheduled_functions r2)"
        "y \<in> {Op_write_ready, Op_recv}"
      have "length_run emb sops (x # ys) (p, r) = Inr (out @ o2, z, r2)" "run_ok p (out @ o2) z"
        "x # xs = (x # ys) @ y # zs" "length_run emb sops (x # xs) (p, r) = Inl Assert_failed"
        using run f q by (simp_all add: run_ok_def)
      with f(5,6) show ?thesis by blast
    qed
  next
    assume "\<forall>ys. length_run emb sops (x # ys) (p, r) = Inl Assert_failed" "1000 \<le> length (scheduled_functions r)"
      "x \<in> {Op_write_ready, Op_recv}"
    moreover have "length_run emb sops [] (p, r) = Inr ([], p, r)" "run_ok p [] p" "x # xs = [] @ x # xs"
      using Cons.prems by (simp_all add: run_ok_def)
    ultimately show ?thesis by blast
  qed
qed (simp add: run_ok_def)

end

text \<open>C12: over any byte stream, however its reads cut the input, a \<open>LengthPacketStream\<close> whose peer writes
  the frames of the packets \<open>ds\<close> hands out, through any sequence of \<open>read_ready\<close>, \<open>write_ready\<close> and
  \<open>recv\<close> calls, between which the reactor runs its queue or others schedule, a prefix of \<open>ds\<close> and keeps the
  rest. A call fails only in the assertion of \<open>Reactor::schedule\<close>: a \<open>write_ready\<close> or \<open>recv\<close> made when a
  thousand functions wait in the reactor's queue. (The client's error callback leaves the stream alone.)\<close>

theorem LengthPacketStream_delivers_in_order:
  assumes "byte_stream sops sinv written incoming" "sinv (stream p)"
    and "length (recv_buffer p) \<le> 2 * PACKET_MTU"
    and "length_wire (recv_buffer p @ incoming (stream p)) ds"
  shows "(\<exists>out q r' rest. length_run emb sops xs (p, r) = Inr (out, q, r') \<and> ds = out @ rest
           \<and> length_wire (recv_buffer q @ incoming (stream q)) rest)
     \<or> (length_run emb sops xs (p, r) = Inl Assert_failed
         \<and> (\<exists>ys x zs out q r' rest. xs = ys @ x # zs \<and> x \<in> {Op_write_ready, Op_recv}
              \<and> length_run emb sops ys (p, r) = Inr (out, q, r') \<and> 1000 \<le> length (scheduled_functions r')
              \<and> ds = out @ rest \<and> length_wire (recv_buffer q @ incoming (stream q)) rest))"
proof -
  note inv = byte_stream.length_invI [OF assms]
  have ok: "\<exists>rest. ds = out @ rest \<and> length_wire (recv_buffer q @ incoming (stream q)) rest"
    if "byte_stream.run_ok sinv incoming p out q" for out q
    using that inv by (auto simp: byte_stream.run_ok_def [OF assms(1)] byte_stream.length_inv_def [OF assms(1)])
  from byte_stream.length_run_law [OF assms(1) conjunct1 [OF inv], of emb xs r] show ?thesis
  proof (elim disjE exE conjE)
    fix out q r' assume "length_run emb sops xs (p, r) = Inr (out, q, r')" "byte_stream.run_ok sinv incoming p out q"
    with ok [of out q] show ?thesis by auto
  next
    fix ys x zs out q r'
    assume f: "length_run emb sops xs (p, r) = Inl Assert_failed" "xs = ys @ x # zs" "x \<in> {Op_write_ready, Op_recv}"
      "length_run emb sops ys (p, r) = Inr (out, q, r')" "1000 \<le> length (scheduled_functions r')"
      "byte_stream.run_ok sinv incoming p out q"
    from ok [OF f(6)] obtain rest where "ds = out @ rest" "length_wire (recv_buffer q @ incoming (stream q)) rest" by blast
    with f(1-5) show ?thesis
      by (intro disjI2 conjI exI [of _ ys] exI [of _ x] exI [of _ zs] exI [of _ out] exI [of _ q] exI [of _ r'] exI [of _ rest])
  qed
qed

definition waiting_functions :: "nat \<Rightarrow> (nat, sock) reactor" where
  "waiting_functions n = (sock_reactor \<lparr>rx = [], wx = [], tx = []\<rparr>)\<lparr>scheduled_functions := replicate n 0\<rparr>"

lemma example_length_read:
  "LengthPacketStream_read_ready (FD_ops sock_kernel 0)
     (LengthPacketStream_create (sock_reactor \<lparr>rx = [[2, 0, 0], [0, 7, 8]], wx = [], tx = []\<rparr>))
   = Inr (call On_recv_ready ((LengthPacketStream_create (sock_reactor \<lparr>rx = [], wx = [], tx = []\<rparr>))\<lparr>recv_buffer := [2, 0, 0, 0, 7, 8]\<rparr>))"
  by (simp add: LengthPacketStream_read_ready_def LengthPacketStream_create_def length_read_loop.simps FD_ops_def
      FD_read_def sock_kernel_def sock_read_def sock_reactor_def packet_complete_def get_u32_def PACKET_MTU_def call_def)

theorem LengthPacketStream_delivers_in_order_witness:
  "\<exists>p'. length_run (\<lambda>t. 7) (FD_ops sock_kernel 0) [Op_read_ready, Op_recv]
         (LengthPacketStream_create (sock_reactor \<lparr>rx = [[2, 0, 0], [0, 7, 8]], wx = [], tx = []\<rparr>), waiting_functions 999)
       = Inr ([[7, 8]], p', (waiting_functions 999)\<lparr>scheduled_functions := replicate 999 0 @ [7]\<rparr>)
     \<and> recv_buffer p' = []
     \<and> length_run (\<lambda>t. 7) (FD_ops sock_kernel 0) [Op_read_ready, Op_recv]
         (LengthPacketStream_create (sock_reactor \<lparr>rx = [[2, 0, 0], [0, 7, 8]], wx = [], tx = []\<rparr>), waiting_functions 1000)
       = Inl Assert_failed"
proof -
  let ?p = "LengthPacketStream_create (sock_reactor \<lparr>rx = [[2, 0, 0], [0, 7, 8]], wx = [], tx = []\<rparr>)"
  let ?run = "\<lambda>n. length_run (\<lambda>t. 7) (FD_ops sock_kernel 0) [Op_read_ready, Op_recv] (?p, waiting_functions n)"
  have "sock.fd_inv (stream ?p)" "length (recv_buffer ?p) \<le> 2 * PACKET_MTU"
    "length_wire (recv_buffer ?p @ concat (rx (kernel (stream ?p)))) [[7, 8]]"
    by (simp_all add: LengthPacketStream_create_def sock_reactor_def sock.fd_inv_def length_wire_def
        length_frame_def put_u32_def PACKET_MTU_def to_le_numeral)
  note law = LengthPacketStream_delivers_in_order [OF sock.fd_stream.byte_stream_axioms this,
      of "\<lambda>t. 7" "[Op_read_ready, Op_recv]"]
  let ?q = "(LengthPacketStream_create (sock_reactor \<lparr>rx = [], wx = [], tx = []\<rparr>))\<lparr>recv_buffer := [2, 0, 0, 0, 7, 8]\<rparr>"
  have recv: "LengthPacketStream_recv (call On_recv_ready ?q)
      = Inr (Some [7, 8], schedule Run_read_ready (call On_error (call On_recv_ready ?q)\<lparr>recv_buffer := []\<rparr>))"
    by (simp add: LengthPacketStream_recv_def packet_complete_def get_u32_def PACKET_MTU_def call_def LengthPacketStream_create_def)
  have "?run n = bindR (schedule_new (\<lambda>t. 7) (scheduled ?p) (scheduled ?p @ [Run_read_ready]) (waiting_functions n))
      (\<lambda>r'. Inr ([[7, 8]], schedule Run_read_ready (call On_error (call On_recv_ready ?q)\<lparr>recv_buffer := []\<rparr>), r'))" for n
    using example_length_read recv by (simp add: call_def schedule_def LengthPacketStream_create_def)
  then have "?run 999 = Inr ([[7, 8]], schedule Run_read_ready (call On_error (call On_recv_ready ?q)\<lparr>recv_buffer := []\<rparr>),
      (waiting_functions 999)\<lparr>scheduled_functions := replicate 999 0 @ [7]\<rparr>)" "?run 1000 = Inl Assert_failed"
    by (simp_all add: schedule_new_law waiting_functions_def)
  with law [of "waiting_functions 999"] show ?thesis by (auto simp: schedule_def call_def)
qed

text \<open>The writer keeps the byte order over any byte stream: sending while ready appends exactly the
  packet to what was written or is waiting, \<open>write_ready\<close> returns, changes nothing of that sequence, and
  reports readiness exactly when everything has been written.\<close>

theorem FreeWriterPacketStream_keeps_order:
  assumes "byte_stream sops sinv written incoming" "sinv (stream p)"
  shows "\<exists>p'. FreeWriterPacketStream_write_ready sops p = Inr p' \<and> sinv (stream p')
           \<and> written (stream p') @ send_buffer_current p' = written (stream p) @ send_buffer_current p
           \<and> (send_buffer_current p' = [] \<longleftrightarrow> called p' = called p @ [On_send_ready])
     \<and> (FreeWriterPacketStream_is_send_ready p' \<longrightarrow> length d \<le> PACKET_MTU \<longrightarrow>
          (\<exists>q. FreeWriterPacketStream_send_with_offset p' d = Inr q
             \<and> written (stream q) @ send_buffer_current q = written (stream p') @ send_buffer_current p' @ d))"
proof -
  from byte_stream.write_ready_law [OF assms] obtain p' where
    "FreeWriterPacketStream_write_ready sops p = Inr p'" "sinv (stream p')"
    "byte_stream.writer_sent written p' = byte_stream.writer_sent written p"
    "FreeWriterPacketStream_is_send_ready p' \<longleftrightarrow> called p' = called p @ [On_send_ready]
       \<and> scheduled p' = scheduled p @ [Run_callback On_send_ready]"
    by blast
  moreover from this(1) have "called p' = called p @ [On_send_ready] \<Longrightarrow> send_buffer_current p' = []"
    by (auto simp: FreeWriterPacketStream_write_ready_def Let_def call_def schedule_def result_simps
        split: prod.splits if_splits)
  ultimately show ?thesis
    by (auto simp: byte_stream.writer_sent_def [OF assms(1)] writer_defs)
qed

theorem FreeWriterPacketStream_keeps_order_witness:
  "\<exists>p'. FreeWriterPacketStream_write_ready (FD_ops sock_kernel 0)
       ((FreeWriterPacketStream_init (sock_reactor \<lparr>rx = [], wx = [2], tx = []\<rparr>))\<lparr>send_buffer_current := [5, 6, 7]\<rparr>)
     = Inr p' \<and> tx (kernel (stream p')) @ send_buffer_current p' = [5, 6, 7]"
proof -
  let ?p = "(FreeWriterPacketStream_init (sock_reactor \<lparr>rx = [], wx = [2], tx = []\<rparr>))\<lparr>send_buffer_current := [5, 6, 7]\<rparr>"
  have "sock.fd_inv (stream ?p)"
    by (simp add: FreeWriterPacketStream_init_def sock_reactor_def sock.fd_inv_def)
  from FreeWriterPacketStream_keeps_order [OF sock.fd_stream.byte_stream_axioms this] show ?thesis
    by (auto simp: FreeWriterPacketStream_init_def sock_reactor_def)
qed

text \<open>The size test of \<open>LengthPacketStream::recv\<close> is inverted. Every complete packet the class is meant
  to carry is delivered together with a call of \<open>on_error\<close>; a complete packet larger than the MTU is not
  reported but runs into a failed assertion.\<close>

theorem LengthPacketStream_recv_size_test:
  assumes "packet_complete (recv_buffer p)" "unat (get_u32 (recv_buffer p)) + 4 \<le> length (recv_buffer p)"
  shows "if unat (get_u32 (recv_buffer p)) \<le> PACKET_MTU
         then \<exists>d p'. LengthPacketStream_recv p = Inr (Some d, p') \<and> called p' = called p @ [On_error]
         else LengthPacketStream_recv p = Inl Assert_failed"
  using assms by (auto simp: LengthPacketStream_recv_def Let_def packet_complete_def call_def schedule_def
      assertR_def PACKET_MTU_def)

theorem LengthPacketStream_recv_size_test_witness:
  "\<exists>d p'. LengthPacketStream_recv ((LengthPacketStream_create ())\<lparr>recv_buffer := [1, 0, 0, 0, 9]\<rparr>) = Inr (Some d, p')
     \<and> called p' = [On_error]"
proof -
  let ?p = "(LengthPacketStream_create ())\<lparr>recv_buffer := [1, 0, 0, 0, 9]\<rparr>"
  have g: "get_u32 [1, 0, 0, 0, 9] = 1" by (simp add: get_u32_def)
  have "packet_complete (recv_buffer ?p)" "unat (get_u32 (recv_buffer ?p)) + 4 \<le> length (recv_buffer ?p)"
    by (simp_all add: packet_complete_def g)
  from LengthPacketStream_recv_size_test [OF this] show ?thesis
    by (simp add: g PACKET_MTU_def LengthPacketStream_create_def)
qed

text \<open>C13: a pipe is a FIFO. For every source and sink that meet their contracts and every sequence of its
  two handlers, what the sink has emitted, followed by the packet the pipe holds, followed by what the
  source still has, is the same sequence; and neither handler ever fails.\<close>

theorem Piper_fifo:
  assumes "packet_source inops iinv inbox" "packet_sink outops oinv emitted enc room mtu"
    and "iinv i" "oinv out" "m \<le> mtu" "\<forall>d \<in> set (inbox i). length d \<le> m"
    and "(piper_step inops outops)\<^sup>*\<^sup>* (Piper_create i out m) q"
  shows "emitted (pout q) @ concat (map enc ((case current q of None \<Rightarrow> [] | Some d \<Rightarrow> [d]) @ inbox (pin q)))
           = emitted out @ concat (map enc (inbox i))
         \<and> returns (Piper_recv_ready inops q) \<and> returns (Piper_send_ready outops q)"
proof -
  have loc: "pipe inops iinv inbox outops oinv emitted enc room mtu"
    using assms(1,2) by (rule pipe.intro)
  have "pipe.pipe_inv iinv inbox oinv mtu (Piper_create i out m)"
    using assms(3-6) by (simp add: pipe.pipe_inv_def [OF loc] Piper_create_def)
  from pipe.piper_steps_flow [OF loc assms(7) this]
  have q: "pipe.pipe_inv iinv inbox oinv mtu q" "pipe.flow inbox emitted enc q = pipe.flow inbox emitted enc (Piper_create i out m)"
    by auto
  from pipe.recv_ready_law [OF loc q(1)] pipe.send_ready_law [OF loc q(1)] q(2) show ?thesis
    by (auto simp: pipe.flow_def [OF loc] Piper_create_def returns_def)
qed

theorem Piper_fifo_witness:
  "\<exists>q. (piper_step (LengthPacketStream_ops (FD_ops sock_kernel 0)) (LengthPacketStream_ops (FD_ops sock_kernel 0)))\<^sup>*\<^sup>*
       (Piper_create ((LengthPacketStream_create (sock_reactor \<lparr>rx = [], wx = [], tx = []\<rparr>))\<lparr>recv_buffer := [1, 0, 0, 0, 9]\<rparr>)
          (LengthPacketStream_create (sock_reactor \<lparr>rx = [], wx = [], tx = []\<rparr>)) 100) q
     \<and> returns (Piper_recv_ready (LengthPacketStream_ops (FD_ops sock_kernel 0)) q)"
proof -
  let ?s = "sock_reactor \<lparr>rx = [], wx = [], tx = []\<rparr>"
  let ?i = "(LengthPacketStream_create ?s)\<lparr>recv_buffer := [1, 0, 0, 0, 9]\<rparr>"
  let ?o = "LengthPacketStream_create ?s"
  have "sock.fd_stream.length_inv ?i \<and> sock.fd_stream.length_inbox ?i = [[9]]"
    by (rule sock.fd_stream.length_invI)
      (simp_all add: LengthPacketStream_create_def sock_reactor_def sock.fd_inv_def length_wire_def
        length_frame_def put_u32_def PACKET_MTU_def to_le_numeral)
  moreover have "sock.fd_stream.length_inv ?o \<and> sock.fd_stream.length_inbox ?o = []"
    by (rule sock.fd_stream.length_invI)
      (simp_all add: LengthPacketStream_create_def sock_reactor_def sock.fd_inv_def length_wire_def)
  ultimately have "returns (Piper_recv_ready (LengthPacketStream_ops (FD_ops sock_kernel 0)) (Piper_create ?i ?o 100))"
    using Piper_fifo [OF sock.fd_stream.length_stream.packet_source_axioms
        sock.fd_stream.length_stream.packet_sink_axioms,
        of ?i ?o 100 "Piper_create ?i ?o 100"] by (simp add: PACKET_MTU_def)
  then show ?thesis by blast
qed

end
