(* ===== verification/Throttled.thy ===== *)
theory Throttled
  imports Streams Packet_Streams
begin

text \<open>
  \<^verbatim>\<open>libreactor/throttled.cpp\<close>: streams that limit the rate of, or delay, the writes to another stream.

  A clock reading is an argument of the operation that takes it. The timer the class owns appears through the
  functions it has been given: \<open>twakeups\<close> are the times a throttled stream will be woken at, \<open>dtimers\<close> the number of
  calls of \<open>after_delay_fn\<close> still to come. \<open>notified\<close> counts calls of \<open>on_write_ready\<close>. \<open>close\<close> yields the closed stream. The rate is a real number.
\<close>

section \<open>Throttling\<close>

record 's throttled =
  tstream :: "'s option"
  mbps :: real
  next_transmission :: u64
  twakeups :: "u64 list"
  notified :: nat

definition ThrottledStream_init :: "'s \<Rightarrow> real \<Rightarrow> 's throttled" where
  "ThrottledStream_init s rate = \<lparr>tstream = Some s, mbps = rate, next_transmission = 0, twakeups = [], notified = 0\<rparr>"

definition ThrottledStream_read :: "'s stream_ops \<Rightarrow> nat \<Rightarrow> 's throttled \<Rightarrow> (bytes \<times> 's throttled) result" where
  "ThrottledStream_read ops n t = (case tstream t of
       None \<Rightarrow> Inl Undefined_behaviour
     | Some s \<Rightarrow> bindR (sread ops s n) (\<lambda>(d, s'). Inr (d, t\<lparr>tstream := Some s'\<rparr>)))"

definition ThrottledStream_can_transmit :: "u64 \<Rightarrow> 's throttled \<Rightarrow> bool" where
  "ThrottledStream_can_transmit now t \<longleftrightarrow> next_transmission t \<le> now"

text \<open>\<open>uint64_t elapse_time = wrote / mbps\<close> truncates.\<close>

definition elapse_time :: "real \<Rightarrow> nat \<Rightarrow> u64" where
  "elapse_time rate wrote = of_int \<lfloor>real wrote / rate\<rfloor>"

definition ThrottledStream_write ::
    "'s stream_ops \<Rightarrow> u64 \<Rightarrow> u64 \<Rightarrow> bytes \<Rightarrow> 's throttled \<Rightarrow> (nat \<times> 's throttled) result" where
  "ThrottledStream_write ops now now' data t =
     assertR (length data \<noteq> 0)
      (if ThrottledStream_can_transmit now t then
         (case tstream t of
            None \<Rightarrow> Inl Undefined_behaviour
          | Some s \<Rightarrow> bindR (swrite ops s data) (\<lambda>(wrote, s').
              let next = now' + elapse_time (mbps t) wrote
              in Inr (wrote, t\<lparr>tstream := Some s', next_transmission := next, twakeups := twakeups t @ [next]\<rparr>)))
       else Inr (0, t))"

definition ThrottledStream_close :: "'s stream_ops \<Rightarrow> 's throttled \<Rightarrow> ('s \<times> 's throttled) result" where
  "ThrottledStream_close ops t = (case tstream t of
       None \<Rightarrow> Inl Undefined_behaviour
     | Some s \<Rightarrow> Inr (sclose ops s, t\<lparr>tstream := None\<rparr>))"

definition ThrottledStream_write_ready :: "u64 \<Rightarrow> 's throttled \<Rightarrow> 's throttled" where
  "ThrottledStream_write_ready now t = (if ThrottledStream_can_transmit now t then t\<lparr>notified := notified t + 1\<rparr> else t)"

section \<open>Delaying\<close>

record 's delayed =
  dstream :: "'s option"
  dbuffers :: "bytes list"
  dwaiting :: nat
  front_pointer :: nat
  dbuffsize :: nat
  dtimers :: nat
  dnotified :: nat

definition DelayedStream_init :: "'s \<Rightarrow> nat \<Rightarrow> 's delayed" where
  "DelayedStream_init s buffsize = \<lparr>dstream = Some s, dbuffers = [], dwaiting = 0, front_pointer = 0, dbuffsize = buffsize,
     dtimers = 0, dnotified = 0\<rparr>"

definition DelayedStream_read :: "'s stream_ops \<Rightarrow> nat \<Rightarrow> 's delayed \<Rightarrow> (bytes \<times> 's delayed) result" where
  "DelayedStream_read ops n d = (case dstream d of
       None \<Rightarrow> Inl Undefined_behaviour
     | Some s \<Rightarrow> bindR (sread ops s n) (\<lambda>(b, s'). Inr (b, d\<lparr>dstream := Some s'\<rparr>)))"

definition DelayedStream_close :: "'s stream_ops \<Rightarrow> 's delayed \<Rightarrow> ('s \<times> 's delayed) result" where
  "DelayedStream_close ops d = (case dstream d of
       None \<Rightarrow> Inl Undefined_behaviour
     | Some s \<Rightarrow> Inr (sclose ops s, d\<lparr>dstream := None\<rparr>))"

definition DelayedStream_write :: "bytes \<Rightarrow> 's delayed \<Rightarrow> (nat \<times> 's delayed) result" where
  "DelayedStream_write data d =
     assertR (length data \<noteq> 0)
      (let wrote = min (length data) (dbuffsize d) in
       if wrote = 0 then Inr (0, d)
       else Inr (wrote, d\<lparr>dbuffsize := dbuffsize d - wrote, dbuffers := dbuffers d @ [take wrote data],
              dtimers := dtimers d + 1\<rparr>))"

fun delayed_loop :: "nat \<Rightarrow> 's stream_ops \<Rightarrow> 's delayed \<Rightarrow> 's delayed result" where
  "delayed_loop 0 ops d = Inl Fuel_exhausted"
| "delayed_loop (Suc fuel) ops d =
     (if dwaiting d = 0 then Inr d
      else case (dbuffers d, dstream d) of
        (buff # rest, Some s) \<Rightarrow> bindR (swrite ops s (drop (front_pointer d) buff)) (\<lambda>r.
          let wrote = fst r; d1 = d\<lparr>dstream := Some (snd r)\<rparr> in
          if wrote = 0 then Inr d1
          else if wrote + front_pointer d = length buff
          then delayed_loop fuel ops (d1\<lparr>dbuffsize := dbuffsize d + length buff, dbuffers := rest, dwaiting := dwaiting d - 1,
                 front_pointer := 0\<rparr>)
          else delayed_loop fuel ops (d1\<lparr>front_pointer := front_pointer d + wrote\<rparr>))
      | _ \<Rightarrow> Inl Undefined_behaviour)"

definition DelayedStream_write_ready :: "nat \<Rightarrow> 's stream_ops \<Rightarrow> 's delayed \<Rightarrow> 's delayed result" where
  "DelayedStream_write_ready fuel ops d = bindR (delayed_loop fuel ops d) (\<lambda>d'.
     Inr (if dbuffsize d' \<noteq> 0 then d'\<lparr>dnotified := dnotified d' + 1\<rparr> else d'))"

text \<open>\<open>after_delay_fn\<close>, when the timer calls it.\<close>

definition DelayedStream_after_delay :: "nat \<Rightarrow> 's stream_ops \<Rightarrow> 's delayed \<Rightarrow> 's delayed result" where
  "DelayedStream_after_delay fuel ops d =
     DelayedStream_write_ready fuel ops (d\<lparr>dtimers := dtimers d - 1, dwaiting := dwaiting d + 1\<rparr>)"

section \<open>Laws\<close>

inductive delayed_step :: "'s stream_ops \<Rightarrow> 's delayed \<Rightarrow> bytes \<Rightarrow> 's delayed \<Rightarrow> bool" for ops :: "'s stream_ops" where
  delayed_write: "DelayedStream_write data d = Inr (n, d') \<Longrightarrow> delayed_step ops d (take n data) d'"
| delayed_arrives: "0 < dtimers d \<Longrightarrow> DelayedStream_after_delay fuel ops d = Inr d' \<Longrightarrow> delayed_step ops d [] d'"
| delayed_ready: "DelayedStream_write_ready fuel ops d = Inr d' \<Longrightarrow> delayed_step ops d [] d'"

inductive delayed_trace :: "'s stream_ops \<Rightarrow> 's delayed \<Rightarrow> bytes \<Rightarrow> 's delayed \<Rightarrow> bool" for ops :: "'s stream_ops" where
  delayed_nil: "delayed_trace ops d [] d"
| delayed_snoc: "delayed_trace ops d ds d' \<Longrightarrow> delayed_step ops d' e d'' \<Longrightarrow> delayed_trace ops d (ds @ e) d''"

definition delayed_shape :: "nat \<Rightarrow> 's delayed \<Rightarrow> bool" where
  "delayed_shape cap d \<longleftrightarrow> dwaiting d + dtimers d = length (dbuffers d) \<and> dbuffsize d + length (concat (dbuffers d)) = cap
     \<and> (\<forall>b \<in> set (dbuffers d). b \<noteq> []) \<and> (case dbuffers d of [] \<Rightarrow> front_pointer d = 0 | b # bs \<Rightarrow> front_pointer d < length b)"

definition delayed_waiting :: "'s delayed \<Rightarrow> bytes" where
  "delayed_waiting d = drop (front_pointer d) (concat (dbuffers d))"

lemma delayed_loop_more_fuel:
  "delayed_loop fuel ops d = Inr d' \<Longrightarrow> fuel \<le> fuel' \<Longrightarrow> delayed_loop fuel' ops d = Inr d'"
proof (induction fuel arbitrary: d fuel')
  case (Suc fuel)
  then obtain f where f: "fuel' = Suc f" "fuel \<le> f" by (cases fuel') auto
  note IH = Suc.IH [OF _ f(2)]
  show ?case
  proof (cases "dwaiting d = 0")
    case True
    with Suc.prems f show ?thesis by simp
  next
    case False
    with Suc.prems(1) obtain b bs s where b: "dbuffers d = b # bs" "dstream d = Some s"
      by (auto split: list.splits option.splits)
    with False Suc.prems(1) obtain n s' where w: "swrite ops s (drop (front_pointer d) b) = Inr (n, s')"
      by (cases "swrite ops s (drop (front_pointer d) b)") auto
    show ?thesis using Suc.prems(1) False b w IH by (auto simp: f(1) Let_def split: if_splits)
  qed
qed simp

lemma write_ready_more_fuel:
  "DelayedStream_write_ready fuel ops d = Inr d' \<Longrightarrow> fuel \<le> fuel' \<Longrightarrow> DelayedStream_write_ready fuel' ops d = Inr d'"
  by (auto simp: DelayedStream_write_ready_def result_simps dest: delayed_loop_more_fuel)

context byte_stream
begin

definition delayed_inv :: "nat \<Rightarrow> 's delayed \<Rightarrow> bool" where
  "delayed_inv cap d \<longleftrightarrow> delayed_shape cap d \<and> (\<exists>s. dstream d = Some s \<and> sinv s)"

definition delayed_sent :: "'s delayed \<Rightarrow> bytes" where
  "delayed_sent d = (case dstream d of None \<Rightarrow> [] | Some s \<Rightarrow> written s)"

lemma delayed_loop_law:
  assumes "delayed_inv cap d" "length (delayed_waiting d) < fuel"
  shows "\<exists>d'. delayed_loop fuel sops d = Inr d' \<and> delayed_inv cap d' \<and> dtimers d' = dtimers d
     \<and> delayed_sent d' @ delayed_waiting d' = delayed_sent d @ delayed_waiting d"
  using assms
proof (induction fuel arbitrary: d)
  case (Suc fuel)
  show ?case
  proof (cases "dwaiting d = 0")
    case True
    with Suc.prems show ?thesis by auto
  next
    case False
    from Suc.prems(1) obtain s where s: "dstream d = Some s" "sinv s" by (auto simp: delayed_inv_def)
    from False Suc.prems(1) obtain b bs where b: "dbuffers d = b # bs" "front_pointer d < length b"
      by (cases "dbuffers d") (auto simp: delayed_inv_def delayed_shape_def)
    have ne: "drop (front_pointer d) b \<noteq> []" using b(2) by simp
    from swrite_law [OF s(2) ne] obtain n s' where
      w: "swrite sops s (drop (front_pointer d) b) = Inr (n, s')" "n \<le> length b - front_pointer d" "sinv s'"
        "written s' = written s @ take n (drop (front_pointer d) b)" by auto
    consider "n = 0" | "n \<noteq> 0" "n + front_pointer d = length b" | "n \<noteq> 0" "n + front_pointer d < length b"
      using w(2) b(2) by linarith
    then show ?thesis
    proof cases
      case 1
      let ?d = "d\<lparr>dstream := Some s'\<rparr>"
      have "delayed_loop (Suc fuel) sops d = Inr ?d" using False s b w 1 by (simp add: Let_def)
      moreover have "delayed_inv cap ?d" using Suc.prems(1) w(3) b(1) by (simp add: delayed_inv_def delayed_shape_def)
      ultimately show ?thesis using s w(4) 1 by (auto simp: delayed_sent_def delayed_waiting_def)
    next
      case 2
      let ?d = "d\<lparr>dstream := Some s', dbuffsize := dbuffsize d + length b, dbuffers := bs, dwaiting := dwaiting d - 1, front_pointer := 0\<rparr>"
      have e: "delayed_loop (Suc fuel) sops d = delayed_loop fuel sops ?d" using False s b w 2 by (simp add: Let_def)
      have i: "delayed_inv cap ?d" using Suc.prems(1) w(3) b(1) False
        by (auto simp: delayed_inv_def delayed_shape_def split: list.splits)
      have f: "delayed_sent ?d @ delayed_waiting ?d = delayed_sent d @ delayed_waiting d"
        using s w(4) b 2 by (simp add: delayed_sent_def delayed_waiting_def)
      have "length (delayed_waiting ?d) < fuel" using Suc.prems(2) b by (simp add: delayed_waiting_def)
      from Suc.IH [OF i this] e f show ?thesis by auto
    next
      case 3
      let ?d = "d\<lparr>dstream := Some s', front_pointer := front_pointer d + n\<rparr>"
      have e: "delayed_loop (Suc fuel) sops d = delayed_loop fuel sops ?d" using False s b w 3 by (simp add: Let_def)
      have i: "delayed_inv cap ?d" using Suc.prems(1) w(3) b(1) 3
        by (simp add: delayed_inv_def delayed_shape_def add.commute)
      have f: "delayed_sent ?d @ delayed_waiting ?d = delayed_sent d @ delayed_waiting d"
        using s w(4) b 3 by (simp add: delayed_sent_def delayed_waiting_def)
          (metis append_assoc append_take_drop_id drop_drop add.commute)
      have "length (delayed_waiting ?d) < fuel" using Suc.prems(2) b 3 by (simp add: delayed_waiting_def)
      from Suc.IH [OF i this] e f show ?thesis by auto
    qed
  qed
qed simp

lemma notified_simps [simp]:
  "delayed_inv cap (d\<lparr>dnotified := n\<rparr>) = delayed_inv cap d" "delayed_sent (d\<lparr>dnotified := n\<rparr>) = delayed_sent d"
  "delayed_waiting (d\<lparr>dnotified := n\<rparr>) = delayed_waiting d"
  by (cases "dbuffers d"; simp add: delayed_inv_def delayed_shape_def delayed_sent_def delayed_waiting_def)+

lemma write_ready_total:
  assumes "delayed_inv cap d" "length (delayed_waiting d) < fuel"
  shows "\<exists>d'. DelayedStream_write_ready fuel sops d = Inr d' \<and> delayed_inv cap d' \<and> dtimers d' = dtimers d
     \<and> delayed_sent d' @ delayed_waiting d' = delayed_sent d @ delayed_waiting d"
  using delayed_loop_law [OF assms] by (auto simp: DelayedStream_write_ready_def)

lemma write_ready_law:
  assumes "delayed_inv cap d" "DelayedStream_write_ready fuel sops d = Inr d'"
  shows "delayed_inv cap d' \<and> delayed_sent d' @ delayed_waiting d' = delayed_sent d @ delayed_waiting d"
proof -
  let ?n = "fuel + Suc (length (delayed_waiting d))"
  have "DelayedStream_write_ready ?n sops d = Inr d'" by (rule write_ready_more_fuel [OF assms(2)]) simp
  with write_ready_total [OF assms(1), of ?n] show ?thesis by auto
qed

lemma delayed_arrive_inv:
  "delayed_inv cap d \<Longrightarrow> 0 < dtimers d \<Longrightarrow> delayed_inv cap (d\<lparr>dtimers := dtimers d - 1, dwaiting := dwaiting d + 1\<rparr>)"
  by (simp add: delayed_inv_def delayed_shape_def split: list.splits)

lemma delayed_step_law:
  assumes "delayed_step sops d e d'" "delayed_inv cap d"
  shows "delayed_inv cap d' \<and> delayed_sent d' @ delayed_waiting d' = delayed_sent d @ delayed_waiting d @ e"
  using assms(1)
proof cases
  case (delayed_write data n)
  show ?thesis
  proof (cases "n = 0")
    case True
    with delayed_write assms(2) show ?thesis
      by (auto simp: DelayedStream_write_def Let_def result_simps min_def split: if_splits)
  next
    case False
    with delayed_write have d': "d' = d\<lparr>dbuffsize := dbuffsize d - n, dbuffers := dbuffers d @ [take n data], dtimers := dtimers d + 1\<rparr>"
      and n: "n \<le> dbuffsize d" "n \<le> length data"
      by (auto simp: DelayedStream_write_def Let_def result_simps split: if_splits)
    have "delayed_inv cap d'" using assms(2) n False
      by (auto simp: d' delayed_inv_def delayed_shape_def min_def split: list.splits)
    moreover have "front_pointer d \<le> length (concat (dbuffers d))"
      using assms(2) by (auto simp: delayed_inv_def delayed_shape_def split: list.splits)
    ultimately show ?thesis using delayed_write by (simp add: d' delayed_sent_def delayed_waiting_def)
  qed
next
  case (delayed_arrives fuel)
  from write_ready_law [OF delayed_arrive_inv [OF assms(2) delayed_arrives(2)]] delayed_arrives show ?thesis
    by (simp add: DelayedStream_after_delay_def delayed_sent_def delayed_waiting_def)
next
  case (delayed_ready fuel)
  with write_ready_law [OF assms(2)] show ?thesis by simp
qed

lemma delayed_trace_law:
  "delayed_trace sops d ds d' \<Longrightarrow> delayed_inv cap d \<Longrightarrow>
     delayed_inv cap d' \<and> delayed_sent d' @ delayed_waiting d' = delayed_sent d @ delayed_waiting d @ ds"
proof (induction rule: delayed_trace.induct)
  case (delayed_snoc d ds d' e d'')
  with delayed_step_law [OF delayed_snoc.hyps(2)] show ?case by (metis append_assoc)
qed simp

end

section \<open>The rate of a throttled stream\<close>

text \<open>
  Attempts to write with their clock readings, which never go back; \<open>ws\<close> are the sizes written, \<open>T'\<close> is the time of
  the last reading. The readings are far enough from the end of the 64-bit range for the sum with the elapsed
  time not to wrap.
\<close>

inductive throttled_trace :: "'s stream_ops \<Rightarrow> nat \<Rightarrow> 's throttled \<Rightarrow> nat list \<Rightarrow> nat \<Rightarrow> 's throttled \<Rightarrow> bool"
  for ops :: "'s stream_ops" where
  throttled_nil: "throttled_trace ops T t [] T t"
| throttled_snoc: "throttled_trace ops T t ws T' t' \<Longrightarrow> T' \<le> unat now \<Longrightarrow> now \<le> now' \<Longrightarrow>
    real (unat now') + real (length data) / mbps t' < 2 ^ 64 \<Longrightarrow>
    ThrottledStream_write ops now now' data t' = Inr (w, t'') \<Longrightarrow> throttled_trace ops T t (ws @ [w]) (unat now') t''"

text \<open>The last transmission that wrote anything.\<close>

definition last_written :: "nat list \<Rightarrow> nat" where
  "last_written ws = (if filter (\<lambda>w. w \<noteq> 0) ws = [] then 0 else last (filter (\<lambda>w. w \<noteq> 0) ws))"

lemma unat_elapse_time:
  assumes "0 < rate" "n \<le> m" "real (unat now) + real m / rate < 2 ^ 64"
  shows "unat (now + elapse_time rate n) = unat now + nat \<lfloor>real n / rate\<rfloor>"
proof -
  let ?e = "nat \<lfloor>real n / rate\<rfloor>"
  have "real n / rate \<le> real m / rate" using assms(1,2) by (simp add: divide_right_mono)
  moreover have "real ?e \<le> real n / rate" using assms(1) by simp
  ultimately have "real (unat now + ?e) < real (2 ^ 64)" using assms(3) by simp
  then have lt: "unat now + ?e < 2 ^ 64" by (simp only: of_nat_less_iff)
  have "elapse_time rate n = of_nat ?e" using assms(1) by (simp add: elapse_time_def)
  then show ?thesis using lt by (simp add: unat_word_ariths unat_of_nat)
qed

context byte_stream
begin

definition throttled_inv :: "real \<Rightarrow> 's throttled \<Rightarrow> bool" where
  "throttled_inv rate t \<longleftrightarrow> mbps t = rate \<and> (\<exists>s. tstream t = Some s \<and> sinv s)"

lemma throttled_write_law:
  assumes "throttled_inv rate t" "0 < rate" "now \<le> now'" "real (unat now') + real (length data) / rate < 2 ^ 64"
    and "ThrottledStream_write sops now now' data t = Inr (w, t')"
  shows "throttled_inv rate t' \<and> (if next_transmission t \<le> now
      then unat (next_transmission t') = unat now' + nat \<lfloor>real w / rate\<rfloor> else w = 0 \<and> t' = t)"
proof (cases "next_transmission t \<le> now")
  case True
  from assms(1) obtain s where s: "tstream t = Some s" "sinv s" "mbps t = rate" by (auto simp: throttled_inv_def)
  have ne: "data \<noteq> []" using assms(5) by (auto simp: ThrottledStream_write_def result_simps)
  from swrite_law [OF s(2) ne] obtain n s' where w: "swrite sops s data = Inr (n, s')" "n \<le> length data" "sinv s'" by blast
  have t': "t' = t\<lparr>tstream := Some s', next_transmission := now' + elapse_time rate n,
      twakeups := twakeups t @ [now' + elapse_time rate n]\<rparr>" "w = n"
    using assms(5) True s w ne by (auto simp: ThrottledStream_write_def ThrottledStream_can_transmit_def Let_def)
  show ?thesis using True s w(3) unat_elapse_time [OF assms(2) w(2) assms(4)] by (simp add: t' throttled_inv_def)
next
  case False
  with assms(1,5) show ?thesis by (auto simp: ThrottledStream_write_def ThrottledStream_can_transmit_def result_simps)
qed

lemma throttled_trace_law:
  assumes "throttled_trace sops T t ws T' t'" "0 < rate" "throttled_inv rate t" "unat (next_transmission t) \<le> T"
  shows "throttled_inv rate t' \<and> T \<le> T'
     \<and> real (sum_list ws) \<le> rate * (real (max T (unat (next_transmission t'))) - real T + real (length (filter (\<lambda>w. w \<noteq> 0) ws)))"
  using assms
proof (induction rule: throttled_trace.induct)
  case (throttled_snoc T t ws T' t' now now' data w t'')
  from throttled_snoc have IH: "throttled_inv rate t'" "T \<le> T'" "real (sum_list ws)
      \<le> rate * (real (max T (unat (next_transmission t'))) - real T + real (length (filter (\<lambda>w. w \<noteq> 0) ws)))" by auto
  have rate: "mbps t' = rate" using IH(1) by (simp add: throttled_inv_def)
  note W = throttled_write_law [OF IH(1) throttled_snoc.prems(1) throttled_snoc.hyps(3) _ throttled_snoc.hyps(5)]
  have W': "throttled_inv rate t''" "if next_transmission t' \<le> now
      then unat (next_transmission t'') = unat now' + nat \<lfloor>real w / rate\<rfloor> else w = 0 \<and> t'' = t'"
    using W throttled_snoc.hyps(4) by (simp_all add: rate)
  have le: "unat now \<le> unat now'" using throttled_snoc.hyps(3) by (simp add: word_le_nat_alt)
  show ?case
  proof (cases "next_transmission t' \<le> now")
    case False
    with W' IH throttled_snoc.hyps(2) le show ?thesis by simp
  next
    case True
    let ?k = "if w = 0 then 0 else 1 :: real" and ?f = "nat \<lfloor>real w / rate\<rfloor>"
    have "0 \<le> real w / rate" using throttled_snoc.prems(1) by simp
    then have "real ?f = of_int \<lfloor>real w / rate\<rfloor>" by simp
    then have "real w / rate \<le> real ?f + 1" by linarith
    then have "real w / rate \<le> real ?f + ?k" by (cases "w = 0") (simp_all del: of_nat_nat)
    then have w: "real w \<le> rate * (real ?f + ?k)" using throttled_snoc.prems(1) by (simp add: field_simps)
    have nt: "unat (next_transmission t'') = unat now' + ?f" using W' True by simp
    have "max T (unat (next_transmission t')) \<le> unat now'"
      using True le IH(2) throttled_snoc.hyps(2) by (simp add: word_le_nat_alt)
    then have "real (max T (unat (next_transmission t'))) + real ?f \<le> real (max T (unat (next_transmission t'')))"
      unfolding nt by linarith
    then have m: "rate * (real (max T (unat (next_transmission t'))) + real ?f) \<le> rate * real (max T (unat (next_transmission t'')))"
      using throttled_snoc.prems(1) by simp
    have "real (sum_list (ws @ [w])) \<le> rate * (real (max T (unat (next_transmission t''))) - real T
        + real (length (filter (\<lambda>w. w \<noteq> 0) (ws @ [w]))))"
      using IH(3) w m by (cases "w = 0") (simp_all add: algebra_simps)
    with W'(1) IH(2) throttled_snoc.hyps(2) le show ?thesis by linarith
  qed
qed simp

lemma throttled_trace_last:
  assumes "throttled_trace sops T t ws T' t'" "0 < rate" "throttled_inv rate t" "unat (next_transmission t) \<le> T"
  shows "real (sum_list ws) \<le> rate * (real T' - real T + real (length (filter (\<lambda>w. w \<noteq> 0) ws))) + real (last_written ws)"
  using assms
proof (induction rule: throttled_trace.induct)
  case (throttled_snoc T t ws T' t' now now' data w t'')
  let ?n = "real (length (filter (\<lambda>w. w \<noteq> 0) ws))"
  from throttled_trace_law [OF throttled_snoc.hyps(1) throttled_snoc.prems]
  have L: "throttled_inv rate t'" "T \<le> T'" "real (sum_list ws) \<le> rate * (real (max T (unat (next_transmission t'))) - real T + ?n)"
    by simp_all
  have le: "unat now \<le> unat now'" using throttled_snoc.hyps(3) by (simp add: word_le_nat_alt)
  have mono: "rate * (x - real T + ?n) \<le> rate * (real (unat now') - real T + ?n)" if "x \<le> real (unat now')" for x
    using throttled_snoc.prems(1) that by (intro mult_left_mono) linarith+
  show ?case
  proof (cases "w = 0")
    case True
    have "T' \<le> unat now'" using throttled_snoc.hyps(2) le by simp
    then have "real T' \<le> real (unat now')" by (simp only: of_nat_le_iff)
    from mono [OF this] throttled_snoc.IH [OF throttled_snoc.prems]
    have "real (sum_list ws) \<le> rate * (real (unat now') - real T + ?n) + real (last_written ws)" by linarith
    moreover have "sum_list (ws @ [w]) = sum_list ws" "last_written (ws @ [w]) = last_written ws"
      "filter (\<lambda>w. w \<noteq> 0) (ws @ [w]) = filter (\<lambda>w. w \<noteq> 0) ws"
      using True by (simp_all add: last_written_def)
    ultimately show ?thesis by simp
  next
    case False
    with throttled_snoc.hyps(5) have "next_transmission t' \<le> now"
      by (auto simp: ThrottledStream_write_def ThrottledStream_can_transmit_def result_simps split: if_splits)
    then have "max T (unat (next_transmission t')) \<le> unat now'"
      using le L(2) throttled_snoc.hyps(2) by (simp add: word_le_nat_alt)
    then have "real (max T (unat (next_transmission t'))) \<le> real (unat now')" by (simp only: of_nat_le_iff)
    from mono [OF this] L(3) have "real (sum_list ws) \<le> rate * (real (unat now') - real T + ?n)" by linarith
    also have "\<dots> \<le> rate * (real (unat now') - real T + (1 + ?n))"
      using throttled_snoc.prems(1) by (intro mult_left_mono) linarith+
    finally show ?thesis using False by (simp add: last_written_def)
  qed
qed (simp add: last_written_def)

end

section \<open>Properties\<close>

text \<open>C40: a delayed stream is a bounded FIFO. Over any byte stream and every interleaving of writes, timer calls and
  readiness events, what reached the stream followed by what is held is exactly what was accepted; the free space and the
  held blocks add up to the capacity; and \<open>write_ready\<close> returns.\<close>

theorem DelayedStream_fifo:
  assumes "byte_stream sops sinv written incoming" "sinv s" "delayed_trace sops (DelayedStream_init s cap) ds d"
  shows "\<exists>s'. dstream d = Some s' \<and> written s' @ drop (front_pointer d) (concat (dbuffers d)) = written s @ ds
     \<and> dbuffsize d + length (concat (dbuffers d)) = cap \<and> dwaiting d + dtimers d = length (dbuffers d)
     \<and> (\<exists>d'. DelayedStream_write_ready (cap + 1) sops d = Inr d')"
proof -
  note loc = assms(1)
  have "byte_stream.delayed_inv sinv cap (DelayedStream_init s cap)"
    using assms(2) by (simp add: byte_stream.delayed_inv_def [OF loc] delayed_shape_def DelayedStream_init_def)
  from byte_stream.delayed_trace_law [OF loc assms(3) this]
  have d: "byte_stream.delayed_inv sinv cap d" "byte_stream.delayed_sent written d @ delayed_waiting d = written s @ ds"
    by (simp_all add: byte_stream.delayed_sent_def [OF loc] DelayedStream_init_def delayed_waiting_def)
  have "length (delayed_waiting d) < cap + 1"
    using d(1) by (auto simp: byte_stream.delayed_inv_def [OF loc] delayed_shape_def delayed_waiting_def)
  from byte_stream.write_ready_total [OF loc d(1) this] d show ?thesis
    by (auto simp: byte_stream.delayed_inv_def [OF loc] delayed_shape_def byte_stream.delayed_sent_def [OF loc] delayed_waiting_def)
qed

theorem DelayedStream_fifo_witness:
  "\<exists>d. delayed_trace (FD_ops sock_kernel 0) (DelayedStream_init (sock_reactor \<lparr>rx = [], wx = [], tx = []\<rparr>) 3) [1, 2, 3] d
     \<and> dbuffsize d + length (concat (dbuffers d)) = 3 \<and> dbuffers d = [[1, 2, 3]]"
proof -
  let ?s = "sock_reactor \<lparr>rx = [], wx = [], tx = []\<rparr>"
  let ?d = "(DelayedStream_init ?s 3)\<lparr>dbuffsize := 0, dbuffers := [[1, 2, 3]], dtimers := 1\<rparr>"
  have "DelayedStream_write [1, 2, 3, 4] (DelayedStream_init ?s 3) = Inr (3, ?d)"
    by (simp add: DelayedStream_write_def DelayedStream_init_def Let_def)
  from delayed_snoc [OF delayed_nil delayed_write [OF this]]
  have t: "delayed_trace (FD_ops sock_kernel 0) (DelayedStream_init ?s 3) [1, 2, 3] ?d" by simp
  have "sock.fd_inv ?s" by (simp add: sock_reactor_def sock.fd_inv_def)
  from DelayedStream_fifo [OF sock.fd_stream.byte_stream_axioms this t] t show ?thesis by auto
qed

text \<open>C26: the rate limit holds. Whatever the attempts to write, at any later time the bytes written are at most the rate
  times the time since the start, plus one unit of time per transmission for the truncation of the elapsed time, plus
  the last transmission as long as its time has not passed: once a further transmission is allowed it no longer counts.\<close>

theorem ThrottledStream_rate_bound:
  assumes "byte_stream sops sinv written incoming" "sinv s" "0 < rate"
    and "throttled_trace sops T (ThrottledStream_init s rate) ws T' t" "T' \<le> unat now"
  shows "real (sum_list ws) \<le> rate * (real (unat now) - real T + real (length (filter (\<lambda>w. w \<noteq> 0) ws)))
     + (if ThrottledStream_can_transmit now t then 0 else real (last_written ws))"
proof -
  let ?n = "real (length (filter (\<lambda>w. w \<noteq> 0) ws))"
  have i: "byte_stream.throttled_inv sinv rate (ThrottledStream_init s rate)"
    using assms(2) by (simp add: byte_stream.throttled_inv_def [OF assms(1)] ThrottledStream_init_def)
  from byte_stream.throttled_trace_law [OF assms(1,4,3) i]
  have b: "T \<le> T'" "real (sum_list ws) \<le> rate * (real (max T (unat (next_transmission t))) - real T + ?n)"
    by (simp_all add: ThrottledStream_init_def)
  have mono: "rate * (x - real T + ?n) \<le> rate * (real (unat now) - real T + ?n)" if "x \<le> real (unat now)" for x
    using assms(3) that by (intro mult_left_mono) linarith+
  show ?thesis
  proof (cases "ThrottledStream_can_transmit now t")
    case True
    then have "max T (unat (next_transmission t)) \<le> unat now"
      using assms(5) b(1) by (simp add: ThrottledStream_can_transmit_def word_le_nat_alt)
    then have "real (max T (unat (next_transmission t))) \<le> real (unat now)" by (simp only: of_nat_le_iff)
    from mono [OF this] b(2) True show ?thesis by simp
  next
    case False
    from byte_stream.throttled_trace_last [OF assms(1,4,3) i]
    have "real (sum_list ws) \<le> rate * (real T' - real T + ?n) + real (last_written ws)"
      by (simp add: ThrottledStream_init_def)
    moreover have "rate * (real T' - real T + ?n) \<le> rate * (real (unat now) - real T + ?n)"
      by (rule mono) (use assms(5) in \<open>simp only: of_nat_le_iff\<close>)
    ultimately show ?thesis using False by simp
  qed
qed

theorem ThrottledStream_rate_bound_witness:
  "\<exists>t. throttled_trace (FD_ops sock_kernel 0) 10 (ThrottledStream_init (sock_reactor \<lparr>rx = [], wx = [4], tx = []\<rparr>) 2) [4] 10 t
     \<and> real (sum_list [4]) \<le> 2 * (real (unat (11 :: u64)) - real 10 + real (length (filter (\<lambda>w. w \<noteq> 0) [4 :: nat]))) + real (last_written [4])
     \<and> real (sum_list [4]) \<le> 2 * (real (unat (12 :: u64)) - real 10 + real (length (filter (\<lambda>w. w \<noteq> 0) [4 :: nat])))"
proof -
  let ?s = "sock_reactor \<lparr>rx = [], wx = [4], tx = []\<rparr>"
  let ?t = "ThrottledStream_init ?s 2"
  obtain s' where w: "swrite (FD_ops sock_kernel 0) ?s [1, 2, 3, 4, 5] = Inr (4, s')"
    by (auto simp: FD_ops_def sock_reactor_def FD_write_def sock_kernel_def sock_write_def)
  let ?t' = "?t\<lparr>tstream := Some s', next_transmission := 12, twakeups := [12]\<rparr>"
  have "ThrottledStream_write (FD_ops sock_kernel 0) 10 10 [1, 2, 3, 4, 5] ?t = Inr (4, ?t')"
    by (simp add: ThrottledStream_write_def ThrottledStream_can_transmit_def ThrottledStream_init_def w Let_def elapse_time_def)
  from throttled_snoc [OF throttled_nil, of 10 10 10 "[1, 2, 3, 4, 5]" ?t] this
  have t: "throttled_trace (FD_ops sock_kernel 0) 10 ?t [4] 10 ?t'" by (simp add: ThrottledStream_init_def)
  have i: "sock.fd_inv ?s" by (simp add: sock_reactor_def sock.fd_inv_def)
  have "ThrottledStream_can_transmit 12 ?t'" "\<not> ThrottledStream_can_transmit 11 ?t'"
    by (simp_all add: ThrottledStream_can_transmit_def)
  with ThrottledStream_rate_bound [OF sock.fd_stream.byte_stream_axioms i _ t, of 12]
    ThrottledStream_rate_bound [OF sock.fd_stream.byte_stream_axioms i _ t, of 11] t show ?thesis by auto
qed

end
