(* ===== verification/Ioutil.thy ===== *)
theory Ioutil
  imports Packet_Streams
begin

text \<open>
  \<^verbatim>\<open>libreactor/ioutil.cpp\<close> and \<^verbatim>\<open>streamutil.cpp\<close>: reading and writing a given amount through callbacks.

  A pending operation is a record of what its closure captures: the stream, the buffer with the position in it, whether
  the closure is still installed as the stream's callback, and the result given to the completer. The handler that
  the stream calls is the closure while it is installed and does nothing afterwards. Loops take fuel.
\<close>

section \<open>Operations\<close>

record 's io_read =
  rstream :: 's
  rgot :: bytes
  rsize :: nat
  rlistening :: bool
  rresult :: "bytes option"

fun ioutil_read_loop :: "nat \<Rightarrow> 's stream_ops \<Rightarrow> 's io_read \<Rightarrow> 's io_read result" where
  "ioutil_read_loop 0 ops p = Inl Fuel_exhausted"
| "ioutil_read_loop (Suc fuel) ops p =
     bindR (sread ops (rstream p) (rsize p - length (rgot p))) (\<lambda>r.
       let p1 = p\<lparr>rstream := snd r, rgot := rgot p @ fst r\<rparr> in
       if fst r = [] then Inr p1
       else if length (rgot p1) = rsize p then Inr (p1\<lparr>rlistening := False, rresult := Some (rgot p1)\<rparr>)
       else ioutil_read_loop fuel ops p1)"

definition ioutil_read :: "nat \<Rightarrow> 's stream_ops \<Rightarrow> 's \<Rightarrow> nat \<Rightarrow> 's io_read result" where
  "ioutil_read fuel ops s n =
     ioutil_read_loop fuel ops \<lparr>rstream = s, rgot = [], rsize = n, rlistening = True, rresult = None\<rparr>"

definition ioutil_read_ready :: "nat \<Rightarrow> 's stream_ops \<Rightarrow> 's io_read \<Rightarrow> 's io_read result" where
  "ioutil_read_ready fuel ops p = (if rlistening p then ioutil_read_loop fuel ops p else Inr p)"

record 's io_write =
  wstream :: 's
  wdata :: bytes
  wpointer :: nat
  wlistening :: bool
  wdone :: bool

fun ioutil_write_loop :: "nat \<Rightarrow> 's stream_ops \<Rightarrow> 's io_write \<Rightarrow> 's io_write result" where
  "ioutil_write_loop 0 ops p = Inl Fuel_exhausted"
| "ioutil_write_loop (Suc fuel) ops p =
     bindR (swrite ops (wstream p) (drop (wpointer p) (wdata p))) (\<lambda>r.
       let p1 = p\<lparr>wstream := snd r, wpointer := wpointer p + fst r\<rparr> in
       if fst r = 0 then Inr p1
       else if wpointer p1 = length (wdata p) then Inr (p1\<lparr>wlistening := False, wdone := True\<rparr>)
       else ioutil_write_loop fuel ops p1)"

definition ioutil_write :: "nat \<Rightarrow> 's stream_ops \<Rightarrow> 's \<Rightarrow> bytes \<Rightarrow> 's io_write result" where
  "ioutil_write fuel ops s data =
     ioutil_write_loop fuel ops \<lparr>wstream = s, wdata = data, wpointer = 0, wlistening = True, wdone = False\<rparr>"

definition ioutil_write_ready :: "nat \<Rightarrow> 's stream_ops \<Rightarrow> 's io_write \<Rightarrow> 's io_write result" where
  "ioutil_write_ready fuel ops p = (if wlistening p then ioutil_write_loop fuel ops p else Inr p)"

record 'p io_send =
  pstream :: 'p
  pdata :: bytes
  plistening :: bool
  pdone :: bool

definition ioutil_on_send :: "'p packet_ops \<Rightarrow> 'p io_send \<Rightarrow> 'p io_send result" where
  "ioutil_on_send ops p =
     (if pis_send_ready ops (pstream p)
      then bindR (psend ops (pstream p) (pdata p)) (\<lambda>q. Inr (p\<lparr>pstream := q, plistening := False, pdone := True\<rparr>))
      else Inr p)"

definition ioutil_send :: "'p packet_ops \<Rightarrow> 'p \<Rightarrow> bytes \<Rightarrow> 'p io_send result" where
  "ioutil_send ops q data = ioutil_on_send ops \<lparr>pstream = q, pdata = data, plistening = True, pdone = False\<rparr>"

definition ioutil_send_ready :: "'p packet_ops \<Rightarrow> 'p io_send \<Rightarrow> 'p io_send result" where
  "ioutil_send_ready ops p = (if plistening p then ioutil_on_send ops p else Inr p)"

text \<open>\<open>write_all\<close>: one write per event; the first event is scheduled.\<close>

record 's write_all =
  astream :: 's
  arest :: bytes
  adone :: bool

definition write_all :: "'s \<Rightarrow> bytes \<Rightarrow> 's write_all" where
  "write_all s data = \<lparr>astream = s, arest = data, adone = False\<rparr>"

definition write_all_ready :: "'s stream_ops \<Rightarrow> 's write_all \<Rightarrow> 's write_all result" where
  "write_all_ready ops p =
     (if arest p = [] then Inr p
      else bindR (swrite ops (astream p) (arest p)) (\<lambda>(n, s).
        let rest = drop n (arest p) in Inr (p\<lparr>astream := s, arest := rest, adone := (if rest = [] then True else adone p)\<rparr>)))"

text \<open>\<open>read_all\<close>: the callback's arguments, the final empty one included.\<close>

fun read_all_ready :: "nat \<Rightarrow> 's stream_ops \<Rightarrow> 's \<Rightarrow> (bytes list \<times> 's) result" where
  "read_all_ready 0 ops s = Inl Fuel_exhausted"
| "read_all_ready (Suc fuel) ops s = bindR (sread ops s 1024) (\<lambda>r.
     if fst r = [] then Inr ([[]], snd r)
     else bindR (read_all_ready fuel ops (snd r)) (\<lambda>q. Inr (fst r # fst q, snd q)))"

section \<open>Laws\<close>

context byte_stream
begin

definition read_inv :: "bytes \<Rightarrow> 's io_read \<Rightarrow> bool" where
  "read_inv inp p \<longleftrightarrow> sinv (rstream p) \<and> rgot p @ incoming (rstream p) = inp \<and> 0 < rsize p
     \<and> (if rlistening p then rresult p = None \<and> length (rgot p) < rsize p
        else rresult p = Some (rgot p) \<and> length (rgot p) = rsize p)"

lemma read_loop_law:
  assumes "read_inv inp p" "rlistening p" "rsize p - length (rgot p) < fuel"
  shows "\<exists>p'. ioutil_read_loop fuel sops p = Inr p' \<and> read_inv inp p' \<and> rsize p' = rsize p
     \<and> written (rstream p') = written (rstream p)"
  using assms
proof (induction fuel arbitrary: p)
  case (Suc fuel)
  let ?n = "rsize p - length (rgot p)"
  from Suc.prems have s: "sinv (rstream p)" by (simp add: read_inv_def)
  from sread_law [OF s, of ?n] obtain d s' where
    r: "sread sops (rstream p) ?n = Inr (d, s')" "length d \<le> ?n" "sinv s'" "written s' = written (rstream p)"
      "incoming (rstream p) = d @ incoming s'" by blast
  let ?p = "p\<lparr>rstream := s', rgot := rgot p @ d\<rparr>"
  consider "d = []" | "d \<noteq> []" "length (rgot p @ d) = rsize p" | "d \<noteq> []" "length (rgot p @ d) < rsize p"
  proof -
    have "length (rgot p @ d) \<le> rsize p" using r(2) Suc.prems(1,2) by (auto simp: read_inv_def)
    then show ?thesis using that by fastforce
  qed
  then show ?case
  proof cases
    case 1
    with Suc.prems r show ?thesis by (auto simp: read_inv_def Let_def)
  next
    case 2
    with Suc.prems r show ?thesis by (auto simp: read_inv_def Let_def)
  next
    case 3
    then have e: "ioutil_read_loop (Suc fuel) sops p = ioutil_read_loop fuel sops ?p" using r(1) by (simp add: Let_def)
    have i: "read_inv inp ?p" using Suc.prems r 3 by (simp add: read_inv_def)
    have "0 < length d" using 3(1) by simp
    then have "rsize ?p - length (rgot ?p) < fuel" using Suc.prems(3) 3(2) by (simp del: length_greater_0_conv)
    from Suc.IH [OF i _ this] Suc.prems(2) r(4) e show ?thesis by auto
  qed
qed simp

lemma read_ready_law:
  assumes "read_inv inp p" "rsize p < fuel"
  shows "\<exists>p'. ioutil_read_ready fuel sops p = Inr p' \<and> read_inv inp p' \<and> rsize p' = rsize p"
proof (cases "rlistening p")
  case True
  have "rsize p - length (rgot p) < fuel" using assms(2) by simp
  from read_loop_law [OF assms(1) True this] True show ?thesis by (auto simp: ioutil_read_ready_def)
qed (use assms in \<open>auto simp: ioutil_read_ready_def\<close>)

definition write_inv :: "bytes \<Rightarrow> bytes \<Rightarrow> 's io_write \<Rightarrow> bool" where
  "write_inv before data p \<longleftrightarrow> sinv (wstream p) \<and> wdata p = data \<and> written (wstream p) = before @ take (wpointer p) data
     \<and> (if wlistening p then \<not> wdone p \<and> wpointer p < length data else wdone p \<and> wpointer p = length data)"

lemma write_loop_law:
  assumes "write_inv before data p" "wlistening p" "length data - wpointer p < fuel"
  shows "\<exists>p'. ioutil_write_loop fuel sops p = Inr p' \<and> write_inv before data p'"
  using assms
proof (induction fuel arbitrary: p)
  case (Suc fuel)
  from Suc.prems have s: "sinv (wstream p)" "wdata p = data" "drop (wpointer p) data \<noteq> []" by (simp_all add: write_inv_def)
  from swrite_law [OF s(1,3)] obtain n s' where
    r: "swrite sops (wstream p) (drop (wpointer p) data) = Inr (n, s')" "n \<le> length data - wpointer p" "sinv s'"
      "written s' = written (wstream p) @ take n (drop (wpointer p) data)" by auto
  let ?p = "p\<lparr>wstream := s', wpointer := wpointer p + n\<rparr>"
  have w: "written s' = before @ take (wpointer p + n) data"
    using r(4) Suc.prems(1) by (simp add: write_inv_def take_add)
  consider "n = 0" | "n \<noteq> 0" "wpointer p + n = length data" | "n \<noteq> 0" "wpointer p + n < length data"
    using r(2) Suc.prems(1,2) by (force simp: write_inv_def)
  then show ?case
  proof cases
    case 1
    with Suc.prems r w s show ?thesis by (auto simp: write_inv_def Let_def)
  next
    case 2
    with Suc.prems r w s show ?thesis by (auto simp: write_inv_def Let_def)
  next
    case 3
    then have e: "ioutil_write_loop (Suc fuel) sops p = ioutil_write_loop fuel sops ?p" using r(1) s(2) by (simp add: Let_def)
    have i: "write_inv before data ?p" using Suc.prems r w s 3 by (simp add: write_inv_def)
    have "length data - wpointer ?p < fuel" using Suc.prems(3) 3 by simp
    from Suc.IH [OF i _ this] Suc.prems(2) e show ?thesis by auto
  qed
qed simp

lemma write_ready_inv:
  assumes "write_inv before data p" "length data < fuel"
  shows "\<exists>p'. ioutil_write_ready fuel sops p = Inr p' \<and> write_inv before data p'"
proof (cases "wlistening p")
  case True
  have "length data - wpointer p < fuel" using assms(2) by simp
  from write_loop_law [OF assms(1) True this] True show ?thesis by (auto simp: ioutil_write_ready_def)
qed (use assms in \<open>auto simp: ioutil_write_ready_def\<close>)

end

text \<open>The readiness events an operation sees.\<close>

inductive read_trace :: "'s stream_ops \<Rightarrow> nat \<Rightarrow> 's io_read \<Rightarrow> 's io_read \<Rightarrow> bool" for ops :: "'s stream_ops" and fuel :: nat where
  read_trace_nil: "read_trace ops fuel p p"
| read_trace_snoc: "read_trace ops fuel p q \<Longrightarrow> ioutil_read_ready fuel ops q = Inr q' \<Longrightarrow> read_trace ops fuel p q'"

inductive write_trace :: "'s stream_ops \<Rightarrow> nat \<Rightarrow> 's io_write \<Rightarrow> 's io_write \<Rightarrow> bool" for ops :: "'s stream_ops" and fuel :: nat where
  write_trace_nil: "write_trace ops fuel p p"
| write_trace_snoc: "write_trace ops fuel p q \<Longrightarrow> ioutil_write_ready fuel ops q = Inr q' \<Longrightarrow> write_trace ops fuel p q'"

context byte_stream
begin

lemma read_trace_law: "read_trace sops fuel p q \<Longrightarrow> read_inv inp p \<Longrightarrow> rsize p < fuel \<Longrightarrow> read_inv inp q \<and> rsize q = rsize p"
proof (induction rule: read_trace.induct)
  case (read_trace_snoc p q q')
  with read_ready_law [of inp q fuel] show ?case by auto
qed simp

lemma write_trace_law:
  "write_trace sops fuel p q \<Longrightarrow> write_inv before data p \<Longrightarrow> length data < fuel \<Longrightarrow> write_inv before data q"
proof (induction rule: write_trace.induct)
  case (write_trace_snoc p q q')
  with write_ready_inv [of before data q fuel] show ?case by auto
qed simp

end

section \<open>Properties\<close>

text \<open>C27: \<open>ioutil::read\<close> delivers exactly the requested bytes. Over any byte stream and however the input arrives, the call and
  every later readiness event return; the future is completed exactly when \<open>n\<close> bytes have arrived, with the next \<open>n\<close>
  bytes of the input, not one byte more is taken from the stream, and the callback is removed.\<close>

theorem ioutil_read_exact:
  assumes "byte_stream sops sinv written incoming" "sinv s" "0 < n" "n < fuel"
  shows "\<exists>p. ioutil_read fuel sops s n = Inr p \<and> (\<forall>q. read_trace sops fuel p q \<longrightarrow>
     rgot q @ incoming (rstream q) = incoming s
     \<and> (case rresult q of Some d \<Rightarrow> d = take n (incoming s) \<and> length d = n \<and> incoming (rstream q) = drop n (incoming s) \<and> \<not> rlistening q
        | None \<Rightarrow> rlistening q \<and> length (rgot q) < n)
     \<and> (\<exists>q'. ioutil_read_ready fuel sops q = Inr q'))"
proof -
  let ?p = "\<lparr>rstream = s, rgot = [], rsize = n, rlistening = True, rresult = None\<rparr>"
  note loc = assms(1)
  have i: "byte_stream.read_inv sinv incoming (incoming s) ?p"
    using assms(2,3) by (simp add: byte_stream.read_inv_def [OF loc])
  from byte_stream.read_loop_law [OF loc i, of fuel] assms(4) obtain p where
    p: "ioutil_read fuel sops s n = Inr p" "byte_stream.read_inv sinv incoming (incoming s) p" "rsize p = n"
    by (auto simp: ioutil_read_def)
  have "rgot q @ incoming (rstream q) = incoming s
     \<and> (case rresult q of Some d \<Rightarrow> d = take n (incoming s) \<and> length d = n \<and> incoming (rstream q) = drop n (incoming s) \<and> \<not> rlistening q
        | None \<Rightarrow> rlistening q \<and> length (rgot q) < n)
     \<and> (\<exists>q'. ioutil_read_ready fuel sops q = Inr q')" if "read_trace sops fuel p q" for q
  proof -
    from byte_stream.read_trace_law [OF loc that p(2)] p(3) assms(4)
    have q: "byte_stream.read_inv sinv incoming (incoming s) q" "rsize q = n" by simp_all
    then have e: "rgot q @ incoming (rstream q) = incoming s" by (simp add: byte_stream.read_inv_def [OF loc])
    from byte_stream.read_ready_law [OF loc q(1), of fuel] q assms(4) show ?thesis
      by (auto simp: byte_stream.read_inv_def [OF loc] e [symmetric] split: if_splits)
  qed
  with p(1) show ?thesis by blast
qed

theorem ioutil_read_exact_witness:
  "\<exists>p. ioutil_read 4 (FD_ops sock_kernel 0) (sock_reactor \<lparr>rx = [[1, 2], [3, 4]], wx = [], tx = []\<rparr>) 3 = Inr p
     \<and> rgot p @ concat (rx (kernel (rstream p))) = [1, 2, 3, 4]"
proof -
  let ?s = "sock_reactor \<lparr>rx = [[1, 2], [3, 4]], wx = [], tx = []\<rparr>"
  have i: "sock.fd_inv ?s" and inc: "concat (rx (kernel ?s)) = [1, 2, 3, 4]" by (simp_all add: sock_reactor_def sock.fd_inv_def)
  from ioutil_read_exact [OF sock.fd_stream.byte_stream_axioms i, of 3 4] inc show ?thesis
    by (auto intro: read_trace_nil)
qed

text \<open>\<open>ioutil::write\<close> writes all of its data once and in order. After the call and after every later readiness event what
  the stream got is a prefix of the data, the future is completed exactly when it is all of the data, and the
  callback is removed then.\<close>

theorem ioutil_write_complete:
  assumes "byte_stream sops sinv written incoming" "sinv s" "data \<noteq> []" "length data < fuel"
  shows "\<exists>p. ioutil_write fuel sops s data = Inr p \<and> (\<forall>q. write_trace sops fuel p q \<longrightarrow>
     written (wstream q) = written s @ take (wpointer q) data
     \<and> (wdone q \<longleftrightarrow> wpointer q = length data) \<and> (wlistening q \<longleftrightarrow> \<not> wdone q)
     \<and> (\<exists>q'. ioutil_write_ready fuel sops q = Inr q'))"
proof -
  let ?p = "\<lparr>wstream = s, wdata = data, wpointer = 0, wlistening = True, wdone = False\<rparr>"
  note loc = assms(1)
  have i: "byte_stream.write_inv sinv written (written s) data ?p"
    using assms(2,3) by (simp add: byte_stream.write_inv_def [OF loc])
  from byte_stream.write_loop_law [OF loc i, of fuel] assms(4) obtain p where
    p: "ioutil_write fuel sops s data = Inr p" "byte_stream.write_inv sinv written (written s) data p"
    by (auto simp: ioutil_write_def)
  have "written (wstream q) = written s @ take (wpointer q) data
     \<and> (wdone q \<longleftrightarrow> wpointer q = length data) \<and> (wlistening q \<longleftrightarrow> \<not> wdone q)
     \<and> (\<exists>q'. ioutil_write_ready fuel sops q = Inr q')" if "write_trace sops fuel p q" for q
  proof -
    from byte_stream.write_trace_law [OF loc that p(2) assms(4)]
    have q: "byte_stream.write_inv sinv written (written s) data q" .
    from byte_stream.write_ready_inv [OF loc q assms(4)] q show ?thesis
      by (auto simp: byte_stream.write_inv_def [OF loc] split: if_splits)
  qed
  with p(1) show ?thesis by blast
qed

theorem ioutil_write_complete_witness:
  "\<exists>p. ioutil_write 4 (FD_ops sock_kernel 0) (sock_reactor \<lparr>rx = [], wx = [2], tx = []\<rparr>) [5, 6, 7] = Inr p
     \<and> tx (kernel (wstream p)) = take (wpointer p) [5, 6, 7]"
proof -
  let ?s = "sock_reactor \<lparr>rx = [], wx = [2], tx = []\<rparr>"
  have i: "sock.fd_inv ?s" and t: "tx (kernel ?s) = []" by (simp_all add: sock_reactor_def sock.fd_inv_def)
  from ioutil_write_complete [OF sock.fd_stream.byte_stream_axioms i, of "[5, 6, 7]" 4] t show ?thesis
    by (auto intro: write_trace_nil)
qed

text \<open>A request for no bytes never completes. \<open>ioutil::read\<close> of zero bytes and \<open>write_all\<close> of an empty buffer leave their
  future unfinished, whatever events follow.\<close>

theorem ioutil_empty_never_completes:
  assumes "\<And>s. \<exists>s'. sread sops s 0 = Inr ([], s')"
  shows "(\<exists>p. ioutil_read (Suc fuel) sops s 0 = Inr p \<and> (\<forall>q. read_trace sops (Suc fuel) p q \<longrightarrow> rresult q = None))
     \<and> write_all_ready sops (write_all s []) = Inr (write_all s []) \<and> \<not> adone (write_all s [])"
proof -
  obtain s' where s': "sread sops s 0 = Inr ([], s')" using assms by blast
  let ?p = "\<lparr>rstream = s', rgot = [], rsize = 0, rlistening = True, rresult = None\<rparr>"
  have "rresult q = None \<and> rgot q = [] \<and> rsize q = 0 \<and> rlistening q" if "read_trace sops (Suc fuel) ?p q" for q
    using that
  proof (induction "?p" q rule: read_trace.induct)
    case (read_trace_snoc q q')
    obtain t where "sread sops (rstream q) 0 = Inr ([], t)" using assms by blast
    with read_trace_snoc show ?case by (auto simp: ioutil_read_ready_def Let_def)
  qed simp
  moreover have "ioutil_read (Suc fuel) sops s 0 = Inr ?p" using s' by (simp add: ioutil_read_def Let_def)
  ultimately show ?thesis by (auto simp: write_all_def write_all_ready_def)
qed

theorem ioutil_empty_never_completes_witness:
  "\<exists>p. ioutil_read 1 \<lparr>sread = (\<lambda>s n. Inr ([], s)), swrite = (\<lambda>s d. Inr (0, s)), sclose = (\<lambda>s. s)\<rparr> () 0 = Inr p \<and> rresult p = None"
  using ioutil_empty_never_completes [of "\<lparr>sread = (\<lambda>s n. Inr ([], s)), swrite = (\<lambda>s d. Inr (0, s)), sclose = (\<lambda>s. s)\<rparr>" 0 "()"]
  by (auto intro: read_trace_nil)

end
