(* ===== verification/Misc.thy ===== *)
theory Misc
  imports Prelude
begin

text \<open>
  \<^verbatim>\<open>libreactor/misc.cpp\<close> (hexadecimal strings), \<open>url_encode\<close> of \<^verbatim>\<open>logging.cpp\<close> and \<open>Buffer::human_repr\<close> of
  \<^verbatim>\<open>buffer.cpp\<close>. Strings are byte strings in ASCII; the character classes are those of the C locale, which has no
  letters above 127.
\<close>

section \<open>Hexadecimal\<close>

definition hex_digits :: bytes where
  "hex_digits = [48, 49, 50, 51, 52, 53, 54, 55, 56, 57, 97, 98, 99, 100, 101, 102]"

definition tolower_u8 :: "u8 \<Rightarrow> u8" where
  "tolower_u8 c = (if 65 \<le> c \<and> c \<le> 90 then c + 32 else c)"

fun find_digit :: "u8 \<Rightarrow> nat \<Rightarrow> bytes \<Rightarrow> nat result" where
  "find_digit d i [] = Inl (Thrown ''bad hex digit'')"
| "find_digit d i (h # hs) = (if d = h then Inr i else find_digit d (Suc i) hs)"

definition from_hex_digit :: "u8 \<Rightarrow> nat result" where
  "from_hex_digit d = find_digit (tolower_u8 d) 0 hex_digits"

text \<open>The 32-bit value \<open>(a << 8) | b\<close> is stored into a \<open>char\<close>.\<close>

definition hex_byte :: "nat \<Rightarrow> nat \<Rightarrow> u8" where
  "hex_byte a b = ucast (push_bit 8 (of_nat a :: u32) OR of_nat b)"

fun hex_decode_pairs :: "bytes \<Rightarrow> bytes result" where
  "hex_decode_pairs (x # y # s) =
     bindR (from_hex_digit x) (\<lambda>a. bindR (from_hex_digit y) (\<lambda>b. bindR (hex_decode_pairs s) (\<lambda>r. Inr (hex_byte a b # r))))"
| "hex_decode_pairs s = Inr []"

definition hex_decode :: "bytes \<Rightarrow> bytes result" where
  "hex_decode s = (if length s mod 2 \<noteq> 0 then Inl (Thrown ''odd length hex string'') else hex_decode_pairs s)"

text \<open>A byte printed in hexadecimal with width two and fill character zero.\<close>

definition hex2 :: "u8 \<Rightarrow> bytes" where
  "hex2 c = [hex_digits ! (unat c div 16), hex_digits ! (unat c mod 16)]"

definition hex_encode :: "bytes \<Rightarrow> bytes" where
  "hex_encode val = concat (map hex2 val)"

text \<open>The random device is the list of the numbers it yields.\<close>

definition random_hex_string :: "nat list \<Rightarrow> bytes" where
  "random_hex_string rnd = map (\<lambda>k. hex_digits ! k) rnd"

section \<open>Escaping\<close>

definition isalnum :: "u8 \<Rightarrow> bool" where
  "isalnum c \<longleftrightarrow> (48 \<le> c \<and> c \<le> 57) \<or> (65 \<le> c \<and> c \<le> 90) \<or> (97 \<le> c \<and> c \<le> 122)"

definition ispunct :: "u8 \<Rightarrow> bool" where
  "ispunct c \<longleftrightarrow> 33 \<le> c \<and> c \<le> 126 \<and> \<not> isalnum c"

definition url_safe :: "u8 \<Rightarrow> bool" where
  "url_safe c \<longleftrightarrow> isalnum c \<or> c = 45 \<or> c = 95 \<or> c = 46 \<or> c = 126"

definition human_safe :: "u8 \<Rightarrow> bool" where
  "human_safe c \<longleftrightarrow> (isalnum c \<or> c = 32 \<or> ispunct c) \<and> c \<noteq> 92"

definition url_encode :: "bytes \<Rightarrow> bytes" where
  "url_encode val = concat (map (\<lambda>c. if url_safe c then [c] else [37] @ hex2 c) val)"

definition Buffer_human_repr :: "bytes \<Rightarrow> bytes" where
  "Buffer_human_repr data = concat (map (\<lambda>c. if human_safe c then [c] else [92, 120] @ hex2 c) data)"

section \<open>Reading digits back\<close>

lemma find_digit_nth: "distinct hs \<Longrightarrow> k < length hs \<Longrightarrow> find_digit (hs ! k) i hs = Inr (i + k)"
  by (induction hs arbitrary: i k) (auto simp: nth_Cons nth_mem split: nat.splits)

lemma from_hex_digit_nth: "k < 16 \<Longrightarrow> from_hex_digit (hex_digits ! k) = Inr k"
proof -
  assume "k < 16"
  then have k: "k < length hex_digits" by (simp add: hex_digits_def)
  have "\<forall>d \<in> set hex_digits. tolower_u8 d = d" by (simp add: hex_digits_def tolower_u8_def)
  with k have "tolower_u8 (hex_digits ! k) = hex_digits ! k" by (meson nth_mem)
  moreover have "distinct hex_digits" by (simp add: hex_digits_def)
  ultimately show ?thesis using find_digit_nth [OF _ k, of 0] by (simp add: from_hex_digit_def)
qed

lemma nibbles: "unat (c :: u8) div 16 < 16" "unat c mod 16 < 16" "16 * (unat c div 16) + unat c mod 16 = unat c"
  using unat_less_2p [of c] by simp_all

definition hex_value :: "bytes \<Rightarrow> u8" where
  "hex_value ds = (case (from_hex_digit (ds ! 0), from_hex_digit (ds ! 1)) of
       (Inr a, Inr b) \<Rightarrow> of_nat (16 * a + b) | _ \<Rightarrow> 0)"

lemma hex_value_hex2: "hex_value (hex2 c) = c"
  using nibbles [of c] by (simp add: hex_value_def hex2_def from_hex_digit_nth)

text \<open>An escaping keeps safe characters and writes the others as a prefix and two digits.\<close>

locale escaping =
  fixes safe :: "u8 \<Rightarrow> bool" and prefix :: bytes
  assumes prefix_unsafe: "prefix \<noteq> []" "\<not> safe (hd prefix)"
begin

definition escape :: "bytes \<Rightarrow> bytes" where
  "escape val = concat (map (\<lambda>c. if safe c then [c] else prefix @ hex2 c) val)"

function unescape :: "bytes \<Rightarrow> bytes" where
  "unescape [] = []"
| "unescape (c # cs) = (if safe c then c # unescape cs
     else hex_value (take 2 (drop (length prefix - 1) cs)) # unescape (drop (length prefix + 1) cs))"
  by pat_completeness auto
termination
  by (relation "measure length") auto

lemma unescape_prefix: "unescape (prefix @ zs) = hex_value (take 2 zs) # unescape (drop 2 zs)"
proof -
  have e: "prefix @ zs = hd prefix # (tl prefix @ zs)" using prefix_unsafe(1) by simp
  have "length prefix + 1 = length (tl prefix) + 2" "length prefix - 1 = length (tl prefix)"
    using prefix_unsafe(1) by (simp_all add: Suc_le_eq)
  then have "drop (length prefix - 1) (tl prefix @ zs) = zs" "drop (length prefix + 1) (tl prefix @ zs) = drop 2 zs" by simp_all
  with prefix_unsafe(2) show ?thesis unfolding e by (simp only: unescape.simps if_False)
qed

lemma unescape_escape: "unescape (escape s) = s"
proof (induction s)
  case (Cons c cs)
  have h: "length (hex2 c) = 2" "take 2 (hex2 c) = hex2 c" "drop 2 (hex2 c) = []" by (simp_all add: hex2_def)
  have "escape (c # cs) = (if safe c then [c] else prefix @ hex2 c) @ escape cs" by (simp add: escape_def)
  with Cons.IH show ?case by (simp add: unescape_prefix h hex_value_hex2)
qed (simp add: escape_def)

end

interpretation url: escaping url_safe "[37]"
  by unfold_locales (simp_all add: url_safe_def isalnum_def)

interpretation human: escaping human_safe "[92, 120]"
  by unfold_locales (simp_all add: human_safe_def)

section \<open>Properties\<close>

lemma hex_byte_low: "b < 16 \<Longrightarrow> hex_byte a b = of_nat b"
proof -
  assume "b < 16"
  have "bit (hex_byte a b) n = bit (of_nat b :: u8) n" for n
    by (auto simp: hex_byte_def bit_simps)
  then show ?thesis by (rule bit_word_eqI)
qed

text \<open>\<open>hex_decode\<close> does not invert \<open>hex_encode\<close>. The shift by eight instead of four moves the first digit of every pair out
  of the byte: decoding an encoded string, or any string of hexadecimal digits, keeps only the low half of every byte.\<close>

theorem hex_decode_loses_high_digit:
  "hex_decode (hex_encode val) = Inr (map (\<lambda>c. of_nat (unat c mod 16)) val)"
proof -
  have "hex_decode_pairs (hex_encode val) = Inr (map (\<lambda>c. of_nat (unat c mod 16)) val)"
    using nibbles
    by (induction val) (simp_all add: hex_encode_def hex2_def from_hex_digit_nth hex_byte_low)
  moreover have "even (length (hex_encode val))"
    by (induction val) (simp_all add: hex_encode_def hex2_def)
  ultimately show ?thesis by (simp add: hex_decode_def)
qed

text \<open>Escaped strings can be told apart. Different strings have different encodings, both in \<open>url_encode\<close> and in
  \<open>human_repr\<close>, and an encoded URL contains only characters that are safe or part of an escape.\<close>

theorem escaping_injective:
  "(url_encode a = url_encode b \<longleftrightarrow> a = b) \<and> (Buffer_human_repr a = Buffer_human_repr b \<longleftrightarrow> a = b)
     \<and> (\<forall>c \<in> set (url_encode a). url_safe c \<or> c = 37)"
proof -
  have u: "url_encode = url.escape" by (rule ext) (simp add: url_encode_def url.escape_def)
  have h: "Buffer_human_repr = human.escape" by (rule ext) (simp add: Buffer_human_repr_def human.escape_def)
  have "hex_digits ! k \<in> set hex_digits" if "k < 16" for k using that by (intro nth_mem) (simp add: hex_digits_def)
  moreover have "\<forall>d \<in> set hex_digits. url_safe d" by (simp add: hex_digits_def url_safe_def isalnum_def)
  ultimately have "\<forall>d \<in> set (hex2 c). url_safe d" for c using nibbles [of c] by (simp add: hex2_def)
  then have "\<forall>c \<in> set (url_encode a). url_safe c \<or> c = 37" by (auto simp: url_encode_def)
  then show ?thesis unfolding u h by (metis url.unescape_escape human.unescape_escape)
qed

end
