(* ===== verification/Process.thy ===== *)
theory Process
  imports Prelude
begin

text \<open>
  \<^verbatim>\<open>libreactor/process.h\<close> and \<^verbatim>\<open>process.cpp\<close>: child processes.

  The table \<open>processes\<close> maps process numbers to processes. Callbacks are symbols; \<open>pcalls\<close> records their calls. The kernel is a
  parameter: the pipes it makes, and for the handler of SIGCHLD the successive results of \<open>waitpid\<close>, a process number with a
  status, 0 if children exist but none has finished, negative if there is none.
\<close>

section \<open>Starting\<close>

record popen =
  arguments :: "bytes list"
  target_fds :: "int list"

definition Popen_init :: popen where
  "Popen_init = \<lparr>arguments = [], target_fds = [0, 1, 2]\<rparr>"

definition Popen_arg :: "bytes \<Rightarrow> popen \<Rightarrow> popen" where
  "Popen_arg s p = p\<lparr>arguments := arguments p @ [s]\<rparr>"

definition Popen_args :: "bytes list \<Rightarrow> popen \<Rightarrow> popen" where
  "Popen_args ss p = foldl (\<lambda>q s. Popen_arg s q) p ss"

text \<open>\<open>pipe\<close> asks for a pipe in the place of a standard descriptor.\<close>

definition Popen_pipe :: "nat \<Rightarrow> popen \<Rightarrow> popen" where
  "Popen_pipe fd p = p\<lparr>target_fds := (target_fds p)[fd := - 1]\<rparr>"

section \<open>Descriptors\<close>

text \<open>
  The descriptors of a process: the open file and the close-on-exec flag of each number in use. A file was open before, or is an end
  of the pipe made for a standard descriptor.
\<close>

datatype 'x open_file = Existing 'x | Pipe_read nat | Pipe_write nat

type_synonym 'x descriptors = "int \<Rightarrow> ('x open_file \<times> bool) option"

definition set_close_on_exec :: "int \<Rightarrow> bool \<Rightarrow> 'x descriptors \<Rightarrow> 'x descriptors" where
  "set_close_on_exec d flag T = (case T d of None \<Rightarrow> T | Some (f, c) \<Rightarrow> T(d \<mapsto> (f, flag)))"

text \<open>
  \<open>init_pipe_fds\<close>: for every standard descriptor to be redirected a pipe, whose read end is the child's for its input and whose
  write end is the child's for its outputs; the other end is taken by the reactor, which sets its flag. \<open>pipes\<close> are the numbers of
  read and write end that \<open>pipe\<close> yields.
\<close>

fun init_pipe_fds :: "nat \<Rightarrow> int list \<Rightarrow> (int \<times> int) list \<Rightarrow> 'x descriptors \<Rightarrow>
    (int list \<times> int option list \<times> 'x descriptors) result" where
  "init_pipe_fds i [] pipes T = Inr ([], [], T)"
| "init_pipe_fds i (t # ts) pipes T =
     (if t = - 1 then
        (case pipes of
           [] \<Rightarrow> Inl (Thrown ''pipe'')
         | (r, w) # ps \<Rightarrow>
             (let (parent, child) = (if i = 0 then (w, r) else (r, w));
                  T' = set_close_on_exec parent True (T(r \<mapsto> (Pipe_read i, False), w \<mapsto> (Pipe_write i, False)))
              in bindR (init_pipe_fds (Suc i) ts ps T') (\<lambda>(ts', out, U). Inr (child # ts', Some parent # out, U))))
      else bindR (init_pipe_fds (Suc i) ts pipes T) (\<lambda>(ts', out, U). Inr (t # ts', None # out, U)))"

text \<open>
  \<open>dup2\<close> fails for a number not in use, which the code ignores, changes nothing for equal numbers, and otherwise copies without the
  flag. \<open>exec\<close> closes what has it.
\<close>

definition dup2 :: "int \<Rightarrow> int \<Rightarrow> 'x descriptors \<Rightarrow> 'x descriptors" where
  "dup2 a b T = (case T a of None \<Rightarrow> T | Some (f, c) \<Rightarrow> if a = b then T else T(b \<mapsto> (f, False)))"

definition after_exec :: "'x descriptors \<Rightarrow> int \<Rightarrow> 'x open_file option" where
  "after_exec T d = (case T d of Some (f, False) \<Rightarrow> Some f | _ \<Rightarrow> None)"

text \<open>The child of \<open>start_process\<close>: it begins with the descriptors of its parent.\<close>

definition start_process :: "int list \<Rightarrow> 'x descriptors \<Rightarrow> int \<Rightarrow> 'x open_file option" where
  "start_process targets T = after_exec (foldl (\<lambda>U i. dup2 (targets ! i) (int i) U) T [0..<3])"

text \<open>The constructor of \<open>Process\<close>: the reactor's ends, what the child has, and what is left to the parent.\<close>

definition Process_create :: "popen \<Rightarrow> (int \<times> int) list \<Rightarrow> 'x descriptors \<Rightarrow>
    (int option list \<times> (int \<Rightarrow> 'x open_file option) \<times> 'x descriptors) result" where
  "Process_create options pipes T =
     bindR (init_pipe_fds 0 (target_fds options) pipes T) (\<lambda>(targets, out, U).
       Inr (out, start_process targets U,
         foldl (\<lambda>U i. if out ! i \<noteq> None then U(targets ! i := None) else U) U [0..<3]))"

section \<open>Waiting\<close>

record 'f process =
  pid :: int
  on_finish :: "'f list"
  finished :: bool
  exit_code :: int

record 'f process_table =
  processes :: "int \<Rightarrow> 'f process option"
  initialized :: bool
  pcalls :: "('f \<times> int) list"

definition Popen_exec :: "int \<Rightarrow> 'f process_table \<Rightarrow> 'f process_table" where
  "Popen_exec p t = t\<lparr>processes := (processes t)(p \<mapsto> \<lparr>pid = p, on_finish = [], finished = False, exit_code = - 1\<rparr>)\<rparr>"

definition Process_wait :: "int \<Rightarrow> 'f \<Rightarrow> 'f process_table \<Rightarrow> 'f process_table result" where
  "Process_wait p f t = assertR (initialized t) (case processes t p of
       None \<Rightarrow> Inl Undefined_behaviour
     | Some proc \<Rightarrow> Inr (if finished proc then t\<lparr>pcalls := pcalls t @ [(f, exit_code proc)]\<rparr>
         else t\<lparr>processes := (processes t)(p \<mapsto> proc\<lparr>on_finish := on_finish proc @ [f]\<rparr>)\<rparr>))"

definition Process_init :: "'f process_table \<Rightarrow> 'f process_table" where
  "Process_init t = t\<lparr>initialized := True\<rparr>"

definition Popen_call :: "int \<Rightarrow> 'f \<Rightarrow> 'f process_table \<Rightarrow> 'f process_table result" where
  "Popen_call p f t = Process_wait p f (Popen_exec p t)"

text \<open>The continuation of \<open>check_call\<close>.\<close>

definition Popen_check :: "int \<Rightarrow> unit result" where
  "Popen_check ret = (if ret \<noteq> 0 then Inl (Thrown ''CalledProcessError'') else Inr ())"

definition WEXITSTATUS :: "nat \<Rightarrow> int" where
  "WEXITSTATUS status = int (status div 256 mod 256)"

definition reap :: "int \<Rightarrow> nat \<Rightarrow> 'f process_table \<Rightarrow> 'f process_table" where
  "reap p status t = (case processes t p of
       None \<Rightarrow> t
     | Some proc \<Rightarrow> t\<lparr>processes := (processes t)(p \<mapsto> proc\<lparr>finished := True, exit_code := WEXITSTATUS status\<rparr>),
         pcalls := pcalls t @ map (\<lambda>f. (f, WEXITSTATUS status)) (on_finish proc)\<rparr>)"

text \<open>The loop ends only when \<open>waitpid\<close> fails.\<close>

fun sigchld_handler :: "nat \<Rightarrow> (nat \<Rightarrow> int \<times> nat) \<Rightarrow> nat \<Rightarrow> 'f process_table \<Rightarrow> 'f process_table result" where
  "sigchld_handler 0 waitpid i t = Inl Fuel_exhausted"
| "sigchld_handler (Suc fuel) waitpid i t =
     (let (p, status) = waitpid i in
      if p < 0 then Inr t else sigchld_handler fuel waitpid (Suc i) (reap p status t))"

section \<open>Properties\<close>

lemma sigchld_run:
  "(\<forall>j < n. 0 \<le> fst (w (i + j))) \<Longrightarrow> fst (w (i + n)) < 0 \<Longrightarrow> n < fuel \<Longrightarrow>
     sigchld_handler fuel w i t = Inr (foldl (\<lambda>t j. reap (fst (w (i + j))) (snd (w (i + j))) t) t [0..<n])"
proof (induction n arbitrary: fuel i t)
  case 0
  then obtain f where "fuel = Suc f" by (cases fuel) auto
  with 0 show ?case by (simp add: case_prod_beta)
next
  case (Suc n)
  then obtain f where f: "fuel = Suc f" "n < f" by (cases fuel) auto
  have "\<forall>j < n. 0 \<le> fst (w (Suc i + j))" using Suc.prems(1) by auto
  with Suc.IH [of "Suc i" f "reap (fst (w i)) (snd (w i)) t"] f Suc.prems have
    "sigchld_handler fuel w i t = Inr (foldl (\<lambda>t j. reap (fst (w (Suc i + j))) (snd (w (Suc i + j))) t)
       (reap (fst (w i)) (snd (w i)) t) [0..<n])" by (auto simp: case_prod_beta)
  moreover have "[0..<Suc n] = 0 # map Suc [0..<n]" by (simp only: upt_conv_Cons map_Suc_upt)
  ultimately show ?case by (simp add: foldl_map)
qed

lemma sigchld_stuck: "(\<And>j. i \<le> j \<Longrightarrow> 0 \<le> fst (w j)) \<Longrightarrow> sigchld_handler fuel w i t = Inl Fuel_exhausted"
proof (induction fuel arbitrary: i t)
  case (Suc fuel)
  have "\<not> fst (w i) < 0" using Suc.prems [of i] by simp
  moreover have "\<And>j. Suc i \<le> j \<Longrightarrow> 0 \<le> fst (w j)" using Suc.prems by simp
  ultimately show ?case using Suc.IH [of "Suc i" "reap (fst (w i)) (snd (w i)) t"] by (simp add: case_prod_beta)
qed simp

text \<open>The handler of SIGCHLD returns only if no child is left. When \<open>waitpid\<close> fails after \<open>n\<close> results it has handled exactly these
  \<open>n\<close>, in order; while another child is still running \<open>waitpid\<close> keeps returning 0 and the handler never returns, which stops the
  event loop until that child ends.\<close>

theorem Process_sigchld_handler_returns:
  "(\<forall>n. (\<forall>j < n. 0 \<le> fst (waitpid j)) \<and> fst (waitpid n) < 0 \<longrightarrow>
       sigchld_handler (Suc n) waitpid 0 t = Inr (foldl (\<lambda>t j. reap (fst (waitpid j)) (snd (waitpid j)) t) t [0..<n]))
     \<and> ((\<forall>j. 0 \<le> fst (waitpid j)) \<longrightarrow> sigchld_handler fuel waitpid 0 t = Inl Fuel_exhausted)"
  using sigchld_run [of _ waitpid 0 _ t] sigchld_stuck [of 0 waitpid fuel t] by (simp del: sigchld_handler.simps)

definition example_table :: "nat process_table" where
  "example_table = Popen_exec 8 (Popen_exec 7 \<lparr>processes = Map.empty, initialized = True, pcalls = []\<rparr>)"

theorem Process_sigchld_handler_returns_witness:
  "sigchld_handler 1000 (\<lambda>j. if j = 0 then (7, 256) else (0, 0)) 0 example_table = Inl Fuel_exhausted"
  using Process_sigchld_handler_returns [of "\<lambda>j. if j = 0 then (7, 256) else (0, 0)" example_table 1000] by simp

text \<open>A process reports its exit code once to everybody who waits for it, whether they ask before or after it ends.\<close>

theorem Process_wait_reports_once:
  assumes "initialized t" "processes t p = Some proc" "\<not> finished proc"
  shows "\<exists>t1 t2. Process_wait p f t = Inr t1 \<and> pcalls t1 = pcalls t \<and> pcalls (reap p status t1)
       = pcalls t @ map (\<lambda>g. (g, WEXITSTATUS status)) (on_finish proc @ [f])
     \<and> Process_wait p f (reap p status t) = Inr t2
     \<and> pcalls t2 = pcalls t @ map (\<lambda>g. (g, WEXITSTATUS status)) (on_finish proc @ [f])"
  using assms by (simp add: Process_wait_def reap_def)

theorem Process_wait_reports_once_witness:
  "\<exists>t2. Process_wait 7 ''f'' (reap 7 256 (Popen_exec 7 \<lparr>processes = Map.empty, initialized = True, pcalls = []\<rparr>)) = Inr t2
     \<and> pcalls t2 = [(''f'', 1)]"
  using Process_wait_reports_once [of "Popen_exec 7 \<lparr>processes = Map.empty, initialized = True, pcalls = []\<rparr>" 7
      "\<lparr>pid = 7, on_finish = [], finished = False, exit_code = - 1\<rparr>" "''f''" 256]
  by (auto simp: Popen_exec_def WEXITSTATUS_def)

text \<open>The only descriptors an options object can have.\<close>

definition popen_ok :: "popen \<Rightarrow> bool" where
  "popen_ok p \<longleftrightarrow> length (target_fds p) = 3 \<and> (\<forall>i < 3. target_fds p ! i = int i \<or> target_fds p ! i = - 1)"

lemma popen_ok_built:
  "popen_ok Popen_init" "popen_ok p \<Longrightarrow> popen_ok (Popen_arg s p)" "popen_ok p \<Longrightarrow> popen_ok (Popen_args ss p)"
  "popen_ok p \<Longrightarrow> popen_ok (Popen_pipe fd p)"
proof -
  show "popen_ok Popen_init" by (auto simp: popen_ok_def Popen_init_def nth_Cons' numeral_eq_Suc less_Suc_eq)
  show arg: "popen_ok (Popen_arg s p)" if "popen_ok p" for s p using that by (simp add: popen_ok_def Popen_arg_def)
  show "popen_ok (Popen_args ss p)" if "popen_ok p" for p
    using that unfolding Popen_args_def by (induction ss arbitrary: p) (simp_all add: arg)
  show "popen_ok (Popen_pipe fd p)" if "popen_ok p"
    using that by (cases "fd < 3") (auto simp: popen_ok_def Popen_pipe_def nth_list_update)
qed

text \<open>The ends of the pipe for standard descriptor \<open>i\<close>.\<close>

abbreviation child_end :: "nat \<Rightarrow> 'x open_file" where
  "child_end i \<equiv> (if i = 0 then Pipe_read i else Pipe_write i)"

abbreviation parent_end :: "nat \<Rightarrow> 'x open_file" where
  "parent_end i \<equiv> (if i = 0 then Pipe_write i else Pipe_read i)"

lemma below_three: "(\<forall>i < 3. P i) \<longleftrightarrow> P 0 \<and> P 1 \<and> P (2 :: nat)"
  by (auto simp: numeral_eq_Suc less_Suc_eq)

text \<open>What \<open>init_pipe_fds\<close> leaves: the ends of new pipes under numbers that were free, and everything else as it was.\<close>

definition pipes_made :: "nat \<Rightarrow> int list \<Rightarrow> 'x descriptors \<Rightarrow> int list \<Rightarrow> int option list \<Rightarrow> 'x descriptors \<Rightarrow> bool" where
  "pipes_made i ts T targets out U \<longleftrightarrow> length targets = length ts \<and> length out = length ts
     \<and> (\<forall>k < length ts. ts ! k \<noteq> - 1 \<longrightarrow> out ! k = None \<and> targets ! k = ts ! k)
     \<and> (\<forall>k < length ts. ts ! k = - 1 \<longrightarrow> T (targets ! k) = None \<and> U (targets ! k) = Some (child_end (i + k), False)
          \<and> (\<exists>d. out ! k = Some d \<and> T d = None \<and> U d = Some (parent_end (i + k), True)))
     \<and> (\<forall>d. U d = T d \<or> T d = None \<and> (\<exists>k < length ts. ts ! k = - 1 \<and> (out ! k = Some d \<or> targets ! k = d)))"

lemma pipes_made_skip:
  "pipes_made (Suc i) ts T targets out U \<Longrightarrow> t \<noteq> - 1 \<Longrightarrow> pipes_made i (t # ts) T (t # targets) (None # out) U"
  by (simp add: pipes_made_def All_less_Suc2 Ex_less_Suc2)

lemma pipes_made_Cons:
  assumes "pipes_made (Suc i) ts T' targets out U" "T a = None" "T c = None"
    and "T' a = Some (parent_end i, True)" "T' c = Some (child_end i, False)" "\<And>d. d \<noteq> a \<Longrightarrow> d \<noteq> c \<Longrightarrow> T' d = T d"
  shows "pipes_made i (- 1 # ts) T (c # targets) (Some a # out) U"
proof -
  have same: "U d = T' d \<or> T' d = None \<and> (\<exists>k < length ts. ts ! k = - 1 \<and> (out ! k = Some d \<or> targets ! k = d))" for d
    using assms(1) unfolding pipes_made_def by blast
  have ac: "U a = T' a" "U c = T' c" using same [of a] same [of c] assms(4,5) by auto
  have free: "T d = None" if "T' d = None" for d using that assms(2-6) by (cases "d = a \<or> d = c") auto
  have "U d = T d \<or> T d = None \<and> (a = d \<or> c = d \<or> (\<exists>k < length ts. ts ! k = - 1 \<and> (out ! k = Some d \<or> targets ! k = d)))" for d
    using same [of d] assms(2,3,6) free by (cases "d = a \<or> d = c") auto
  moreover have "T (targets ! k) = None \<and> U (targets ! k) = Some (child_end (i + Suc k), False)
      \<and> (\<exists>d. out ! k = Some d \<and> T d = None \<and> U d = Some (parent_end (i + Suc k), True))"
    if "k < length ts" "ts ! k = - 1" for k
  proof -
    from assms(1) that have "T' (targets ! k) = None \<and> U (targets ! k) = Some (child_end (Suc i + k), False)
      \<and> (\<exists>d. out ! k = Some d \<and> T' d = None \<and> U d = Some (parent_end (Suc i + k), True))"
      unfolding pipes_made_def by blast
    with free show ?thesis by auto
  qed
  ultimately show ?thesis using assms(1-5) ac
    unfolding pipes_made_def by (simp add: All_less_Suc2 Ex_less_Suc2)
qed

lemma init_pipe_fds_law:
  "length ts \<le> length pipes \<Longrightarrow> distinct (concat (map (\<lambda>(r, w). [r, w]) pipes)) \<Longrightarrow>
     (\<forall>(r, w) \<in> set pipes. T r = None \<and> T w = None) \<Longrightarrow>
     \<exists>targets out U. init_pipe_fds i ts pipes T = Inr (targets, out, U) \<and> pipes_made i ts T targets out U"
proof (induction ts arbitrary: i pipes T)
  case (Cons t ts)
  show ?case
  proof (cases "t = - 1")
    case False
    from Cons.IH [of pipes T "Suc i"] Cons.prems obtain targets out U where
      "init_pipe_fds (Suc i) ts pipes T = Inr (targets, out, U)" "pipes_made (Suc i) ts T targets out U" by auto
    with False pipes_made_skip show ?thesis by auto
  next
    case True
    with Cons.prems(1) obtain r w ps where ps: "pipes = (r, w) # ps" by (cases pipes) auto
    define a c where "a = (if i = 0 then w else r)" and "c = (if i = 0 then r else w)"
    define T' where "T' = set_close_on_exec a True (T(r \<mapsto> (Pipe_read i, False), w \<mapsto> (Pipe_write i, False)))"
    have rw: "r \<noteq> w" "T a = None" "T c = None" "a \<noteq> c" using Cons.prems(2,3) by (auto simp: ps a_def c_def)
    have T': "T' a = Some (parent_end i, True)" "T' c = Some (child_end i, False)" "\<And>d. d \<noteq> a \<Longrightarrow> d \<noteq> c \<Longrightarrow> T' d = T d"
      using rw by (auto simp: T'_def set_close_on_exec_def a_def c_def)
    have "\<forall>(x, y) \<in> set ps. T' x = None \<and> T' y = None"
      using Cons.prems(2,3) T'(3) by (fastforce simp: ps a_def c_def)
    with Cons.IH [of ps T' "Suc i"] Cons.prems(1,2) obtain targets out U where
      ih: "init_pipe_fds (Suc i) ts ps T' = Inr (targets, out, U)" "pipes_made (Suc i) ts T' targets out U"
      by (auto simp: ps)
    have "init_pipe_fds i (t # ts) pipes T = Inr (c # targets, Some a # out, U)"
      using True ih(1) unfolding T'_def a_def c_def ps by (cases "i = 0") simp_all
    with pipes_made_Cons [OF ih(2) rw(2,3) T'] True show ?thesis by blast
  qed
qed (simp add: pipes_made_def)

text \<open>The three copies of the child do not overwrite what a later one needs.\<close>

lemma start_process_law:
  assumes "\<forall>i < 3. ts ! i = int i \<or> ts ! i \<notin> {0, 1, 2} \<and> T (ts ! i) \<noteq> None"
  shows "start_process ts T d = (if d \<in> {0, 1, 2} \<and> ts ! nat d \<noteq> d then map_option fst (T (ts ! nat d)) else after_exec T d)"
proof -
  have "dup2 (ts ! i) (int i) U = (if ts ! i = int i then U else U(int i := map_option (\<lambda>(f, c). (f, False)) (U (ts ! i))))"
    if "ts ! i = int i \<or> U (ts ! i) \<noteq> None" for i U
    using that by (auto simp: dup2_def split: option.splits)
  note d2 = this
  from assms have a: "ts ! 0 = 0 \<or> ts ! 0 \<notin> {0, 1, 2} \<and> T (ts ! 0) \<noteq> None" "ts ! 1 = 1 \<or> ts ! 1 \<notin> {0, 1, 2} \<and> T (ts ! 1) \<noteq> None"
    "ts ! 2 = 2 \<or> ts ! 2 \<notin> {0, 1, 2} \<and> T (ts ! 2) \<noteq> None" by (simp_all add: below_three)
  define U1 where "U1 = (if ts ! 0 = 0 then T else T(0 := map_option (\<lambda>(f, c). (f, False)) (T (ts ! 0))))"
  define U2 where "U2 = (if ts ! 1 = 1 then U1 else U1(1 := map_option (\<lambda>(f, c). (f, False)) (T (ts ! 1))))"
  define U3 where "U3 = (if ts ! 2 = 2 then U2 else U2(2 := map_option (\<lambda>(f, c). (f, False)) (T (ts ! 2))))"
  have "dup2 (ts ! 0) 0 T = U1" using d2 [of 0 T] a by (auto simp: U1_def)
  moreover have "dup2 (ts ! 1) 1 U1 = U2" using d2 [of 1 U1] a by (auto simp: U1_def U2_def)
  moreover have "dup2 (ts ! 2) 2 U2 = U3" using d2 [of 2 U2] a by (auto simp: U1_def U2_def U3_def)
  moreover have "[0..<3] = [0, 1, 2 :: nat]" by (simp add: upt_rec)
  ultimately have "start_process ts T = after_exec U3" by (simp add: start_process_def)
  then show ?thesis by (auto simp: U3_def U2_def U1_def after_exec_def split: option.splits)
qed

lemma foldl_close:
  "foldl (\<lambda>U i. if P i then U(g i := None) else U) U is d = (if \<exists>i \<in> set is. P i \<and> g i = d then None else U d)"
  by (induction "is" arbitrary: U) auto

lemma after_exec_Some: "after_exec T d = Some f \<longleftrightarrow> T d = Some (f, False)"
  by (simp add: after_exec_def split: option.splits prod.splits bool.splits)

text \<open>Pipes join the two processes as asked. The child of a process started with pipes reads its input from a pipe or writes its
  outputs to pipes, and has its parent's descriptors in place of the standard ones not redirected; the parent has the other end of each
  pipe and otherwise what it had before. No pipe has two ends of one kind in different processes, so closing an end is noticed at the other.\<close>

theorem Process_pipes_connected:
  assumes "popen_ok p" "T 0 \<noteq> None" "T 1 \<noteq> None" "T 2 \<noteq> None" "3 \<le> length pipes"
    and "distinct (concat (map (\<lambda>(r, w). [r, w]) pipes))" "\<forall>(r, w) \<in> set pipes. T r = None \<and> T w = None"
  shows "\<exists>out child V. Process_create p pipes T = Inr (out, child, V)
     \<and> (\<forall>i < 3. child (int i) = (if target_fds p ! i = - 1 then Some (child_end i) else after_exec T (int i)))
     \<and> (\<forall>i < 3. if target_fds p ! i = - 1 then \<exists>d. out ! i = Some d \<and> V d = Some (parent_end i, True) else out ! i = None)
     \<and> (\<forall>d. Some d \<notin> set out \<longrightarrow> V d = T d)
     \<and> (\<forall>d f. child d = Some f \<longrightarrow> after_exec T d = Some f \<or> (\<exists>i < 3. f = child_end i))"
proof -
  have len: "length (target_fds p) = 3" using assms(1) by (simp add: popen_ok_def)
  with init_pipe_fds_law [of "target_fds p" pipes T 0] assms(5-7) obtain targets out U where
    i: "init_pipe_fds 0 (target_fds p) pipes T = Inr (targets, out, U)" "pipes_made 0 (target_fds p) T targets out U" by auto
  have keeps: "targets ! k = int k" "out ! k = None" if "k < 3" "target_fds p ! k \<noteq> - 1" for k
    using i(2) that assms(1) by (auto simp: pipes_made_def popen_ok_def)
  have made: "T (targets ! k) = None" "U (targets ! k) = Some (child_end k, False)"
    "\<exists>d. out ! k = Some d \<and> T d = None \<and> U d = Some (parent_end k, True)" if "k < 3" "target_fds p ! k = - 1" for k
    using i(2) that len unfolding pipes_made_def by fastforce+
  have same: "U d = T d \<or> T d = None \<and> (\<exists>k < 3. target_fds p ! k = - 1 \<and> (out ! k = Some d \<or> targets ! k = d))" for d
    using i(2) len unfolding pipes_made_def by metis
  have std: "U d = T d" "T d \<noteq> None" if "d \<in> {0, 1, 2}" for d using same [of d] assms(2-4) that by auto
  have away: "targets ! k \<notin> {0, 1, 2}" if "k < 3" "target_fds p ! k = - 1" for k
    using made(1) [OF that] std(2) [of "targets ! k"] by blast
  have "\<forall>k < 3. targets ! k = int k \<or> targets ! k \<notin> {0, 1, 2} \<and> U (targets ! k) \<noteq> None"
    using keeps(1) away made(2) by fastforce
  note child = start_process_law [OF this]
  define V where "V = foldl (\<lambda>U i. if out ! i \<noteq> None then U(targets ! i := None) else U) U [0..<3]"
  have V: "V d = (if \<exists>i < 3. out ! i \<noteq> None \<and> targets ! i = d then None else U d)" for d
    unfolding V_def foldl_close by (simp add: Bex_def)
  have c: "start_process targets U (int k) = (if target_fds p ! k = - 1 then Some (child_end k) else after_exec T (int k))"
    if "k < 3" for k
  proof -
    have k: "int k \<in> {0, 1, 2}" using that by auto
    show ?thesis
    proof (cases "target_fds p ! k = - 1")
      case True
      with away [OF that True] made(2) [OF that True] k show ?thesis by (auto simp: child)
    next
      case False
      with keeps(1) [OF that False] std(1) [OF k] show ?thesis by (simp add: child after_exec_def)
    qed
  qed
  have "\<exists>d. out ! k = Some d \<and> V d = Some (parent_end k, True)" if k: "k < 3" "target_fds p ! k = - 1" for k
  proof -
    from made(3) [OF k] obtain d where d: "out ! k = Some d" "U d = Some (parent_end k, True)" by blast
    have "targets ! j \<noteq> d" if "j < 3" "out ! j \<noteq> None" for j
    proof -
      have "target_fds p ! j = - 1" using keeps(2) [OF that(1)] that(2) by auto
      with made(2) [OF that(1) this] d(2) show ?thesis by auto
    qed
    then have "V d = U d" using V [of d] by auto
    with d show ?thesis by simp
  qed
  then have "if target_fds p ! k = - 1 then \<exists>d. out ! k = Some d \<and> V d = Some (parent_end k, True) else out ! k = None"
    if "k < 3" for k
    using that keeps(2) by (cases "target_fds p ! k = - 1") (simp_all only: if_True if_False simp_thms)
  moreover have "V d = T d" if "Some d \<notin> set out" for d
  proof -
    have "out ! k \<noteq> Some d" if "k < 3" for k
      using \<open>Some d \<notin> set out\<close> i(2) len that unfolding pipes_made_def by (metis nth_mem)
    note no = this
    show ?thesis
    proof (cases "\<exists>j < 3. out ! j \<noteq> None \<and> targets ! j = d")
      case True
      then obtain j where j: "j < 3" "out ! j \<noteq> None" "targets ! j = d" by blast
      have "target_fds p ! j = - 1" using keeps(2) [OF j(1)] j(2) by auto
      with made(1) [OF j(1)] j True show ?thesis by (simp add: V)
    next
      case False
      have "U d = T d"
      proof (rule ccontr)
        assume "U d \<noteq> T d"
        with same [of d] no obtain k where k: "k < 3" "target_fds p ! k = - 1" "targets ! k = d" by blast
        from made(3) [OF k(1,2)] False k show False by auto
      qed
      then show ?thesis by (simp only: V False if_False)
    qed
  qed
  moreover have "after_exec T d = Some f \<or> (\<exists>k < 3. f = child_end k)" if f: "start_process targets U d = Some f" for d f
  proof (cases "d \<in> {0, 1, 2}")
    case True
    then have k: "nat d < 3" "int (nat d) = d" by auto
    with c [OF k(1)] f have "(if target_fds p ! nat d = - 1 then Some (child_end (nat d)) else after_exec T d) = Some f" by simp
    with k(1) show ?thesis by (metis option.inject)
  next
    case False
    with f have "after_exec U d = Some f" by (simp add: child split: if_splits)
    then have u: "U d = Some (f, False)" by (simp only: after_exec_Some)
    from same [of d] show ?thesis
    proof (elim disjE conjE exE)
      assume "U d = T d"
      with u show ?thesis by (simp add: after_exec_Some)
    next
      fix k assume k: "k < 3" "target_fds p ! k = - 1" "out ! k = Some d"
      from made(3) [OF k(1,2)] k(3) u show ?thesis by auto
    next
      fix k assume k: "k < 3" "target_fds p ! k = - 1" "targets ! k = d"
      from made(2) [OF k(1,2)] k u have "f = child_end k" by simp
      with k(1) show ?thesis by blast
    qed
  qed
  moreover have "Process_create p pipes T = Inr (out, start_process targets U, V)"
    by (simp add: Process_create_def i(1) V_def)
  ultimately show ?thesis using c by blast
qed

theorem Process_pipes_connected_witness:
  "\<exists>out child V. Process_create (Popen_pipe 0 (Popen_pipe 1 Popen_init)) [(3, 4), (5, 6), (7, 8)]
       [0 \<mapsto> (Existing ''in'', False), 1 \<mapsto> (Existing ''out'', False), 2 \<mapsto> (Existing ''err'', False)] = Inr (out, child, V)
     \<and> child 0 = Some (Pipe_read 0) \<and> child 1 = Some (Pipe_write 1) \<and> child 2 = Some (Existing ''err'')"
proof -
  let ?p = "Popen_pipe 0 (Popen_pipe 1 Popen_init)"
  let ?T = "[0 \<mapsto> (Existing ''in'', False), 1 \<mapsto> (Existing ''out'', False), 2 \<mapsto> (Existing ''err'', False)] :: string descriptors"
  have ok: "popen_ok ?p" by (intro popen_ok_built)
  have "target_fds ?p = [- 1, - 1, 2]" by (simp add: Popen_pipe_def Popen_init_def)
  with Process_pipes_connected [where T = ?T, OF ok, of "[(3, 4), (5, 6), (7, 8)]"] show ?thesis
    by (fastforce simp: below_three after_exec_def)
qed

end
