(* ===== verification/Queues.thy ===== *)
theory Queues
  imports Packet_Streams
begin

text \<open>
  \<^verbatim>\<open>multilink/packet_queue.cpp\<close> and \<^verbatim>\<open>multilink/write_queue.cpp\<close>: a bounded packet queue, and the queue that
  buffers packets in front of a packet stream. The lemmas are proved over the \<open>packet_sink\<close> contract:
  acceptance, refusal when full, FIFO order, the capacity bound, and that after every handler the queue
  is empty or the output is not ready.
\<close>

section \<open>PacketQueue\<close>

record packet_queue =
  queue :: "bytes list"
  qmtu :: nat
  max_count :: nat

text \<open>\<open>max_count = max_size / mtu\<close>; dividing by a zero MTU is undefined.\<close>

definition PacketQueue_init :: "nat \<Rightarrow> nat \<Rightarrow> packet_queue result" where
  "PacketQueue_init max_size mtu =
     (if mtu = 0 then Inl Undefined_behaviour
      else Inr \<lparr>queue = [], qmtu = mtu, max_count = max_size div mtu\<rparr>)"

definition PacketQueue_front :: "packet_queue \<Rightarrow> bytes result" where
  "PacketQueue_front q = (case queue q of [] \<Rightarrow> Inl Undefined_behaviour | d # _ \<Rightarrow> Inr d)"

definition PacketQueue_pop_front :: "packet_queue \<Rightarrow> packet_queue result" where
  "PacketQueue_pop_front q = (case queue q of [] \<Rightarrow> Inl Undefined_behaviour | _ # ds \<Rightarrow> Inr (q\<lparr>queue := ds\<rparr>))"

definition PacketQueue_empty :: "packet_queue \<Rightarrow> bool" where
  "PacketQueue_empty q \<longleftrightarrow> queue q = []"

definition PacketQueue_packet_count :: "packet_queue \<Rightarrow> nat" where
  "PacketQueue_packet_count q = length (queue q)"

definition PacketQueue_size_of :: "packet_queue \<Rightarrow> nat \<Rightarrow> nat result" where
  "PacketQueue_size_of q i = (if i < length (queue q) then Inr (length (queue q ! i)) else Inl Undefined_behaviour)"

definition PacketQueue_is_full :: "packet_queue \<Rightarrow> bool" where
  "PacketQueue_is_full q \<longleftrightarrow> max_count q \<le> length (queue q)"

definition PacketQueue_push_back :: "packet_queue \<Rightarrow> bytes \<Rightarrow> bool \<times> packet_queue" where
  "PacketQueue_push_back q data =
     (if PacketQueue_is_full q then (False, q) else (True, q\<lparr>queue := queue q @ [data]\<rparr>))"

section \<open>WriteQueue\<close>

definition WRITE_QUEUE_MTU :: nat where "WRITE_QUEUE_MTU = 4096"

record 'p write_queue =
  wout :: 'p
  wqueue :: packet_queue

definition WriteQueue_create :: "'p \<Rightarrow> nat \<Rightarrow> 'p write_queue result" where
  "WriteQueue_create out max_size =
     bindR (PacketQueue_init max_size WRITE_QUEUE_MTU) (\<lambda>q. Inr \<lparr>wout = out, wqueue = q\<rparr>)"

function WriteQueue_on_send_ready :: "'p packet_ops \<Rightarrow> 'p write_queue \<Rightarrow> 'p write_queue result" where
  "WriteQueue_on_send_ready ops w =
     (if \<not> PacketQueue_empty (wqueue w) \<and> pis_send_ready ops (wout w)
      then bindR (PacketQueue_front (wqueue w)) (\<lambda>d.
           bindR (psend ops (wout w) d) (\<lambda>out.
           bindR (PacketQueue_pop_front (wqueue w)) (\<lambda>q.
             WriteQueue_on_send_ready ops \<lparr>wout = out, wqueue = q\<rparr>)))
      else Inr w)"
  by pat_completeness auto
termination
  by (relation "measure (\<lambda>(ops, w). length (queue (wqueue w)))")
    (auto simp: PacketQueue_pop_front_def split: list.splits)

declare WriteQueue_on_send_ready.simps [simp del]

definition WriteQueue_send :: "'p packet_ops \<Rightarrow> 'p write_queue \<Rightarrow> bytes \<Rightarrow> (bool \<times> 'p write_queue) result" where
  "WriteQueue_send ops w data =
     (let (ok, q) = PacketQueue_push_back (wqueue w) data in
      if \<not> ok then Inr (False, w)
      else bindR (WriteQueue_on_send_ready ops (w\<lparr>wqueue := q\<rparr>)) (\<lambda>w'. Inr (True, w')))"

text \<open>The loop of \<open>write_null_packets\<close>, with a bound on its iterations.\<close>

fun write_null_packets :: "nat \<Rightarrow> 'p packet_ops \<Rightarrow> nat \<Rightarrow> 'p \<Rightarrow> 'p result" where
  "write_null_packets fuel ops packet_size out =
     (if pis_send_ready ops out
      then case fuel of
          0 \<Rightarrow> Inl Fuel_exhausted
        | Suc n \<Rightarrow> bindR (psend ops out (replicate packet_size 0)) (write_null_packets n ops packet_size)
      else Inr out)"

declare write_null_packets.simps [simp del]

section \<open>Over any packet sink\<close>

lemmas packet_queue_defs = PacketQueue_empty_def PacketQueue_front_def PacketQueue_pop_front_def
  PacketQueue_is_full_def PacketQueue_push_back_def

context packet_sink
begin

definition wq_flow :: "'p write_queue \<Rightarrow> 'o list" where
  "wq_flow w = emitted (wout w) @ concat (map enc (queue (wqueue w)))"

definition wq_inv :: "'p write_queue \<Rightarrow> bool" where
  "wq_inv w \<longleftrightarrow> pinv (wout w) \<and> length (queue (wqueue w)) \<le> max_count (wqueue w)
     \<and> (\<forall>d \<in> set (queue (wqueue w)). length d \<le> mtu)"

lemma on_send_ready_law:
  "wq_inv w \<Longrightarrow> \<exists>w'. WriteQueue_on_send_ready pops w = Inr w' \<and> wq_inv w' \<and> wq_flow w' = wq_flow w
     \<and> max_count (wqueue w') = max_count (wqueue w)
     \<and> (queue (wqueue w') = [] \<or> \<not> pis_send_ready pops (wout w'))"
proof (induction "length (queue (wqueue w))" arbitrary: w rule: less_induct)
  case less
  show ?case
  proof (cases "queue (wqueue w) = [] \<or> \<not> pis_send_ready pops (wout w)")
    case True
    with less.prems show ?thesis
      by (auto simp: WriteQueue_on_send_ready.simps [of pops w] packet_queue_defs)
  next
    case False
    then obtain d ds where q: "queue (wqueue w) = d # ds" and rdy: "pis_send_ready pops (wout w)"
      by (cases "queue (wqueue w)") auto
    from less.prems q psend_law [OF _ rdy, of d] obtain p' where
      s: "psend pops (wout w) d = Inr p'" "pinv p'" "emitted p' = emitted (wout w) @ enc d"
      by (auto simp: wq_inv_def)
    let ?v = "\<lparr>wout = p', wqueue = (wqueue w)\<lparr>queue := ds\<rparr>\<rparr>"
    have "wq_inv ?v" "wq_flow ?v = wq_flow w"
      using less.prems q s by (auto simp: wq_inv_def wq_flow_def)
    moreover have "WriteQueue_on_send_ready pops w = WriteQueue_on_send_ready pops ?v"
      using q rdy s by (simp add: WriteQueue_on_send_ready.simps [of pops w] packet_queue_defs)
    ultimately show ?thesis using less.hyps [of ?v] q by simp
  qed
qed

lemma wq_send_law:
  assumes "wq_inv w" "length d \<le> mtu"
  shows "\<exists>ok w'. WriteQueue_send pops w d = Inr (ok, w') \<and> wq_inv w'
     \<and> ok = (length (queue (wqueue w)) < max_count (wqueue w))
     \<and> wq_flow w' = wq_flow w @ (if ok then enc d else [])
     \<and> (ok \<longrightarrow> queue (wqueue w') = [] \<or> \<not> pis_send_ready pops (wout w'))"
proof (cases "PacketQueue_is_full (wqueue w)")
  case False
  let ?v = "w\<lparr>wqueue := (wqueue w)\<lparr>queue := queue (wqueue w) @ [d]\<rparr>\<rparr>"
  have "wq_inv ?v" "wq_flow ?v = wq_flow w @ enc d"
    using assms False by (auto simp: wq_inv_def wq_flow_def packet_queue_defs)
  from on_send_ready_law [OF this(1)] obtain w' where
    w': "WriteQueue_on_send_ready pops ?v = Inr w'" "wq_inv w'" "wq_flow w' = wq_flow ?v"
      "queue (wqueue w') = [] \<or> \<not> pis_send_ready pops (wout w')" by blast
  have "WriteQueue_send pops w d = Inr (True, w')"
    using False w'(1) by (simp add: WriteQueue_send_def PacketQueue_push_back_def)
  with w' False \<open>wq_flow ?v = wq_flow w @ enc d\<close> show ?thesis
    by (intro exI [of _ True] exI [of _ w']) (simp add: PacketQueue_is_full_def)
qed (use assms in \<open>auto simp: WriteQueue_send_def packet_queue_defs\<close>)

lemma write_null_law:
  assumes "0 < n0" "n0 \<le> mtu"
  shows "pinv p \<Longrightarrow> room p \<le> fuel \<Longrightarrow>
     \<exists>p' n. write_null_packets fuel pops n0 p = Inr p' \<and> pinv p' \<and> \<not> pis_send_ready pops p'
       \<and> n \<le> room p \<and> emitted p' = emitted p @ concat (replicate n (enc (replicate n0 0)))"
proof (induction fuel arbitrary: p)
  case 0
  then have "\<not> pis_send_ready pops p"
    using psend_law [of p "replicate n0 0"] room_law [of p "replicate n0 0"] assms by fastforce
  with 0 show ?case by (simp add: write_null_packets.simps)
next
  case (Suc fuel)
  show ?case
  proof (cases "pis_send_ready pops p")
    case False
    with Suc.prems show ?thesis
      by (intro exI [of _ p] exI [of _ 0]) (simp add: write_null_packets.simps)
  next
    case True
    from psend_law [OF Suc.prems(1) True, of "replicate n0 0"] assms obtain q where
      q: "psend pops p (replicate n0 0) = Inr q" "pinv q" "emitted q = emitted p @ enc (replicate n0 0)"
      by auto
    have lt: "room q < room p" by (rule room_law [OF Suc.prems(1) True _ q(1)]) (use assms in simp)
    with Suc.prems have "room q \<le> fuel" by linarith
    from Suc.IH [OF q(2) this] obtain p' n where
      "write_null_packets fuel pops n0 q = Inr p'" "pinv p'" "\<not> pis_send_ready pops p'" "n \<le> room q"
      "emitted p' = emitted q @ concat (replicate n (enc (replicate n0 0)))" by blast
    with q lt True show ?thesis
      by (intro exI [of _ p'] exI [of _ "Suc n"]) (simp add: write_null_packets.simps [of "Suc fuel"])
  qed
qed

end

section \<open>Properties\<close>

text \<open>A \<open>WriteQueue\<close> over any sink that meets its contract is a bounded FIFO: \<open>send\<close> never fails, is
  refused exactly when \<open>max_count\<close> packets wait, appends the packet to what is emitted or waiting when
  it is accepted and changes nothing otherwise, keeps the capacity bound, and leaves the queue empty or
  the output not ready.\<close>

theorem WriteQueue_send_fifo:
  assumes "packet_sink pops pinv emitted enc room mtu" "pinv (wout w)" "length d \<le> mtu"
    and "length (queue (wqueue w)) \<le> max_count (wqueue w)" "\<forall>e \<in> set (queue (wqueue w)). length e \<le> mtu"
  shows "\<exists>ok w'. WriteQueue_send pops w d = Inr (ok, w')
     \<and> ok = (length (queue (wqueue w)) < max_count (wqueue w))
     \<and> emitted (wout w') @ concat (map enc (queue (wqueue w')))
         = emitted (wout w) @ concat (map enc (queue (wqueue w))) @ (if ok then enc d else [])
     \<and> length (queue (wqueue w')) \<le> max_count (wqueue w')
     \<and> (ok \<longrightarrow> queue (wqueue w') = [] \<or> \<not> pis_send_ready pops (wout w'))"
proof -
  have inv: "packet_sink.wq_inv pinv mtu w"
    using assms by (simp add: packet_sink.wq_inv_def [OF assms(1)])
  from packet_sink.wq_send_law [OF assms(1) inv assms(3)] show ?thesis
    by (auto simp: packet_sink.wq_flow_def [OF assms(1)] packet_sink.wq_inv_def [OF assms(1)])
qed

theorem WriteQueue_send_fifo_witness:
  "\<exists>ok w'. WriteQueue_send (LengthPacketStream_ops (FD_ops sock_kernel 0))
       \<lparr>wout = LengthPacketStream_create (sock_reactor \<lparr>rx = [], wx = [], tx = []\<rparr>),
        wqueue = \<lparr>queue = [], qmtu = 4096, max_count = 1\<rparr>\<rparr> [9] = Inr (ok, w') \<and> ok"
proof -
  let ?w = "\<lparr>wout = LengthPacketStream_create (sock_reactor \<lparr>rx = [], wx = [], tx = []\<rparr>),
        wqueue = \<lparr>queue = [], qmtu = 4096, max_count = 1\<rparr>\<rparr>"
  have "sock.fd_inv (stream (wout ?w))" "length [9] \<le> PACKET_MTU - 4"
    by (simp_all add: LengthPacketStream_create_def sock_reactor_def sock.fd_inv_def PACKET_MTU_def)
  from WriteQueue_send_fifo [OF sock.fd_stream.len.packet_sink_axioms this] show ?thesis by force
qed

text \<open>\<open>write_null_packets\<close> terminates over every sink whose readiness runs out: as many iterations as
  the sink has room for are enough, and when it returns the sink is not ready and has emitted only
  zero packets.\<close>

theorem write_null_packets_terminates:
  assumes "packet_sink pops pinv emitted enc room mtu" "pinv p" "0 < n0" "n0 \<le> mtu" "room p \<le> fuel"
  shows "\<exists>p' n. write_null_packets fuel pops n0 p = Inr p' \<and> \<not> pis_send_ready pops p' \<and> n \<le> room p
           \<and> emitted p' = emitted p @ concat (replicate n (enc (replicate n0 0)))"
  using packet_sink.write_null_law [OF assms(1,3,4,2,5)] by blast

theorem write_null_packets_terminates_witness:
  "\<exists>p' n. write_null_packets 1 (FreePacketStream_ops (FD_ops sock_kernel 0)) 3
       (FreePacketStream_create (sock_reactor \<lparr>rx = [], wx = [], tx = []\<rparr>) 8192) = Inr p' \<and> n \<le> (1 :: nat)
     \<and> \<not> FreeWriterPacketStream_is_send_ready p'"
  using write_null_packets_terminates [OF sock.fd_stream.free.packet_sink_axioms,
      of "FreePacketStream_create (sock_reactor \<lparr>rx = [], wx = [], tx = []\<rparr>) 8192" 3 1]
  by (auto simp: FreePacketStream_create_def sock_reactor_def sock.fd_inv_def PACKET_MTU_def
      FreePacketStream_ops_def)

end
