(* ===== verification/Stats.thy ===== *)
theory Stats
  imports Prelude
begin

text \<open>
  \<^verbatim>\<open>multilink/multilink_stats.cpp\<close>: windowed statistics and the bandwidth estimator of a link.

  \<open>long long\<close> values are integers (their overflow is undefined in C++ and out of reach of the values
  the program feeds in), \<open>double\<close> results are reals: rounding is not modelled. The estimator's byte
  counters and times are 64-bit words. The lemmas show that the incrementally maintained sums are the
  sums over the window, that \<open>mean\<close> and \<open>stddev\<close> are those of the last \<open>count\<close> values, and when the
  estimator can fail.
\<close>

section \<open>Stats\<close>

record stats =
  svalues :: "int list"
  scount :: int
  ssum :: int
  ssum_of_squares :: int

definition Stats_init :: "int \<Rightarrow> stats" where
  "Stats_init cnt = \<lparr>svalues = [], scount = cnt, ssum = 0, ssum_of_squares = 0\<rparr>"

definition Stats_remove :: "stats \<Rightarrow> stats result" where
  "Stats_remove s = (case svalues s of
       [] \<Rightarrow> Inl Undefined_behaviour
     | val # rest \<Rightarrow> Inr (s\<lparr>svalues := rest, ssum_of_squares := ssum_of_squares s - val * val,
                            ssum := ssum s - val\<rparr>))"

definition Stats_add :: "int \<Rightarrow> stats \<Rightarrow> stats" where
  "Stats_add val s = s\<lparr>svalues := svalues s @ [val], ssum_of_squares := ssum_of_squares s + val * val,
                       ssum := ssum s + val\<rparr>"

definition Stats_mean :: "stats \<Rightarrow> real" where
  "Stats_mean s = (if svalues s = [] then 0 else of_int (ssum s) / of_nat (length (svalues s)))"

definition Stats_stddev :: "stats \<Rightarrow> real" where
  "Stats_stddev s = (if svalues s = [] then 0
     else let m = Stats_mean s
          in sqrt (of_int (ssum_of_squares s) / of_nat (length (svalues s)) - m * m))"

definition Stats_add_and_remove_back :: "int \<Rightarrow> stats \<Rightarrow> stats result" where
  "Stats_add_and_remove_back val s =
     bindR (if int (length (svalues s)) \<ge> scount s then Stats_remove s else Inr s) (\<lambda>s'. Inr (Stats_add val s'))"

definition Stats_get_sum :: "stats \<Rightarrow> int" where
  "Stats_get_sum s = ssum s"

section \<open>BandwidthEstimator\<close>

definition BURST_TIMEOUT :: u64 where "BURST_TIMEOUT = 60 * 1000"
definition TRANSMIT_KEEP :: nat where "TRANSMIT_KEEP = 400"

record bandwidth_estimator =
  overall :: stats
  transmitted :: "(u64 \<times> u64) list"
  transmit_size :: u64
  burst_ends_at :: u64
  burst_running :: bool

definition BandwidthEstimator_init :: bandwidth_estimator where
  "BandwidthEstimator_init = \<lparr>overall = Stats_init 1000, transmitted = [], transmit_size = 0,
     burst_ends_at = 0, burst_running = False\<rparr>"

text \<open>
  \<open>data_written\<close>: during a burst the sample is appended, the window trimmed to its last
  \<open>TRANSMIT_KEEP\<close> entries and, once full, a throughput sample is taken. Integer division by a zero
  \<open>delta\<close> is undefined.
\<close>

definition push_transmitted :: "u64 \<Rightarrow> u64 \<Rightarrow> bandwidth_estimator \<Rightarrow> bandwidth_estimator" where
  "push_transmitted time bytes b =
     (let b1 = b\<lparr>transmitted := transmitted b @ [(time, bytes)], transmit_size := transmit_size b + bytes\<rparr>
      in if length (transmitted b1) > TRANSMIT_KEEP
         then b1\<lparr>transmit_size := transmit_size b1 - snd (hd (transmitted b1)), transmitted := tl (transmitted b1)\<rparr>
         else b1)"

definition BandwidthEstimator_data_written ::
    "u64 \<Rightarrow> u64 \<Rightarrow> bandwidth_estimator \<Rightarrow> bandwidth_estimator result" where
  "BandwidthEstimator_data_written time bytes b =
     (if burst_running b \<or> time < burst_ends_at b then
        let b' = push_transmitted time bytes b in
        if length (transmitted b') < TRANSMIT_KEEP then Inr b'
        else let delta = time - fst (hd (transmitted b')) in
          if delta = 0 then Inl Undefined_behaviour
          else bindR (Stats_add_and_remove_back (sint (transmit_size b' * 1000 div delta)) (overall b'))
                 (\<lambda>s. Inr (b'\<lparr>overall := s\<rparr>))
      else Inr (b\<lparr>transmit_size := 0, transmitted := []\<rparr>))"

definition BandwidthEstimator_write_ready :: "u64 \<Rightarrow> bandwidth_estimator \<Rightarrow> bandwidth_estimator" where
  "BandwidthEstimator_write_ready time b = b"

definition BandwidthEstimator_output_queue_full :: "u64 \<Rightarrow> bandwidth_estimator \<Rightarrow> bandwidth_estimator" where
  "BandwidthEstimator_output_queue_full time b = b\<lparr>burst_running := True\<rparr>"

definition BandwidthEstimator_input_queue_empty :: "u64 \<Rightarrow> bandwidth_estimator \<Rightarrow> bandwidth_estimator" where
  "BandwidthEstimator_input_queue_empty time b =
     (if burst_running b then b\<lparr>burst_running := False, burst_ends_at := time + BURST_TIMEOUT\<rparr> else b)"

definition BandwidthEstimator_bandwidth_mbps :: "bandwidth_estimator \<Rightarrow> real" where
  "BandwidthEstimator_bandwidth_mbps b = max (Stats_mean (overall b) / 1000) (1 / 10)"

section \<open>The window\<close>

definition stats_ok :: "stats \<Rightarrow> bool" where
  "stats_ok s \<longleftrightarrow> 1 \<le> scount s \<and> int (length (svalues s)) \<le> scount s \<and> ssum s = sum_list (svalues s)
     \<and> ssum_of_squares s = (\<Sum>v \<leftarrow> svalues s. v * v)"

text \<open>The last \<open>n\<close> elements of a list.\<close>

definition last_n :: "nat \<Rightarrow> 'a list \<Rightarrow> 'a list" where
  "last_n n xs = drop (length xs - n) xs"

lemma last_n_snoc:
  "0 < n \<Longrightarrow> last_n n (xs @ [x]) = (if length (last_n n xs) < n then last_n n xs else tl (last_n n xs)) @ [x]"
  by (auto simp: last_n_def tl_drop drop_Suc [symmetric] Suc_diff_le not_less)

lemma Stats_init_ok: "1 \<le> c \<Longrightarrow> stats_ok (Stats_init c)"
  by (simp add: stats_ok_def Stats_init_def)

lemma Stats_add_and_remove_back_law:
  assumes "stats_ok s"
  shows "\<exists>s'. Stats_add_and_remove_back v s = Inr s' \<and> stats_ok s' \<and> scount s' = scount s
     \<and> svalues s' = (if int (length (svalues s)) < scount s then svalues s else tl (svalues s)) @ [v]"
  using assms
  by (auto simp: Stats_add_and_remove_back_def Stats_remove_def Stats_add_def stats_ok_def not_less
      split: list.splits)

fun stats_feed :: "int list \<Rightarrow> stats \<Rightarrow> stats result" where
  "stats_feed [] s = Inr s"
| "stats_feed (v # vs) s = bindR (Stats_add_and_remove_back v s) (stats_feed vs)"

lemma stats_feed_window:
  assumes "stats_ok s" "svalues s = last_n (nat (scount s)) ws"
  shows "\<exists>s'. stats_feed vs s = Inr s' \<and> stats_ok s' \<and> svalues s' = last_n (nat (scount s)) (ws @ vs)"
  using assms
proof (induction vs arbitrary: s ws)
  case (Cons v vs)
  from Stats_add_and_remove_back_law [OF Cons.prems(1)] obtain t where
    t: "Stats_add_and_remove_back v s = Inr t" "stats_ok t" "scount t = scount s"
      "svalues t = (if int (length (svalues s)) < scount s then svalues s else tl (svalues s)) @ [v]"
    by blast
  have c: "0 < nat (scount s)" using Cons.prems(1) by (simp add: stats_ok_def)
  have "svalues t = last_n (nat (scount t)) (ws @ [v])"
    using t(3,4) Cons.prems(2) c by (simp add: last_n_snoc zless_nat_eq_int_zless)
  from Cons.IH [OF t(2) this] t(1,3) show ?case by simp
qed auto

lemma variance_identity:
  fixes xs :: "real list"
  assumes "xs \<noteq> []"
  defines "n \<equiv> real (length xs)" and "m \<equiv> sum_list xs / real (length xs)"
  shows "(\<Sum>x \<leftarrow> xs. (x - m)\<^sup>2) / n = (\<Sum>x \<leftarrow> xs. x * x) / n - m * m"
proof -
  have e: "(\<Sum>x \<leftarrow> ys. (x - m)\<^sup>2) = (\<Sum>x \<leftarrow> ys. x * x) - 2 * m * sum_list ys + real (length ys) * (m * m)" for ys
    by (induction ys) (simp_all add: power2_eq_square algebra_simps)
  have s: "sum_list xs = n * m" using assms(1) by (simp add: n_def m_def)
  have "n \<noteq> 0" using assms(1) by (simp add: n_def)
  then show ?thesis
    by (simp add: e s n_def [symmetric] field_simps)
qed

definition estimator_ok :: "bandwidth_estimator \<Rightarrow> bool" where
  "estimator_ok b \<longleftrightarrow> stats_ok (overall b) \<and> length (transmitted b) \<le> TRANSMIT_KEEP
     \<and> transmit_size b = (\<Sum>p \<leftarrow> transmitted b. snd p)"

lemma push_transmitted_law:
  assumes "estimator_ok b"
  shows "estimator_ok (push_transmitted time bytes b)
    \<and> transmitted (push_transmitted time bytes b) = last_n TRANSMIT_KEEP (transmitted b @ [(time, bytes)])
    \<and> overall (push_transmitted time bytes b) = overall b"
proof (cases "length (transmitted b) < TRANSMIT_KEEP")
  case True
  with assms show ?thesis by (simp add: push_transmitted_def estimator_ok_def last_n_def)
next
  case False
  with assms have len: "length (transmitted b) = TRANSMIT_KEEP" by (simp add: estimator_ok_def)
  then obtain y ys where y: "transmitted b = y # ys"
    by (cases "transmitted b") (auto simp: TRANSMIT_KEEP_def)
  with len assms show ?thesis
    by (simp add: push_transmitted_def estimator_ok_def last_n_def algebra_simps)
qed

lemma data_written_law:
  assumes "estimator_ok b"
  shows "case BandwidthEstimator_data_written time bytes b of
       Inr b' \<Rightarrow> estimator_ok b'
     | Inl e \<Rightarrow> e = Undefined_behaviour \<and> (burst_running b \<or> time < burst_ends_at b)
         \<and> TRANSMIT_KEEP \<le> Suc (length (transmitted b))
         \<and> fst (hd (last_n TRANSMIT_KEEP (transmitted b @ [(time, bytes)]))) = time"
proof (cases "burst_running b \<or> time < burst_ends_at b")
  case True
  let ?b = "push_transmitted time bytes b"
  from push_transmitted_law [OF assms, of time bytes]
  have p: "estimator_ok ?b" "transmitted ?b = last_n TRANSMIT_KEEP (transmitted b @ [(time, bytes)])" by auto
  let ?v = "sint (transmit_size ?b * 1000 div (time - fst (hd (transmitted ?b))))"
  have "stats_ok (overall ?b)" using p(1) by (simp add: estimator_ok_def)
  from Stats_add_and_remove_back_law [OF this, of ?v] obtain s where
    s: "Stats_add_and_remove_back ?v (overall ?b) = Inr s" "stats_ok s" by blast
  have full: "TRANSMIT_KEEP \<le> Suc (length (transmitted b))" if "\<not> length (transmitted ?b) < TRANSMIT_KEEP"
    using that by (simp add: p(2) last_n_def)
  show ?thesis
    using True p(1) s full
    by (auto simp: BandwidthEstimator_data_written_def Let_def estimator_ok_def p(2) [symmetric])
next
  case False
  with assms show ?thesis
    by (simp add: BandwidthEstimator_data_written_def estimator_ok_def)
qed

section \<open>Properties\<close>

text \<open>\<open>Stats\<close> is a sliding window: feeding any values into a fresh object of positive capacity never
  fails, the incremental sums are the sums over the last \<open>count\<close> values, and \<open>mean\<close> is their arithmetic
  mean.\<close>

theorem Stats_sliding_window:
  assumes "1 \<le> c" "vs \<noteq> []"
  shows "\<exists>s. stats_feed vs (Stats_init c) = Inr s \<and> svalues s = last_n (nat c) vs
           \<and> Stats_get_sum s = sum_list (last_n (nat c) vs)
           \<and> ssum_of_squares s = (\<Sum>v \<leftarrow> last_n (nat c) vs. v * v)
           \<and> Stats_mean s = of_int (sum_list (last_n (nat c) vs)) / real (min (nat c) (length vs))"
proof -
  have "svalues (Stats_init c) = last_n (nat (scount (Stats_init c))) []"
    by (simp add: Stats_init_def last_n_def)
  from stats_feed_window [OF Stats_init_ok [OF assms(1)] this, of vs] obtain s where
    s: "stats_feed vs (Stats_init c) = Inr s" "stats_ok s" "svalues s = last_n (nat c) vs"
    by (auto simp: Stats_init_def)
  have "length (svalues s) = min (nat c) (length vs)" by (auto simp: s(3) last_n_def)
  moreover from this have "0 < length (svalues s)" using assms by simp
  ultimately show ?thesis
    using s by (auto simp: stats_ok_def Stats_get_sum_def Stats_mean_def)
qed

theorem Stats_sliding_window_witness:
  "\<exists>s. stats_feed [10, 20, 30] (Stats_init 2) = Inr s \<and> Stats_mean s = 25"
  using Stats_sliding_window [of 2 "[10, 20, 30]"] by (auto simp: last_n_def)

text \<open>\<open>stddev\<close> is the population standard deviation of the window, as the derivation in the source's
  comment claims.\<close>

theorem Stats_stddev_is_standard_deviation:
  assumes "stats_ok s" "svalues s \<noteq> []"
  shows "Stats_stddev s = sqrt ((\<Sum>v \<leftarrow> svalues s. (of_int v - Stats_mean s)\<^sup>2) / real (length (svalues s)))"
proof -
  let ?xs = "map real_of_int (svalues s)"
  have sq: "real_of_int (\<Sum>v \<leftarrow> vs. v * v) = (\<Sum>v \<leftarrow> vs. real_of_int v * real_of_int v)" for vs
    by (induction vs) simp_all
  have sm: "real_of_int (sum_list vs) = sum_list (map real_of_int vs)" for vs
    by (induction vs) simp_all
  from assms have "Stats_mean s = sum_list ?xs / real (length ?xs)"
    by (simp add: Stats_mean_def stats_ok_def sm)
  with variance_identity [of ?xs] assms show ?thesis
    by (simp add: Stats_stddev_def Let_def stats_ok_def sq o_def)
qed

theorem Stats_stddev_is_standard_deviation_witness:
  "Stats_stddev \<lparr>svalues = [1, 3], scount = 2, ssum = 4, ssum_of_squares = 10\<rparr> = 1"
  using Stats_stddev_is_standard_deviation [of "\<lparr>svalues = [1, 3], scount = 2, ssum = 4, ssum_of_squares = 10\<rparr>"]
  by (simp add: stats_ok_def Stats_mean_def)

text \<open>The estimator keeps the byte count of its window: \<open>data_written\<close> preserves that \<open>transmit_size\<close>
  is the sum over at most \<open>TRANSMIT_KEEP\<close> samples, and it fails only by dividing by zero, exactly when the
  window is full and its oldest sample has the current time.\<close>

theorem BandwidthEstimator_data_written_law:
  assumes "estimator_ok b"
  shows "case BandwidthEstimator_data_written time bytes b of
       Inr b' \<Rightarrow> estimator_ok b'
     | Inl e \<Rightarrow> e = Undefined_behaviour \<and> (burst_running b \<or> time < burst_ends_at b)
         \<and> TRANSMIT_KEEP \<le> Suc (length (transmitted b))
         \<and> fst (hd (last_n TRANSMIT_KEEP (transmitted b @ [(time, bytes)]))) = time"
  by (rule data_written_law [OF assms])

theorem BandwidthEstimator_data_written_law_witness:
  "case BandwidthEstimator_data_written 5 100 (BandwidthEstimator_init\<lparr>burst_running := True\<rparr>) of
     Inr b' \<Rightarrow> estimator_ok b' \<and> transmit_size b' = 100 | Inl e \<Rightarrow> False"
proof -
  have "estimator_ok (BandwidthEstimator_init\<lparr>burst_running := True\<rparr>)"
    by (simp add: estimator_ok_def BandwidthEstimator_init_def stats_ok_def Stats_init_def)
  from BandwidthEstimator_data_written_law [OF this, of 5 100] show ?thesis
    by (simp add: BandwidthEstimator_data_written_def BandwidthEstimator_init_def push_transmitted_def
        TRANSMIT_KEEP_def)
qed

end
