(* ===== verification/Link.thy ===== *)
theory Link
  imports Packet_Streams Stats
begin

text \<open>
  \<^verbatim>\<open>multilink/multilink_link.cpp\<close>: one link of a multilink, a byte stream carrying framed data packets,
  pings and pongs, with round-trip measurement, acknowledgement by pong, bufferbloat avoidance and
  retransmission after a timeout.

  The state record has the members of the class \<open>Link\<close>. Of the receive buffer it keeps the valid bytes
  (\<open>recv_buffer_pos\<close> is their number), of the send buffer the bytes of \<open>send_buffer_current\<close>. What the
  code passes to \<open>reactor.schedule\<close> is appended to \<open>ltasks\<close>, what it passes to \<open>timer.once\<close> to
  \<open>ltimers\<close>. The assertion of \<open>Reactor::schedule\<close> on the length of its queue is made where these lists enter
  the reactor's queue: \<open>schedule_new\<close> of the theory Reactor, used by \<open>Link_transport_read_ready_on\<close> for
  the read handler, the only one whose number of calls depends on its input. The argument \<open>now\<close> is the reading of \<open>Timer::get_time()\<close>, taken once per handler call.
\<close>

section \<open>State\<close>

definition LINK_MTU :: nat where "LINK_MTU = 16384"
definition HEADER_SIZE :: nat where "HEADER_SIZE = 3"
definition MULTILINK_MTU :: nat where "MULTILINK_MTU = LINK_MTU - HEADER_SIZE"
definition PING_INTERVAL :: u64 where "PING_INTERVAL = 250000"
definition BUFFERBLOAT_LOW_MARK :: u64 where "BUFFERBLOAT_LOW_MARK = 2000000"
definition BUFFERBLOAT_HIGH_MARK :: u64 where "BUFFERBLOAT_HIGH_MARK = 3000000"
definition RETRANSMISSION_TIMEOUT :: u64 where "RETRANSMISSION_TIMEOUT = 8000000"

record in_flight_packet =
  pseq :: u64
  pbuf :: bytes
  transmit_time :: u64

datatype link_task =
    Task_transport_write_ready
  | Task_send_ready_edge
  | Task_on_send_ready
  | Task_on_recv_ready
  | Task_send_aux
  | Task_transport_read_ready
  | Task_timer_callback

record 's link =
  lstream :: 's
  lrecv_buffer :: bytes
  waiting_recv_packet :: "bytes option"
  lsend_buffer_current :: bytes
  send_buffer_edge :: bool
  bufferbloat_avoidance :: bool
  last_ping_sent :: u64
  last_pong_request_time :: u64
  last_pong_request_seq :: u64
  last_seq_sent :: u64
  last_pong_recv_seq :: u64
  last_pong_recv_time :: u64
  in_flight_bytes :: u64
  in_flight_queue :: "in_flight_packet list"
  lname :: string
  rtt :: stats
  bandwidth :: bandwidth_estimator
  timed_out :: bool
  ltasks :: "link_task list"
  ltimers :: "u64 list"

definition lschedule :: "link_task \<Rightarrow> 's link \<Rightarrow> 's link" where
  "lschedule t l = l\<lparr>ltasks := ltasks l @ [t]\<rparr>"

text \<open>The constructor: a one-value round-trip window that starts with five seconds.\<close>

definition Link_init :: "'s \<Rightarrow> 's link result" where
  "Link_init s = bindR (Stats_add_and_remove_back (5000 * 1000) (Stats_init 1)) (\<lambda>r. Inr
     \<lparr>lstream = s, lrecv_buffer = [], waiting_recv_packet = None, lsend_buffer_current = [],
      send_buffer_edge = True, bufferbloat_avoidance = False, last_ping_sent = 0,
      last_pong_request_time = 0, last_pong_request_seq = 0, last_seq_sent = 0,
      last_pong_recv_seq = 0, last_pong_recv_time = 0, in_flight_bytes = 0, in_flight_queue = [],
      lname = [], rtt = r, bandwidth = BandwidthEstimator_init, timed_out = False,
      ltasks = [Task_timer_callback], ltimers = []\<rparr>)"

section \<open>Sending\<close>

definition link_frame :: "u8 \<Rightarrow> bytes \<Rightarrow> bytes" where
  "link_frame type data = put_u16 (htons (of_nat (length data + HEADER_SIZE))) @ [type] @ data"

definition Link_format_send_packet :: "u8 \<Rightarrow> bytes \<Rightarrow> 's link \<Rightarrow> 's link result" where
  "Link_format_send_packet type data l =
     assertR (length data + HEADER_SIZE \<le> LINK_MTU)
      (if length data > LINK_MTU then Inl Aborted
       else Inr (l\<lparr>lsend_buffer_current := link_frame type data\<rparr>))"

definition Link_raw_send_packet :: "u8 \<Rightarrow> bytes \<Rightarrow> 's link \<Rightarrow> 's link result" where
  "Link_raw_send_packet type data l =
     bindR (Link_format_send_packet type data l) (\<lambda>l'. Inr (lschedule Task_transport_write_ready l'))"

definition Link_should_ping :: "u64 \<Rightarrow> 's link \<Rightarrow> bool" where
  "Link_should_ping now l \<longleftrightarrow> now - last_ping_sent l > PING_INTERVAL"

definition Link_send_ping :: "u64 \<Rightarrow> 's link \<Rightarrow> 's link result" where
  "Link_send_ping now l =
     bindR (Link_raw_send_packet 1 (put_u64 now @ put_u64 (last_seq_sent l)) l) (\<lambda>l'.
       Inr (l'\<lparr>last_ping_sent := now\<rparr>))"

definition Link_send_pong :: "'s link \<Rightarrow> 's link result" where
  "Link_send_pong l =
     bindR (Link_raw_send_packet 2 (put_u64 (last_pong_request_time l) @ put_u64 (last_pong_request_seq l)) l) (\<lambda>l'.
       Inr (l'\<lparr>last_pong_request_time := 0, last_pong_request_seq := 0\<rparr>))"

definition Link_send_aux :: "u64 \<Rightarrow> 's link \<Rightarrow> (bool \<times> 's link) result" where
  "Link_send_aux now l =
     (if lsend_buffer_current l \<noteq> [] then Inr (True, l)
      else if last_pong_request_time l \<noteq> 0 then bindR (Link_send_pong l) (\<lambda>l'. Inr (True, l'))
      else if Link_should_ping now l then bindR (Link_send_ping now l) (\<lambda>l'. Inr (True, l'))
      else Inr (False, l))"

definition Link_send :: "u64 \<Rightarrow> u64 \<Rightarrow> bytes \<Rightarrow> 's link \<Rightarrow> (bool \<times> 's link) result" where
  "Link_send now seq data l =
     (if timed_out l then Inr (False, l)
      else if bufferbloat_avoidance l then Inr (False, l)
      else bindR (Link_send_aux now l) (\<lambda>(busy, l1).
        if \<not> busy then
          assertR (seq > last_seq_sent l1)
           (bindR (Link_raw_send_packet 0 data (l1\<lparr>last_seq_sent := seq\<rparr>)) (\<lambda>l2.
             Inr (True, l2\<lparr>in_flight_bytes := in_flight_bytes l2 + of_nat (length data),
                           in_flight_queue := in_flight_queue l2 @ [\<lparr>pseq = seq, pbuf = data, transmit_time = now\<rparr>]\<rparr>)))
        else Inr (False, l1)))"

definition Link_get_estimated_in_flight :: "'s link \<Rightarrow> u64" where
  "Link_get_estimated_in_flight l = in_flight_bytes l"

text \<open>
  \<open>transport_write_ready(real)\<close>. Both loops together write until the buffer is empty or the stream takes
  nothing, which is \<open>write_loop\<close>; \<open>bandwidth.write_ready\<close> is called under the condition on \<open>real\<close>.
\<close>

definition Link_transport_write_ready :: "'s stream_ops \<Rightarrow> bool \<Rightarrow> u64 \<Rightarrow> 's link \<Rightarrow> 's link result" where
  "Link_transport_write_ready ops is_real now l =
     (if timed_out l then Inr l
      else bindR (write_loop ops (lstream l) (lsend_buffer_current l)) (\<lambda>(s, cur).
        let bytes_written = length (lsend_buffer_current l) - length cur;
            l1 = l\<lparr>lstream := s, lsend_buffer_current := cur\<rparr>;
            l2 = (if cur = [] \<and> send_buffer_edge l1
                  then lschedule Task_send_ready_edge (l1\<lparr>send_buffer_edge := False\<rparr>) else l1);
            b1 = (if (cur = [] \<and> is_real) \<or> bytes_written \<noteq> 0
                  then BandwidthEstimator_write_ready now (bandwidth l2) else bandwidth l2)
        in bindR (BandwidthEstimator_data_written now (of_nat bytes_written) b1) (\<lambda>b2.
           Inr (l2\<lparr>bandwidth := (if cur \<noteq> [] then BandwidthEstimator_output_queue_full now b2
                                 else if bytes_written = 0 then BandwidthEstimator_input_queue_empty now b2
                                 else b2)\<rparr>))))"

text \<open>
  \<open>on_send_ready_edge_fn\<close>; the returned flag says that it calls \<open>on_send_ready\<close> before it returns.
\<close>

definition Link_on_send_ready_edge :: "u64 \<Rightarrow> 's link \<Rightarrow> (bool \<times> 's link) result" where
  "Link_on_send_ready_edge now l =
     bindR (Link_send_aux now (l\<lparr>send_buffer_edge := True\<rparr>)) (\<lambda>(busy, l'). Inr (\<not> busy, l'))"

section \<open>Receiving\<close>

definition trunc :: "real \<Rightarrow> int" where
  "trunc x = (if x < 0 then \<lceil>x\<rceil> else \<lfloor>x\<rfloor>)"

text \<open>\<open>int rtt = mean()\<close> is compared with the unsigned marks, so a negative value counts as huge.\<close>

definition Link_bufferbloat_check :: "'s link \<Rightarrow> 's link" where
  "Link_bufferbloat_check l =
     (let r = (of_int (trunc (Stats_mean (rtt l))) :: u64) in
      if bufferbloat_avoidance l then
        (if r < BUFFERBLOAT_LOW_MARK
         then lschedule Task_on_send_ready (l\<lparr>bufferbloat_avoidance := False\<rparr>) else l)
      else (if r > BUFFERBLOAT_HIGH_MARK then l\<lparr>bufferbloat_avoidance := True\<rparr> else l))"

fun flush_loop :: "u64 \<Rightarrow> u64 \<Rightarrow> in_flight_packet list \<Rightarrow> u64 \<times> in_flight_packet list" where
  "flush_loop ack bytes [] = (bytes, [])"
| "flush_loop ack bytes (p # ps) =
     (if pseq p \<le> ack then flush_loop ack (bytes - of_nat (length (pbuf p))) ps else (bytes, p # ps))"

definition Link_get_last_ack_seq :: "'s link \<Rightarrow> u64" where
  "Link_get_last_ack_seq l = last_pong_recv_seq l"

definition Link_flush_in_flight_queue :: "'s link \<Rightarrow> 's link" where
  "Link_flush_in_flight_queue l =
     (let (b, q) = flush_loop (Link_get_last_ack_seq l) (in_flight_bytes l) (in_flight_queue l)
      in l\<lparr>in_flight_bytes := b, in_flight_queue := q\<rparr>)"

text \<open>\<open>(int)delta\<close> keeps the low 32 bits as a signed value.\<close>

definition to_int32 :: "u64 \<Rightarrow> int" where
  "to_int32 w = sint (ucast w :: 32 word)"

definition Link_parse_recv_packet :: "u64 \<Rightarrow> bytes \<Rightarrow> 's link \<Rightarrow> 's link result" where
  "Link_parse_recv_packet now data l =
     bindR (read_at 2 1 data) (\<lambda>ty.
     assertR (waiting_recv_packet l = None)
      (if ty = [0] then
         Inr (lschedule Task_on_recv_ready (l\<lparr>waiting_recv_packet := Some (drop HEADER_SIZE data)\<rparr>))
       else if ty = [1] then
         bindR (read_at HEADER_SIZE 8 data) (\<lambda>t.
         bindR (read_at (HEADER_SIZE + 8) 8 data) (\<lambda>q.
           Inr (lschedule Task_send_aux
             (l\<lparr>last_pong_request_time := get_u64 t, last_pong_request_seq := get_u64 q\<rparr>))))
       else if ty = [2] then
         bindR (read_at HEADER_SIZE 8 data) (\<lambda>t.
         bindR (Stats_add_and_remove_back (to_int32 (now - get_u64 t)) (rtt l)) (\<lambda>r.
         bindR (read_at (HEADER_SIZE + 8) 8 data) (\<lambda>q.
           Inr (Link_flush_in_flight_queue (Link_bufferbloat_check
             (l\<lparr>rtt := r, last_pong_recv_seq := get_u64 q, last_pong_recv_time := now\<rparr>))))))
       else Inr l))"

text \<open>A length above the buffer size is only logged.\<close>

definition Link_try_parse_recv_packet :: "u64 \<Rightarrow> 's link \<Rightarrow> (bool \<times> 's link) result" where
  "Link_try_parse_recv_packet now l =
     (let buf = lrecv_buffer l in
      if 2 \<le> length buf then
        let expected_length = unat (ntohs (get_u16 buf)) in
        assertR (expected_length \<noteq> 0)
         (if expected_length \<le> length buf then
            bindR (Link_parse_recv_packet now (take expected_length buf) l) (\<lambda>l'.
              Inr (True, l'\<lparr>lrecv_buffer := drop expected_length buf\<rparr>))
          else Inr (False, l))
      else Inr (False, l))"

text \<open>\<open>while(!waiting_recv_packet && try_parse_recv_packet()) ;\<close>\<close>

function Link_parse_loop :: "u64 \<Rightarrow> 's link \<Rightarrow> 's link result" where
  "Link_parse_loop now l =
     (if waiting_recv_packet l \<noteq> None then Inr l
      else bindR (Link_try_parse_recv_packet now l) (\<lambda>r.
        if fst r then Link_parse_loop now (snd r) else Inr (snd r)))"
  by pat_completeness auto
termination
  by (relation "measure (\<lambda>(now, l). length (lrecv_buffer l))")
    (auto simp: Link_try_parse_recv_packet_def Let_def result_simps split: if_splits)

declare Link_parse_loop.simps [simp del]

fun Link_read_loop :: "nat \<Rightarrow> 's stream_ops \<Rightarrow> u64 \<Rightarrow> 's link \<Rightarrow> 's link result" where
  "Link_read_loop 0 ops now l = Inl Fuel_exhausted"
| "Link_read_loop (Suc fuel) ops now l =
     bindR (sread ops (lstream l) (LINK_MTU - length (lrecv_buffer l))) (\<lambda>(new_buffer, s).
     bindR (Link_parse_loop now (l\<lparr>lstream := s, lrecv_buffer := lrecv_buffer l @ new_buffer\<rparr>)) (\<lambda>l'.
       if new_buffer = [] then Inr l' else Link_read_loop fuel ops now l'))"

definition Link_transport_read_ready :: "nat \<Rightarrow> 's stream_ops \<Rightarrow> u64 \<Rightarrow> 's link \<Rightarrow> 's link result" where
  "Link_transport_read_ready fuel ops now l = (if timed_out l then Inr l else Link_read_loop fuel ops now l)"

text \<open>The handler on the reactor: what it has scheduled enters the reactor's queue.\<close>

definition Link_transport_read_ready_on ::
    "(link_task \<Rightarrow> 'f) \<Rightarrow> nat \<Rightarrow> 's stream_ops \<Rightarrow> u64 \<Rightarrow> 's link \<times> ('f, 'k) reactor \<Rightarrow> ('s link \<times> ('f, 'k) reactor) result" where
  "Link_transport_read_ready_on emb fuel ops now lr =
     bindR (Link_transport_read_ready fuel ops now (fst lr)) (\<lambda>l'.
     bindR (schedule_new emb (ltasks (fst lr)) (ltasks l') (snd lr)) (\<lambda>r'. Inr (l', r')))"

definition Link_recv :: "'s link \<Rightarrow> bytes option \<times> 's link" where
  "Link_recv l =
     (if timed_out l then (None, l)
      else let packet = waiting_recv_packet l; l1 = l\<lparr>waiting_recv_packet := None\<rparr>
           in if packet \<noteq> None then (packet, lschedule Task_transport_read_ready l1) else (packet, l1))"

section \<open>Retransmission and the timer\<close>

text \<open>\<open>in_flight_queue.front()\<close> of an empty queue is undefined.\<close>

definition Link_maybe_retransmit :: "u64 \<Rightarrow> 's link \<Rightarrow> 's link result" where
  "Link_maybe_retransmit now l =
     (if timed_out l then Inr l
      else if in_flight_queue l = [] \<and> \<not> bufferbloat_avoidance l then Inr l
      else case in_flight_queue l of
          [] \<Rightarrow> Inl Undefined_behaviour
        | p # _ \<Rightarrow> (if now - transmit_time p > RETRANSMISSION_TIMEOUT
                    then Inr (lschedule Task_on_send_ready (l\<lparr>timed_out := True\<rparr>)) else Inr l))"

definition Link_get_packets_to_retransmit :: "'s link \<Rightarrow> bytes list result" where
  "Link_get_packets_to_retransmit l = assertR (timed_out l) (Inr (map pbuf (in_flight_queue l)))"

definition Link_timer_callback :: "u64 \<Rightarrow> 's link \<Rightarrow> 's link result" where
  "Link_timer_callback now l =
     (if timed_out l then Inr l
      else bindR (Link_send_aux now l) (\<lambda>r.
           bindR (Link_maybe_retransmit now (snd r)) (\<lambda>l'.
             Inr (l'\<lparr>ltimers := ltimers l' @ [PING_INTERVAL]\<rparr>))))"

definition Link_destroy :: "'s stream_ops \<Rightarrow> 's link \<Rightarrow> 's" where
  "Link_destroy ops l = sclose ops (lstream l)"


section \<open>Frames on the wire\<close>

type_synonym link_frame_content = "u8 \<times> bytes"

text \<open>A frame a link can send: it fits the buffer, and a ping or pong carries its two integers.\<close>

definition frame_ok :: "link_frame_content \<Rightarrow> bool" where
  "frame_ok f \<longleftrightarrow> length (snd f) + HEADER_SIZE \<le> LINK_MTU
     \<and> (fst f = 1 \<or> fst f = 2 \<longrightarrow> 16 \<le> length (snd f))"

definition link_bytes :: "link_frame_content list \<Rightarrow> bytes" where
  "link_bytes fs = concat (map (\<lambda>f. link_frame (fst f) (snd f)) fs)"

definition link_wire :: "bytes \<Rightarrow> link_frame_content list \<Rightarrow> bool" where
  "link_wire bs fs \<longleftrightarrow> bs = link_bytes fs \<and> (\<forall>f \<in> set fs. frame_ok f)"

definition data_of :: "link_frame_content list \<Rightarrow> bytes list" where
  "data_of fs = map snd (filter (\<lambda>f. fst f = 0) fs)"

definition pong_seq :: "link_frame_content \<Rightarrow> u64" where
  "pong_seq f = get_u64 (take 8 (drop 8 (snd f)))"

lemma link_bytes_simps [simp]:
  "link_bytes [] = []" "link_bytes (f # fs) = link_frame (fst f) (snd f) @ link_bytes fs"
  "link_bytes (fs @ gs) = link_bytes fs @ link_bytes gs"
  by (simp_all add: link_bytes_def)

lemma data_of_simps [simp]:
  "data_of [] = []" "data_of (f # fs) = (if fst f = 0 then [snd f] else []) @ data_of fs"
  "data_of (fs @ gs) = data_of fs @ data_of gs"
  by (simp_all add: data_of_def)

lemma length_link_frame [simp]: "length (link_frame ty d) = length d + 3"
  by (simp add: link_frame_def)

lemma get_u16_append: "2 \<le> length a \<Longrightarrow> get_u16 (a @ b) = get_u16 a"
  by (simp add: get_u16_def)

lemma link_frame_size:
  "length d + HEADER_SIZE \<le> LINK_MTU \<Longrightarrow> unat (ntohs (get_u16 (link_frame ty d @ bs))) = length d + HEADER_SIZE"
  by (simp add: link_frame_def unat_of_nat LINK_MTU_def HEADER_SIZE_def del: of_nat_add)

lemma link_wire_head:
  assumes "link_wire (buf @ inc) fs" "2 \<le> length buf"
  obtains f fs' where "fs = f # fs'" "unat (ntohs (get_u16 buf)) = length (snd f) + HEADER_SIZE" "frame_ok f"
    "buf @ inc = link_frame (fst f) (snd f) @ link_bytes fs'" "\<forall>f \<in> set fs'. frame_ok f"
proof (cases fs)
  case Nil
  with assms show thesis by (auto simp: link_wire_def)
next
  case (Cons f fs')
  with assms(1) have eq: "buf @ inc = link_frame (fst f) (snd f) @ link_bytes fs'"
    and ok: "frame_ok f" "\<forall>f \<in> set fs'. frame_ok f"
    by (simp_all add: link_wire_def)
  have "unat (ntohs (get_u16 buf)) = unat (ntohs (get_u16 (buf @ inc)))" by (simp add: get_u16_append assms(2))
  also have "\<dots> = length (snd f) + HEADER_SIZE" unfolding eq
    by (rule link_frame_size) (use ok in \<open>simp add: frame_ok_def\<close>)
  finally show thesis using that Cons eq ok by blast
qed

section \<open>The in-flight queue\<close>

definition in_flight_ok :: "'s link \<Rightarrow> bool" where
  "in_flight_ok l \<longleftrightarrow> in_flight_bytes l = (\<Sum>p \<leftarrow> in_flight_queue l. of_nat (length (pbuf p)))
     \<and> sorted_wrt (<) (map pseq (in_flight_queue l)) \<and> (\<forall>p \<in> set (in_flight_queue l). pseq p \<le> last_seq_sent l)"

definition link_ok :: "'s link \<Rightarrow> bool" where
  "link_ok l \<longleftrightarrow> in_flight_ok l \<and> stats_ok (rtt l) \<and> estimator_ok (bandwidth l)"

definition key :: "'s link \<Rightarrow> (u64 \<times> bytes) list" where
  "key l = map (\<lambda>p. (pseq p, pbuf p)) (in_flight_queue l)"

lemma flush_loop_law:
  "b = (\<Sum>p \<leftarrow> q. of_nat (length (pbuf p))) \<Longrightarrow>
     flush_loop ack b q = ((\<Sum>p \<leftarrow> dropWhile (\<lambda>p. pseq p \<le> ack) q. of_nat (length (pbuf p))),
                           dropWhile (\<lambda>p. pseq p \<le> ack) q)"
  by (induction q arbitrary: b) simp_all

lemma dropWhile_sorted_filter:
  fixes ack :: u64
  shows "sorted_wrt (<) (map pseq q) \<Longrightarrow> dropWhile (\<lambda>p. pseq p \<le> ack) q = filter (\<lambda>p. ack < pseq p) q"
proof (induction q)
  case (Cons p q)
  have "filter (\<lambda>p. ack < pseq p) q = q" if "ack < pseq p"
    using Cons.prems that by (force simp: filter_id_conv)
  with Cons show ?case by (auto simp: not_le)
qed simp

lemma flush_law:
  assumes "in_flight_ok l"
  shows "in_flight_ok (Link_flush_in_flight_queue l)"
    and "in_flight_queue (Link_flush_in_flight_queue l) = filter (\<lambda>p. last_pong_recv_seq l < pseq p) (in_flight_queue l)"
    and "\<exists>acked. in_flight_queue l = acked @ in_flight_queue (Link_flush_in_flight_queue l)
         \<and> (\<forall>p \<in> set acked. pseq p \<le> last_pong_recv_seq l)"
proof -
  let ?ack = "last_pong_recv_seq l" and ?q = "in_flight_queue l"
  from assms have s: "in_flight_bytes l = (\<Sum>p \<leftarrow> ?q. of_nat (length (pbuf p)))"
    "sorted_wrt (<) (map pseq ?q)" by (simp_all add: in_flight_ok_def)
  note d = dropWhile_sorted_filter [OF s(2), of ?ack]
  have f: "Link_flush_in_flight_queue l = l\<lparr>in_flight_bytes := (\<Sum>p \<leftarrow> filter (\<lambda>p. ?ack < pseq p) ?q. of_nat (length (pbuf p))),
      in_flight_queue := filter (\<lambda>p. ?ack < pseq p) ?q\<rparr>"
    by (simp add: Link_flush_in_flight_queue_def Link_get_last_ack_seq_def flush_loop_law [OF s(1)] d)
  have "?q = takeWhile (\<lambda>p. pseq p \<le> ?ack) ?q @ filter (\<lambda>p. ?ack < pseq p) ?q"
    by (simp flip: d)
  moreover have "\<forall>p \<in> set (takeWhile (\<lambda>p. pseq p \<le> ?ack) ?q). pseq p \<le> ?ack"
    by (auto dest: set_takeWhileD)
  ultimately show "\<exists>acked. in_flight_queue l = acked @ in_flight_queue (Link_flush_in_flight_queue l)
         \<and> (\<forall>p \<in> set acked. pseq p \<le> ?ack)"
    unfolding f by (intro exI [of _ "takeWhile (\<lambda>p. pseq p \<le> ?ack) ?q"]) simp
  show "in_flight_ok (Link_flush_in_flight_queue l)"
    using assms unfolding f by (simp add: in_flight_ok_def sorted_wrt_map sorted_wrt_filter)
  show "in_flight_queue (Link_flush_in_flight_queue l) = filter (\<lambda>p. ?ack < pseq p) ?q"
    by (simp add: f)
qed

text \<open>The write handler, in terms of what the write loop leaves.\<close>

lemma write_ready_unfold:
  assumes "\<not> timed_out l" "write_loop ops (lstream l) (lsend_buffer_current l) = Inr (s, cur)"
  shows "Link_transport_write_ready ops is_real now l
      = bindR (BandwidthEstimator_data_written now (of_nat (length (lsend_buffer_current l) - length cur)) (bandwidth l))
          (\<lambda>b. Inr ((if cur = [] \<and> send_buffer_edge l
                     then lschedule Task_send_ready_edge (l\<lparr>lstream := s, lsend_buffer_current := cur, send_buffer_edge := False\<rparr>)
                     else l\<lparr>lstream := s, lsend_buffer_current := cur\<rparr>)
             \<lparr>bandwidth := (if cur \<noteq> [] then BandwidthEstimator_output_queue_full now b
                else if length (lsend_buffer_current l) - length cur = 0 then BandwidthEstimator_input_queue_empty now b
                else b)\<rparr>))"
  using assms
  by (cases "cur = [] \<and> send_buffer_edge l")
    (simp_all add: Link_transport_write_ready_def Let_def BandwidthEstimator_write_ready_def lschedule_def)

lemma write_ready_in_flight:
  assumes "Link_transport_write_ready ops is_real now l = Inr l'"
  shows "in_flight_queue l' = in_flight_queue l"
proof (cases "timed_out l")
  case True
  with assms show ?thesis by (simp add: Link_transport_write_ready_def)
next
  case False
  with assms obtain s cur where w: "write_loop ops (lstream l) (lsend_buffer_current l) = Inr (s, cur)"
    by (cases "write_loop ops (lstream l) (lsend_buffer_current l)") (auto simp: Link_transport_write_ready_def)
  from assms show ?thesis
    unfolding write_ready_unfold [OF False w] bindR_eq_Inr by (auto simp: lschedule_def)
qed

section \<open>What a link sends, delivers and keeps\<close>

definition waiting_list :: "'s link \<Rightarrow> bytes list" where
  "waiting_list l = (case waiting_recv_packet l of None \<Rightarrow> [] | Some d \<Rightarrow> [d])"

text \<open>
  The effect of one frame on the receiving link: data becomes the waiting packet, a ping sets the pong
  request, a pong releases the acknowledged prefix of the in-flight queue.
\<close>

lemma read_at_frame:
  "frame_ok (ty, d) \<Longrightarrow> ty = 1 \<or> ty = 2 \<Longrightarrow> read_at HEADER_SIZE 8 (link_frame ty d) = Inr (take 8 d)"
  "frame_ok (ty, d) \<Longrightarrow> ty = 1 \<or> ty = 2 \<Longrightarrow> read_at (HEADER_SIZE + 8) 8 (link_frame ty d) = Inr (take 8 (drop 8 d))"
  "read_at 2 (Suc 0) (link_frame ty d) = Inr [ty]" "drop HEADER_SIZE (link_frame ty d) = d"
  by (auto simp: read_at_def link_frame_def HEADER_SIZE_def frame_ok_def drop_Cons')

lemma bufferbloat_check_fields [simp]:
  "lstream (Link_bufferbloat_check l) = lstream l" "lrecv_buffer (Link_bufferbloat_check l) = lrecv_buffer l"
  "waiting_recv_packet (Link_bufferbloat_check l) = waiting_recv_packet l"
  "lsend_buffer_current (Link_bufferbloat_check l) = lsend_buffer_current l"
  "in_flight_queue (Link_bufferbloat_check l) = in_flight_queue l"
  "in_flight_bytes (Link_bufferbloat_check l) = in_flight_bytes l"
  "last_seq_sent (Link_bufferbloat_check l) = last_seq_sent l"
  "last_pong_recv_seq (Link_bufferbloat_check l) = last_pong_recv_seq l"
  "rtt (Link_bufferbloat_check l) = rtt l" "bandwidth (Link_bufferbloat_check l) = bandwidth l"
  "timed_out (Link_bufferbloat_check l) = timed_out l"
  by (simp_all add: Link_bufferbloat_check_def lschedule_def Let_def)

lemma flush_fields [simp]:
  "lstream (Link_flush_in_flight_queue l) = lstream l" "lrecv_buffer (Link_flush_in_flight_queue l) = lrecv_buffer l"
  "waiting_recv_packet (Link_flush_in_flight_queue l) = waiting_recv_packet l"
  "lsend_buffer_current (Link_flush_in_flight_queue l) = lsend_buffer_current l"
  "last_seq_sent (Link_flush_in_flight_queue l) = last_seq_sent l"
  "rtt (Link_flush_in_flight_queue l) = rtt l" "bandwidth (Link_flush_in_flight_queue l) = bandwidth l"
  "timed_out (Link_flush_in_flight_queue l) = timed_out l"
  by (simp_all add: Link_flush_in_flight_queue_def split: prod.splits)

text \<open>
  What the read handler hands to the reactor for the frames it consumes: \<open>send_aux\<close> once for every ping,
  \<open>on_recv_ready\<close> once for every data packet, \<open>on_send_ready\<close> at most once for every pong, nothing else.
\<close>

definition tasks_for :: "link_frame_content list \<Rightarrow> link_task list \<Rightarrow> bool" where
  "tasks_for fs ts \<longleftrightarrow> count_list ts Task_send_aux = length (filter (\<lambda>f. fst f = 1) fs)
     \<and> count_list ts Task_on_recv_ready = length (data_of fs)
     \<and> count_list ts Task_on_send_ready \<le> length (filter (\<lambda>f. fst f = 2) fs)
     \<and> set ts \<subseteq> {Task_send_aux, Task_on_recv_ready, Task_on_send_ready}"

lemma tasks_for_Nil: "tasks_for [] []"
  by (simp add: tasks_for_def)

lemma tasks_for_append: "tasks_for fs ts \<Longrightarrow> tasks_for gs us \<Longrightarrow> tasks_for (fs @ gs) (ts @ us)"
  by (auto simp: tasks_for_def)

lemma tasks_for_length: "tasks_for fs ts \<Longrightarrow> length ts \<le> length fs"
proof -
  assume t: "tasks_for fs ts"
  have "length ts = count_list ts Task_send_aux + count_list ts Task_on_recv_ready + count_list ts Task_on_send_ready"
    if "set ts \<subseteq> {Task_send_aux, Task_on_recv_ready, Task_on_send_ready}"
    using that by (induction ts) auto
  moreover have "length (filter (\<lambda>f. fst f = 1) fs) + length (data_of fs) + length (filter (\<lambda>f. fst f = 2) fs) \<le> length fs"
    by (induction fs) auto
  ultimately show ?thesis using t by (auto simp: tasks_for_def)
qed

lemma bufferbloat_check_tasks:
  "\<exists>ts. ltasks (Link_bufferbloat_check l) = ltasks l @ ts \<and> ts \<in> {[], [Task_on_send_ready]}"
  by (simp add: Link_bufferbloat_check_def lschedule_def Let_def)

lemma flush_tasks [simp]: "ltasks (Link_flush_in_flight_queue l) = ltasks l"
  by (simp add: Link_flush_in_flight_queue_def split: prod.splits)

lemma parse_recv_packet_tasks:
  assumes "Link_parse_recv_packet now (link_frame ty d) l = Inr l'"
  shows "\<exists>ts. ltasks l' = ltasks l @ ts \<and> tasks_for [(ty, d)] ts"
proof (cases "ty = 2")
  case True
  from assms True obtain r q where
    l': "l' = Link_flush_in_flight_queue (Link_bufferbloat_check (l\<lparr>rtt := r, last_pong_recv_seq := q, last_pong_recv_time := now\<rparr>))"
    by (auto simp: Link_parse_recv_packet_def read_at_frame(3) result_simps split: if_splits)
  from bufferbloat_check_tasks [of "l\<lparr>rtt := r, last_pong_recv_seq := q, last_pong_recv_time := now\<rparr>"] True
  show ?thesis by (auto simp: l' tasks_for_def)
next
  case False
  with assms show ?thesis
    by (auto simp: Link_parse_recv_packet_def read_at_frame(3) lschedule_def result_simps tasks_for_def split: if_splits)
qed

text \<open>\<open>link_reads l fs l' fs'\<close>: the frames of \<open>fs\<close> that are no longer in \<open>fs'\<close> have led to the calls
  of \<open>reactor.schedule\<close> between \<open>l\<close> and \<open>l'\<close>.\<close>

definition link_reads :: "'s link \<Rightarrow> link_frame_content list \<Rightarrow> 's link \<Rightarrow> link_frame_content list \<Rightarrow> bool" where
  "link_reads l fs l' fs' \<longleftrightarrow> (\<exists>used ts. fs = used @ fs' \<and> ltasks l' = ltasks l @ ts \<and> tasks_for used ts)"

lemma link_reads_refl: "ltasks l' = ltasks l \<Longrightarrow> link_reads l fs l' fs"
  by (simp add: link_reads_def tasks_for_Nil)

lemma link_reads_trans: "link_reads l fs m gs \<Longrightarrow> link_reads m gs n hs \<Longrightarrow> link_reads l fs n hs"
  unfolding link_reads_def using tasks_for_append by (metis append.assoc)

lemma parse_recv_packet_law:
  assumes "link_ok l" "waiting_recv_packet l = None" "frame_ok (ty, d)"
  shows "\<exists>l'. Link_parse_recv_packet now (link_frame ty d) l = Inr l' \<and> link_ok l' \<and> lstream l' = lstream l
    \<and> lsend_buffer_current l' = lsend_buffer_current l
    \<and> waiting_list l' = (if ty = 0 then [d] else [])
    \<and> (\<exists>acked. key l = acked @ key l' \<and> (\<forall>k \<in> set acked. ty = 2 \<and> fst k \<le> pong_seq (ty, d)))"
proof (cases "ty = 2")
  case True
  from Stats_add_and_remove_back_law [of "rtt l"] assms(1) obtain r where
    r: "Stats_add_and_remove_back (to_int32 (now - get_u64 (take 8 d))) (rtt l) = Inr r" "stats_ok r"
    by (fastforce simp: link_ok_def)
  let ?m = "Link_bufferbloat_check (l\<lparr>rtt := r, last_pong_recv_seq := pong_seq (ty, d), last_pong_recv_time := now\<rparr>)"
  have "Link_parse_recv_packet now (link_frame ty d) l = Inr (Link_flush_in_flight_queue ?m)"
    using True assms(2) read_at_frame(1,2) [OF assms(3)] r(1)
    by (simp add: Link_parse_recv_packet_def read_at_frame(3) pong_seq_def)
  moreover have "in_flight_ok ?m" using assms(1) by (simp add: link_ok_def in_flight_ok_def)
  from flush_law(1,3) [OF this] obtain acked where fl: "in_flight_ok (Link_flush_in_flight_queue ?m)"
    "in_flight_queue l = acked @ in_flight_queue (Link_flush_in_flight_queue ?m)"
    "\<forall>p \<in> set acked. pseq p \<le> pong_seq (ty, d)" by auto
  have "key l = map (\<lambda>p. (pseq p, pbuf p)) acked @ key (Link_flush_in_flight_queue ?m)"
    unfolding key_def by (subst fl(2)) simp
  moreover have "link_ok (Link_flush_in_flight_queue ?m)"
    using fl(1) assms(1) r(2) by (simp add: link_ok_def)
  ultimately show ?thesis using True assms(2) fl(3)
    by (intro exI [of _ "Link_flush_in_flight_queue ?m"] conjI exI [of _ "map (\<lambda>p. (pseq p, pbuf p)) acked"])
      (simp_all add: waiting_list_def)
next
  case False
  from assms read_at_frame(1,2) [OF assms(3)] False show ?thesis
    by (auto simp: Link_parse_recv_packet_def read_at_frame(3,4) lschedule_def link_ok_def in_flight_ok_def
        waiting_list_def key_def)
qed

context byte_stream
begin

definition link_sent :: "'s link \<Rightarrow> bytes" where
  "link_sent l = written (lstream l) @ lsend_buffer_current l"

definition link_inv :: "'s link \<Rightarrow> link_frame_content list \<Rightarrow> bool" where
  "link_inv l fs \<longleftrightarrow> sinv (lstream l) \<and> length (lrecv_buffer l) \<le> LINK_MTU
     \<and> link_wire (lrecv_buffer l @ incoming (lstream l)) fs \<and> link_ok l"

text \<open>
  \<open>link_moves l fs l' fs' acc del\<close>: between \<open>l\<close> and \<open>l'\<close> the link has accepted the packets \<open>acc\<close>, delivered
  \<open>del\<close> and consumed the frames of \<open>fs\<close> that are no longer in \<open>fs'\<close>. The bytes it sent are whole frames
  whose data is exactly \<open>acc\<close>; what it delivered or holds is the data of the frames consumed; a packet has
  left the in-flight queue only through a consumed pong that acknowledges it.
\<close>

definition link_moves :: "'s link \<Rightarrow> link_frame_content list \<Rightarrow> 's link \<Rightarrow> link_frame_content list \<Rightarrow>
    (u64 \<times> bytes) list \<Rightarrow> bytes list \<Rightarrow> bool" where
  "link_moves l fs l' fs' acc del \<longleftrightarrow> link_inv l' fs'
     \<and> (\<exists>gs. link_sent l' = link_sent l @ link_bytes gs \<and> (\<forall>g \<in> set gs. frame_ok g) \<and> data_of gs = map snd acc)
     \<and> (\<exists>used acked. fs = used @ fs' \<and> waiting_list l @ data_of used = del @ waiting_list l'
          \<and> key l @ acc = acked @ key l'
          \<and> (\<forall>k \<in> set acked. \<exists>f \<in> set used. fst f = 2 \<and> fst k \<le> pong_seq f))"

lemma link_moves_refl: "link_inv l fs \<Longrightarrow> link_moves l fs l fs [] []"
  unfolding link_moves_def
  by (rule conjI, assumption, intro conjI exI [of _ "[]"] ) simp_all

lemma link_moves_trans:
  assumes "link_moves l fs m gs a d" "link_moves m gs n hs a' d'"
  shows "link_moves l fs n hs (a @ a') (d @ d')"
proof -
  from assms(1) obtain xs used acked where 1: "link_sent m = link_sent l @ link_bytes xs"
    "\<forall>g \<in> set xs. frame_ok g" "data_of xs = map snd a" "fs = used @ gs"
    "waiting_list l @ data_of used = d @ waiting_list m" "key l @ a = acked @ key m"
    "\<forall>k \<in> set acked. \<exists>f \<in> set used. fst f = 2 \<and> fst k \<le> pong_seq f"
    unfolding link_moves_def by blast
  from assms(2) obtain xs' used' acked' where 2: "link_sent n = link_sent m @ link_bytes xs'"
    "\<forall>g \<in> set xs'. frame_ok g" "data_of xs' = map snd a'" "gs = used' @ hs"
    "waiting_list m @ data_of used' = d' @ waiting_list n" "key m @ a' = acked' @ key n"
    "\<forall>k \<in> set acked'. \<exists>f \<in> set used'. fst f = 2 \<and> fst k \<le> pong_seq f" "link_inv n hs"
    unfolding link_moves_def by blast
  have "waiting_list l @ data_of (used @ used') = (d @ d') @ waiting_list n"
    using 1(5) 2(5) by (metis append.assoc data_of_simps(3))
  moreover have "key l @ a @ a' = (acked @ acked') @ key n" using 1(6) 2(6) by (metis append.assoc)
  moreover have "\<forall>k \<in> set (acked @ acked'). \<exists>f \<in> set (used @ used'). fst f = 2 \<and> fst k \<le> pong_seq f"
    using 1(7) 2(7) by auto
  moreover have "fs = (used @ used') @ hs" using 1(4) 2(4) by simp
  moreover have "link_sent n = link_sent l @ link_bytes (xs @ xs')" "\<forall>g \<in> set (xs @ xs'). frame_ok g"
    "data_of (xs @ xs') = map snd (a @ a')"
    using 1(1-3) 2(1-3) by auto
  ultimately show ?thesis unfolding link_moves_def using 2(8) by blast
qed

lemma try_parse_law:
  assumes "link_inv l fs" "waiting_recv_packet l = None"
  shows "\<exists>ok l' fs'. Link_try_parse_recv_packet now l = Inr (ok, l') \<and> link_moves l fs l' fs' [] []
    \<and> link_reads l fs l' fs' \<and> lstream l' = lstream l"
proof (cases "2 \<le> length (lrecv_buffer l) \<and> unat (ntohs (get_u16 (lrecv_buffer l))) \<le> length (lrecv_buffer l)")
  case False
  have "unat (ntohs (get_u16 (lrecv_buffer l))) \<noteq> 0" if "2 \<le> length (lrecv_buffer l)"
    using link_wire_head [OF _ that] assms(1) unfolding link_inv_def HEADER_SIZE_def by fastforce
  with False have "Link_try_parse_recv_packet now l = Inr (False, l)"
    by (auto simp: Link_try_parse_recv_packet_def Let_def)
  with link_moves_refl [OF assms(1)] link_reads_refl [of l l fs] show ?thesis by blast
next
  case True
  let ?buf = "lrecv_buffer l" and ?inc = "incoming (lstream l)"
  from assms(1) have w: "link_wire (?buf @ ?inc) fs" by (simp add: link_inv_def)
  from link_wire_head [OF w] True obtain f fs' where f: "fs = f # fs'"
    "unat (ntohs (get_u16 ?buf)) = length (snd f) + HEADER_SIZE" "frame_ok f"
    "?buf @ ?inc = link_frame (fst f) (snd f) @ link_bytes fs'" "\<forall>f \<in> set fs'. frame_ok f" by blast
  let ?n = "length (snd f) + HEADER_SIZE"
  have n: "?n \<le> length ?buf" "?n = length (link_frame (fst f) (snd f))"
    using True f(2) by (simp_all add: HEADER_SIZE_def)
  have t: "take ?n ?buf = link_frame (fst f) (snd f)"
    using arg_cong [OF f(4), of "take ?n"] n by simp
  have dr: "drop ?n ?buf @ ?inc = link_bytes fs'"
    using arg_cong [OF f(4), of "drop ?n"] n by simp
  from assms(1) have "link_ok l" by (simp add: link_inv_def)
  from parse_recv_packet_law [OF this assms(2), of "fst f" "snd f" now] f(3) obtain l' where
    l': "Link_parse_recv_packet now (link_frame (fst f) (snd f)) l = Inr l'" "link_ok l'" "lstream l' = lstream l"
      "lsend_buffer_current l' = lsend_buffer_current l" "waiting_list l' = (if fst f = 0 then [snd f] else [])"
      "\<exists>acked. key l = acked @ key l' \<and> (\<forall>k \<in> set acked. fst f = 2 \<and> fst k \<le> pong_seq f)"
    by auto
  let ?m = "l'\<lparr>lrecv_buffer := drop ?n ?buf\<rparr>"
  have "Link_try_parse_recv_packet now l = Inr (True, ?m)"
    using True f(2) t l'(1) by (simp add: Link_try_parse_recv_packet_def Let_def HEADER_SIZE_def)
  moreover have "link_inv ?m fs'"
    using assms(1) l'(2,3) dr f(5) by (auto simp: link_inv_def link_wire_def link_ok_def in_flight_ok_def)
  moreover have "waiting_list l @ data_of [f] = [] @ waiting_list ?m"
    using assms(2) l'(5) by (simp add: waiting_list_def)
  moreover have "\<exists>acked. key l @ [] = acked @ key ?m \<and> (\<forall>k \<in> set acked. \<exists>f \<in> set [f]. fst f = 2 \<and> fst k \<le> pong_seq f)"
    using l'(6) by (simp add: key_def)
  moreover have "fs = [f] @ fs'" "link_sent ?m = link_sent l @ link_bytes []"
    using f(1) l'(3,4) by (simp_all add: link_sent_def)
  ultimately have "link_moves l fs ?m fs' [] []" unfolding link_moves_def
    by (metis data_of_simps(1) empty_iff list.set(1) list.simps(8))
  moreover from parse_recv_packet_tasks [OF l'(1)] have "link_reads l fs ?m fs'"
    using f(1) by (auto simp: link_reads_def)
  ultimately show ?thesis using \<open>Link_try_parse_recv_packet now l = Inr (True, ?m)\<close> l'(3) by fastforce
qed

lemma parse_loop_law:
  "link_inv l fs \<Longrightarrow> \<exists>l' fs'. Link_parse_loop now l = Inr l' \<and> link_moves l fs l' fs' [] []
     \<and> link_reads l fs l' fs' \<and> lstream l' = lstream l"
proof (induction now l arbitrary: fs rule: Link_parse_loop.induct)
  case (1 now l)
  show ?case
  proof (cases "waiting_recv_packet l")
    case (Some d)
    then show ?thesis using link_moves_refl [OF 1(2)] link_reads_refl [of l l fs]
      by (auto simp: Link_parse_loop.simps [of now l])
  next
    case None
    from try_parse_law [OF 1(2) None] obtain ok m gs where
      m: "Link_try_parse_recv_packet now l = Inr (ok, m)" "link_moves l fs m gs [] []" "link_reads l fs m gs"
        "lstream m = lstream l" by blast
    from m(2) have "link_inv m gs" by (simp add: link_moves_def)
    with 1(1) [of "(ok, m)" gs] None m(1) have "ok \<Longrightarrow>
      \<exists>l' fs'. Link_parse_loop now m = Inr l' \<and> link_moves m gs l' fs' [] [] \<and> link_reads m gs l' fs'
        \<and> lstream l' = lstream m" by simp
    with m None link_moves_trans [OF m(2)] link_reads_trans [OF m(3)] show ?thesis
      by (cases ok) (fastforce simp: Link_parse_loop.simps [of now l])+
  qed
qed

lemma read_loop_law:
  "link_inv l fs \<Longrightarrow>
     (\<exists>l' fs'. Link_read_loop fuel sops now l = Inr l' \<and> link_moves l fs l' fs' [] [] \<and> link_reads l fs l' fs')
     \<or> (Link_read_loop fuel sops now l = Inl Fuel_exhausted \<and> fuel \<le> length (incoming (lstream l)))"
proof (induction fuel arbitrary: l fs)
  case (Suc fuel)
  let ?n = "LINK_MTU - length (lrecv_buffer l)"
  from Suc.prems(1) have "sinv (lstream l)" by (simp add: link_inv_def)
  from sread_law [OF this, of ?n] obtain d s where
    r: "sread sops (lstream l) ?n = Inr (d, s)" "length d \<le> ?n" "sinv s" "written s = written (lstream l)"
      "incoming (lstream l) = d @ incoming s" by blast
  let ?l = "l\<lparr>lstream := s, lrecv_buffer := lrecv_buffer l @ d\<rparr>"
  have inv: "link_inv ?l fs"
    using Suc.prems(1) r(2,3,5) by (auto simp: link_inv_def link_ok_def in_flight_ok_def)
  then have mv: "link_moves l fs ?l fs [] []"
    using r(4) link_moves_refl [OF inv]
    by (simp add: link_moves_def link_sent_def waiting_list_def key_def)
  from parse_loop_law [OF inv, of now] obtain m gs where
    m: "Link_parse_loop now ?l = Inr m" "link_moves ?l fs m gs [] []" "link_reads ?l fs m gs" "lstream m = s" by auto
  note lm = link_moves_trans [OF mv m(2), simplified]
  have lr: "link_reads l fs m gs" using m(3) by (simp add: link_reads_def)
  show ?case
  proof (cases "d = []")
    case True
    with r(1) m(1) lm lr show ?thesis by auto
  next
    case False
    from m(2) have "link_inv m gs" by (simp add: link_moves_def)
    from Suc.IH [OF this]
    have "(\<exists>l' fs'. Link_read_loop fuel sops now m = Inr l' \<and> link_moves m gs l' fs' [] [] \<and> link_reads m gs l' fs')
      \<or> (Link_read_loop fuel sops now m = Inl Fuel_exhausted \<and> fuel \<le> length (incoming s))"
      using m(4) by simp
    moreover have "length (incoming s) < length (incoming (lstream l))" using r(5) False by simp
    ultimately show ?thesis
      using r(1) m(1) False link_moves_trans [OF lm] link_reads_trans [OF lr] by fastforce
  qed
qed simp

lemma transport_read_ready_law:
  assumes "link_inv l fs"
  shows "(\<exists>l' fs'. Link_transport_read_ready fuel sops now l = Inr l' \<and> link_moves l fs l' fs' [] []
       \<and> link_reads l fs l' fs')
     \<or> (Link_transport_read_ready fuel sops now l = Inl Fuel_exhausted \<and> fuel \<le> length (incoming (lstream l)))"
  using read_loop_law [OF assms] link_moves_refl [OF assms] link_reads_refl [of l l fs]
  by (auto simp: Link_transport_read_ready_def)

text \<open>A change of bookkeeping fields is no move.\<close>

lemma link_moves_quiet:
  assumes "link_inv l fs" "lstream l' = lstream l" "lrecv_buffer l' = lrecv_buffer l"
    "waiting_recv_packet l' = waiting_recv_packet l" "lsend_buffer_current l' = lsend_buffer_current l"
    "in_flight_queue l' = in_flight_queue l" "in_flight_bytes l' = in_flight_bytes l"
    "last_seq_sent l' = last_seq_sent l" "rtt l' = rtt l" "bandwidth l' = bandwidth l"
  shows "link_moves l fs l' fs [] []"
  using link_moves_refl [OF assms(1)] assms(2-)
  by (simp add: link_moves_def link_sent_def waiting_list_def key_def link_inv_def link_ok_def in_flight_ok_def)

lemma recv_law:
  assumes "link_inv l fs" "Link_recv l = (r, l')"
  shows "link_moves l fs l' fs [] (case r of None \<Rightarrow> [] | Some d \<Rightarrow> [d])"
proof (cases "timed_out l \<or> waiting_recv_packet l = None")
  case True
  with assms(2) have "r = None" "l' = l \<or> l' = l\<lparr>waiting_recv_packet := None\<rparr> \<and> waiting_recv_packet l = None"
    by (auto simp: Link_recv_def Let_def split: if_splits)
  then show ?thesis by (auto intro!: link_moves_quiet [OF assms(1)])
next
  case False
  then obtain d where d: "waiting_recv_packet l = Some d" "\<not> timed_out l" by blast
  with assms(2) have r: "r = Some d" "l' = lschedule Task_transport_read_ready (l\<lparr>waiting_recv_packet := None\<rparr>)"
    by (auto simp: Link_recv_def Let_def)
  have "link_inv l' fs" "link_sent l' = link_sent l" "key l' = key l" "waiting_list l = [d] @ waiting_list l'"
    using assms(1) d(1) r(2)
    by (simp_all add: lschedule_def link_inv_def link_sent_def key_def waiting_list_def link_ok_def in_flight_ok_def)
  then show ?thesis unfolding link_moves_def r(1)
    by (intro conjI exI [of _ "[]"]) simp_all
qed

text \<open>Formatting a frame into an empty send buffer appends it to what is sent.\<close>

lemma raw_send_moves:
  assumes "link_inv l fs" "lsend_buffer_current l = []" "Link_raw_send_packet ty d l = Inr l'" "ty \<noteq> 0" "frame_ok (ty, d)"
  shows "link_moves l fs l' fs [] []"
proof -
  have l': "l' = lschedule Task_transport_write_ready (l\<lparr>lsend_buffer_current := link_frame ty d\<rparr>)"
    using assms(3) by (auto simp: Link_raw_send_packet_def Link_format_send_packet_def result_simps split: if_splits)
  have "link_inv l' fs" "link_sent l' = link_sent l @ link_bytes [(ty, d)]" "key l' = key l"
    "waiting_list l' = waiting_list l"
    using assms(1,2)
    by (simp_all add: l' lschedule_def link_inv_def link_sent_def key_def waiting_list_def link_ok_def in_flight_ok_def)
  then show ?thesis using assms(4,5) unfolding link_moves_def
    by (intro conjI exI [of _ "[(ty, d)]"] exI [of _ "[]"]) simp_all
qed

lemma send_aux_law:
  assumes "link_inv l fs"
  shows "\<exists>busy l'. Link_send_aux now l = Inr (busy, l') \<and> link_moves l fs l' fs [] []
     \<and> (\<not> busy \<longrightarrow> l' = l \<and> lsend_buffer_current l = [])"
proof (cases "lsend_buffer_current l \<noteq> [] \<or> last_pong_request_time l = 0 \<and> \<not> Link_should_ping now l")
  case True
  then show ?thesis using link_moves_refl [OF assms] by (auto simp: Link_send_aux_def)
next
  case False
  define ty :: u8 where "ty = (if last_pong_request_time l \<noteq> 0 then 2 else 1)"
  define d where "d = (if last_pong_request_time l \<noteq> 0
    then put_u64 (last_pong_request_time l) @ put_u64 (last_pong_request_seq l) else put_u64 now @ put_u64 (last_seq_sent l))"
  let ?m = "lschedule Task_transport_write_ready (l\<lparr>lsend_buffer_current := link_frame ty d\<rparr>)"
  have len: "length d = 16" by (simp add: d_def)
  then have raw: "Link_raw_send_packet ty d l = Inr ?m"
    by (simp add: Link_raw_send_packet_def Link_format_send_packet_def LINK_MTU_def HEADER_SIZE_def)
  have mv: "link_moves l fs ?m fs [] []"
    by (rule raw_send_moves [OF assms _ raw])
      (use False len in \<open>auto simp: ty_def frame_ok_def LINK_MTU_def HEADER_SIZE_def\<close>)
  let ?n = "if last_pong_request_time l \<noteq> 0 then ?m\<lparr>last_pong_request_time := 0, last_pong_request_seq := 0\<rparr>
    else ?m\<lparr>last_ping_sent := now\<rparr>"
  have "link_inv ?m fs" using mv by (simp add: link_moves_def)
  then have "link_moves ?m fs ?n fs [] []"
    by (rule link_moves_quiet) simp_all
  from link_moves_trans [OF mv this] have "link_moves l fs ?n fs [] []" by simp
  moreover have "Link_send_aux now l = Inr (True, ?n)"
    using False raw by (auto simp: Link_send_aux_def Link_send_pong_def Link_send_ping_def ty_def d_def)
  ultimately show ?thesis by blast
qed

lemma send_law:
  assumes "link_inv l fs" "Link_send now seq d l = Inr (b, l')"
  shows "link_moves l fs l' fs (if b then [(seq, d)] else []) []"
proof (cases "timed_out l \<or> bufferbloat_avoidance l")
  case True
  with assms link_moves_refl show ?thesis by (auto simp: Link_send_def split: if_splits)
next
  case False
  from send_aux_law [OF assms(1), of now] obtain busy m where
    m: "Link_send_aux now l = Inr (busy, m)" "link_moves l fs m fs [] []"
      "\<not> busy \<longrightarrow> m = l \<and> lsend_buffer_current l = []" by blast
  show ?thesis
  proof (cases busy)
    case True
    with m(1,2) False assms(2) show ?thesis by (simp add: Link_send_def)
  next
    case nb: False
    with m have ml: "m = l" "lsend_buffer_current l = []" by simp_all
    from assms(2) False nb m(1) have ok: "b" "last_seq_sent l < seq" "length d + HEADER_SIZE \<le> LINK_MTU"
      "l' = lschedule Task_transport_write_ready (l\<lparr>last_seq_sent := seq, lsend_buffer_current := link_frame 0 d\<rparr>)
        \<lparr>in_flight_bytes := in_flight_bytes l + of_nat (length d),
         in_flight_queue := in_flight_queue l @ [\<lparr>pseq = seq, pbuf = d, transmit_time = now\<rparr>]\<rparr>"
      by (auto simp: ml Link_send_def Link_raw_send_packet_def Link_format_send_packet_def result_simps
          lschedule_def split: if_splits)
    have "link_inv l' fs" "link_sent l' = link_sent l @ link_bytes [(0, d)]" "key l @ [(seq, d)] = key l'"
      "waiting_list l' = waiting_list l"
      using assms(1) ml(2) ok(2)
      by (auto simp: ok(4) lschedule_def link_inv_def link_sent_def key_def waiting_list_def link_ok_def
          in_flight_ok_def sorted_wrt_append)
    then show ?thesis using ok(1,3) unfolding link_moves_def
      by (intro conjI exI [of _ "[(0, d)]"] exI [of _ "[]"]) (simp_all add: frame_ok_def)
  qed
qed

lemma transport_write_ready_law:
  assumes "link_inv l fs" "Link_transport_write_ready sops is_real now l = Inr l'"
  shows "link_moves l fs l' fs [] []"
proof (cases "timed_out l")
  case True
  with assms link_moves_refl show ?thesis by (auto simp: Link_transport_write_ready_def)
next
  case False
  from assms(1) have "sinv (lstream l)" by (simp add: link_inv_def)
  from write_loop_law [OF this] obtain s cur where
    w: "write_loop sops (lstream l) (lsend_buffer_current l) = Inr (s, cur)" "sinv s"
      "written s @ cur = written (lstream l) @ lsend_buffer_current l" "incoming s = incoming (lstream l)" by blast
  let ?n = "of_nat (length (lsend_buffer_current l) - length cur)"
  let ?l = "l\<lparr>lstream := s, lsend_buffer_current := cur\<rparr>"
  let ?l2 = "if cur = [] \<and> send_buffer_edge l then lschedule Task_send_ready_edge (?l\<lparr>send_buffer_edge := False\<rparr>) else ?l"
  let ?B = "\<lambda>b. if cur \<noteq> [] then BandwidthEstimator_output_queue_full now b
    else if length (lsend_buffer_current l) - length cur = 0 then BandwidthEstimator_input_queue_empty now b else b"
  have "Link_transport_write_ready sops is_real now l
      = bindR (BandwidthEstimator_data_written now ?n (bandwidth l)) (\<lambda>b. Inr (?l2\<lparr>bandwidth := ?B b\<rparr>))"
    using write_ready_unfold [OF False w(1)] by simp
  with assms(2) obtain b where b: "BandwidthEstimator_data_written now ?n (bandwidth l) = Inr b"
    and l': "l' = ?l2\<lparr>bandwidth := ?B b\<rparr>"
    by (cases "BandwidthEstimator_data_written now ?n (bandwidth l)") simp_all
  have f: "lstream l' = s" "lsend_buffer_current l' = cur" "lrecv_buffer l' = lrecv_buffer l"
    "waiting_recv_packet l' = waiting_recv_packet l" "in_flight_queue l' = in_flight_queue l"
    "in_flight_bytes l' = in_flight_bytes l" "last_seq_sent l' = last_seq_sent l" "rtt l' = rtt l"
    "bandwidth l' = ?B b"
    by (simp_all add: l' lschedule_def)
  have "estimator_ok b"
    using data_written_law [of "bandwidth l" now ?n] assms(1) b
    by (simp add: link_inv_def link_ok_def)
  then have "estimator_ok (bandwidth l')"
    by (simp add: f(9) BandwidthEstimator_output_queue_full_def BandwidthEstimator_input_queue_empty_def
        estimator_ok_def)
  then have "link_inv l' fs" "link_sent l' = link_sent l" "key l' = key l" "waiting_list l' = waiting_list l"
    using assms(1) w
    by (auto simp: f link_inv_def link_sent_def key_def waiting_list_def link_ok_def in_flight_ok_def)
  then show ?thesis unfolding link_moves_def by (intro conjI exI [of _ "[]"]) simp_all
qed

lemma edge_law:
  assumes "link_inv l fs"
  shows "\<exists>b l'. Link_on_send_ready_edge now l = Inr (b, l') \<and> link_moves l fs l' fs [] []"
proof -
  let ?m = "l\<lparr>send_buffer_edge := True\<rparr>"
  have mv: "link_moves l fs ?m fs [] []" by (rule link_moves_quiet [OF assms]) simp_all
  then have "link_inv ?m fs" by (simp add: link_moves_def)
  from send_aux_law [OF this, of now] link_moves_trans [OF mv] show ?thesis
    by (fastforce simp: Link_on_send_ready_edge_def)
qed

lemma timer_callback_law:
  assumes "link_inv l fs" "Link_timer_callback now l = Inr l'"
  shows "link_moves l fs l' fs [] []"
proof (cases "timed_out l")
  case True
  with assms link_moves_refl show ?thesis by (auto simp: Link_timer_callback_def)
next
  case False
  from send_aux_law [OF assms(1), of now] obtain b m where
    m: "Link_send_aux now l = Inr (b, m)" "link_moves l fs m fs [] []" by blast
  then have inv: "link_inv m fs" by (simp add: link_moves_def)
  from assms(2) False m(1) obtain n where n: "Link_maybe_retransmit now m = Inr n"
    "l' = n\<lparr>ltimers := ltimers n @ [PING_INTERVAL]\<rparr>"
    by (auto simp: Link_timer_callback_def result_simps)
  have "link_moves m fs l' fs [] []"
    by (rule link_moves_quiet [OF inv])
      (use n in \<open>auto simp: Link_maybe_retransmit_def lschedule_def split: if_splits list.splits\<close>)
  from link_moves_trans [OF m(2) this] show ?thesis by simp
qed

end

section \<open>A link as a step system\<close>

datatype link_event = Accepted u64 bytes | Delivered bytes | Quiet

text \<open>Everything the reactor, the timer and the multilink above call on a link.\<close>

inductive link_step :: "'s stream_ops \<Rightarrow> 's link \<Rightarrow> link_event \<Rightarrow> 's link \<Rightarrow> bool"
  for ops :: "'s stream_ops" where
  "Link_transport_read_ready fuel ops now l = Inr l' \<Longrightarrow> link_step ops l Quiet l'"
| "Link_transport_write_ready ops is_real now l = Inr l' \<Longrightarrow> link_step ops l Quiet l'"
| "Link_on_send_ready_edge now l = Inr (b, l') \<Longrightarrow> link_step ops l Quiet l'"
| "Link_send_aux now l = Inr (b, l') \<Longrightarrow> link_step ops l Quiet l'"
| "Link_timer_callback now l = Inr l' \<Longrightarrow> link_step ops l Quiet l'"
| "Link_recv l = (None, l') \<Longrightarrow> link_step ops l Quiet l'"
| "Link_recv l = (Some d, l') \<Longrightarrow> link_step ops l (Delivered d) l'"
| "Link_send now seq d l = Inr (True, l') \<Longrightarrow> link_step ops l (Accepted seq d) l'"
| "Link_send now seq d l = Inr (False, l') \<Longrightarrow> link_step ops l Quiet l'"

inductive_cases link_stepE: "link_step ops l e l'"

inductive link_trace :: "'s stream_ops \<Rightarrow> 's link \<Rightarrow> link_event list \<Rightarrow> 's link \<Rightarrow> bool"
  for ops :: "'s stream_ops" where
  link_trace_nil: "link_trace ops l [] l"
| link_trace_cons: "link_step ops l e m \<Longrightarrow> link_trace ops m es n \<Longrightarrow> link_trace ops l (e # es) n"

definition accepted :: "link_event list \<Rightarrow> (u64 \<times> bytes) list" where
  "accepted es = concat (map (\<lambda>e. case e of Accepted s d \<Rightarrow> [(s, d)] | _ \<Rightarrow> []) es)"

definition delivered :: "link_event list \<Rightarrow> bytes list" where
  "delivered es = concat (map (\<lambda>e. case e of Delivered d \<Rightarrow> [d] | _ \<Rightarrow> []) es)"

lemma event_simps [simp]:
  "accepted [] = []" "delivered [] = []"
  "accepted (e # es) = (case e of Accepted s d \<Rightarrow> [(s, d)] | _ \<Rightarrow> []) @ accepted es"
  "delivered (e # es) = (case e of Delivered d \<Rightarrow> [d] | _ \<Rightarrow> []) @ delivered es"
  by (simp_all add: accepted_def delivered_def)

context byte_stream
begin

lemma link_step_law:
  assumes "link_step sops l e l'" "link_inv l fs"
  shows "\<exists>fs'. link_moves l fs l' fs' (accepted [e]) (delivered [e])"
  using assms(1)
proof (rule link_stepE)
  fix fuel now assume "e = Quiet" "Link_transport_read_ready fuel sops now l = Inr l'"
  with transport_read_ready_law [OF assms(2), of fuel now] show ?thesis by auto
next
  fix now b assume "e = Quiet" "Link_on_send_ready_edge now l = Inr (b, l')"
  with edge_law [OF assms(2), of now] show ?thesis by auto
next
  fix now b assume "e = Quiet" "Link_send_aux now l = Inr (b, l')"
  with send_aux_law [OF assms(2), of now] show ?thesis by auto
next
  fix d assume "e = Delivered d" "Link_recv l = (Some d, l')"
  with recv_law [OF assms(2), of "Some d" l'] show ?thesis by auto
next
  assume "e = Quiet" "Link_recv l = (None, l')"
  with recv_law [OF assms(2), of None l'] show ?thesis by auto
next
  fix now seq d assume "e = Accepted seq d" "Link_send now seq d l = Inr (True, l')"
  with send_law [OF assms(2), of now seq d True l'] show ?thesis by auto
next
  fix now seq d assume "e = Quiet" "Link_send now seq d l = Inr (False, l')"
  with send_law [OF assms(2), of now seq d False l'] show ?thesis by auto
next
  fix is_real now assume "e = Quiet" "Link_transport_write_ready sops is_real now l = Inr l'"
  with transport_write_ready_law [OF assms(2), of is_real now l'] show ?thesis by auto
next
  fix now assume "e = Quiet" "Link_timer_callback now l = Inr l'"
  with timer_callback_law [OF assms(2), of now l'] show ?thesis by auto
qed

lemma link_trace_law:
  "link_trace sops l es l' \<Longrightarrow> link_inv l fs \<Longrightarrow> \<exists>fs'. link_moves l fs l' fs' (accepted es) (delivered es)"
proof (induction arbitrary: fs rule: link_trace.induct)
  case (link_trace_nil l)
  then show ?case using link_moves_refl by auto
next
  case (link_trace_cons l e m es n)
  from link_step_law [OF link_trace_cons.hyps(1) link_trace_cons.prems] obtain gs where
    g: "link_moves l fs m gs (accepted [e]) (delivered [e])" by blast
  then have "link_inv m gs" by (simp add: link_moves_def)
  with link_trace_cons.IH obtain hs where "link_moves m gs n hs (accepted es) (delivered es)" by blast
  from link_moves_trans [OF g this] show ?case by (auto simp: accepted_def delivered_def)
qed

end

lemma Link_init_law:
  "\<exists>l. Link_init s = Inr l \<and> lstream l = s \<and> lrecv_buffer l = [] \<and> waiting_recv_packet l = None
     \<and> lsend_buffer_current l = [] \<and> in_flight_queue l = [] \<and> link_ok l \<and> \<not> timed_out l
     \<and> \<not> bufferbloat_avoidance l \<and> last_seq_sent l = 0 \<and> last_ping_sent l = 0 \<and> last_pong_request_time l = 0"
  by (simp add: Link_init_def Stats_add_and_remove_back_def Stats_init_def Stats_add_def link_ok_def in_flight_ok_def
      stats_ok_def BandwidthEstimator_init_def estimator_ok_def)

lemma link_frame_example: "link_frame 0 [b] = [0, 4, 0, b]"
  by (simp add: link_frame_def put_u16_def htons_def to_le_numeral HEADER_SIZE_def)

lemma link_inv_sock:
  assumes "Link_init (sock_reactor \<lparr>rx = xs, wx = ws, tx = []\<rparr>) = Inr l"
  shows "sock.fd_inv (lstream l)" "length (lrecv_buffer l) \<le> LINK_MTU" "link_ok l"
    "lrecv_buffer l @ concat (rx (kernel (lstream l))) = concat xs"
  using Link_init_law [of "sock_reactor \<lparr>rx = xs, wx = ws, tx = []\<rparr>"] assms
  by (auto simp: sock_reactor_def sock.fd_inv_def)

text \<open>A concrete run of the read handler: the socket holds one whole frame.\<close>

lemma link_frame_read: 
  "length d + HEADER_SIZE \<le> LINK_MTU \<Longrightarrow> unat (ntohs (get_u16 (link_frame ty d))) = length d + HEADER_SIZE"
  using link_frame_size [of d ty "[]"] by simp

lemma parse_loop_empty: "lrecv_buffer m = [] \<Longrightarrow> Link_parse_loop now m = Inr m"
  by (subst Link_parse_loop.simps) (simp add: Link_try_parse_recv_packet_def Let_def)

lemma parse_one_frame:
  assumes "length d + HEADER_SIZE \<le> LINK_MTU" "waiting_recv_packet l = None" "lrecv_buffer l = link_frame ty d"
    "Link_parse_recv_packet now (link_frame ty d) l = Inr m"
  shows "Link_parse_loop now l = Inr (m\<lparr>lrecv_buffer := []\<rparr>)"
proof -
  have "Link_try_parse_recv_packet now l = Inr (True, m\<lparr>lrecv_buffer := []\<rparr>)"
    using assms link_frame_read [OF assms(1), of ty] by (simp add: Link_try_parse_recv_packet_def Let_def HEADER_SIZE_def)
  then show ?thesis by (subst Link_parse_loop.simps) (simp add: assms(2) parse_loop_empty)
qed

lemma sock_read_whole:
  "c \<noteq> [] \<Longrightarrow> length c \<le> m \<Longrightarrow> sread (FD_ops sock_kernel 0) (sock_reactor \<lparr>rx = [c], wx = ws, tx = t\<rparr>) m
     = Inr (c, sock_reactor \<lparr>rx = [], wx = ws, tx = t\<rparr>)"
  "sread (FD_ops sock_kernel 0) (sock_reactor \<lparr>rx = [], wx = ws, tx = t\<rparr>) m = Inr ([], sock_reactor \<lparr>rx = [], wx = ws, tx = t\<rparr>)"
  by (simp_all add: FD_ops_def FD_read_def sock_kernel_def sock_read_def sock_reactor_def)

lemma read_one_frame:
  assumes "length d + HEADER_SIZE \<le> LINK_MTU" "waiting_recv_packet l = None" "lrecv_buffer l = []" "\<not> timed_out l"
    "lstream l = sock_reactor \<lparr>rx = [link_frame ty d], wx = ws, tx = t\<rparr>"
    and m: "Link_parse_recv_packet now (link_frame ty d)
      (l\<lparr>lstream := sock_reactor \<lparr>rx = [], wx = ws, tx = t\<rparr>, lrecv_buffer := link_frame ty d\<rparr>) = Inr m"
    "lstream m = sock_reactor \<lparr>rx = [], wx = ws, tx = t\<rparr>"
  shows "Link_transport_read_ready (Suc (Suc n)) (FD_ops sock_kernel 0) now l = Inr (m\<lparr>lrecv_buffer := []\<rparr>)"
proof -
  have f: "link_frame ty d \<noteq> []" "length (link_frame ty d) \<le> LINK_MTU" using assms(1) by (auto simp: link_frame_def HEADER_SIZE_def)
  have "Link_parse_loop now (l\<lparr>lstream := sock_reactor \<lparr>rx = [], wx = ws, tx = t\<rparr>, lrecv_buffer := link_frame ty d\<rparr>)
      = Inr (m\<lparr>lrecv_buffer := []\<rparr>)"
    by (rule parse_one_frame [OF assms(1) _ _ m(1)]) (simp_all add: assms(2))
  moreover have "m\<lparr>lstream := sock_reactor \<lparr>rx = [], wx = ws, tx = t\<rparr>, lrecv_buffer := []\<rparr> = m\<lparr>lrecv_buffer := []\<rparr>"
    by (simp flip: m(2))
  ultimately show ?thesis
    using assms(3-5) f m(2) by (simp add: Link_transport_read_ready_def sock_read_whole parse_loop_empty)
qed

text \<open>The comparison of a signed round-trip time with an unsigned mark.\<close>

lemma to_int32_bounds: "- (2 ^ 31) \<le> to_int32 w \<and> to_int32 w < 2 ^ 31"
  using sint_range_size [of "ucast w :: 32 word"] by (simp add: to_int32_def word_size)

lemma mark_compare:
  fixes v :: int
  assumes "- (2 ^ 31) \<le> v" "v < 2 ^ 31" "m < (2 ^ 31 :: nat)"
  shows "(of_int v :: u64) < of_nat m \<longleftrightarrow> 0 \<le> v \<and> v < int m"
    and "of_nat m < (of_int v :: u64) \<longleftrightarrow> v < 0 \<or> int m < v"
proof -
  have m: "uint (of_nat m :: u64) = int m" using assms(3) by (simp add: uint_nat unat_of_nat)
  have v: "uint (of_int v :: u64) = (if 0 \<le> v then v else v + 2 ^ 64)"
  proof (cases "0 \<le> v")
    case True
    with assms(2) show ?thesis by (simp add: uint_word_of_int)
  next
    case False
    then have "v mod 2 ^ 64 = (v + 2 ^ 64) mod 2 ^ 64" by simp
    also have "\<dots> = v + 2 ^ 64" by (rule mod_pos_pos_trivial) (use False assms in simp_all)
    finally show ?thesis using False by (simp add: uint_word_of_int)
  qed
  show "(of_int v :: u64) < of_nat m \<longleftrightarrow> 0 \<le> v \<and> v < int m"
    using assms by (auto simp: word_less_def m v)
  show "of_nat m < (of_int v :: u64) \<longleftrightarrow> v < 0 \<or> int m < v"
    using assms by (auto simp: word_less_def m v)
qed

lemma bufferbloat_check_law:
  assumes "svalues (rtt l) = [v]" "ssum (rtt l) = v" "- (2 ^ 31) \<le> v" "v < 2 ^ 31"
  shows "bufferbloat_avoidance (Link_bufferbloat_check l) \<longleftrightarrow>
           (if bufferbloat_avoidance l then v < 0 \<or> 2000000 \<le> v else v < 0 \<or> 3000000 < v)"
    and "ltasks (Link_bufferbloat_check l) = ltasks l
           @ (if bufferbloat_avoidance l \<and> 0 \<le> v \<and> v < 2000000 then [Task_on_send_ready] else [])"
proof -
  have mean: "trunc (Stats_mean (rtt l)) = v" using assms(1,2) by (simp add: Stats_mean_def trunc_def)
  have "(of_int v < BUFFERBLOAT_LOW_MARK) = (0 \<le> v \<and> v < 2000000)"
    using mark_compare(1) [OF assms(3,4), of 2000000] by (simp add: BUFFERBLOAT_LOW_MARK_def)
  moreover have "(BUFFERBLOAT_HIGH_MARK < of_int v) = (v < 0 \<or> 3000000 < v)"
    using mark_compare(2) [OF assms(3,4), of 3000000] by (simp add: BUFFERBLOAT_HIGH_MARK_def)
  ultimately show "bufferbloat_avoidance (Link_bufferbloat_check l) \<longleftrightarrow>
           (if bufferbloat_avoidance l then v < 0 \<or> 2000000 \<le> v else v < 0 \<or> 3000000 < v)"
    and "ltasks (Link_bufferbloat_check l) = ltasks l
           @ (if bufferbloat_avoidance l \<and> 0 \<le> v \<and> v < 2000000 then [Task_on_send_ready] else [])"
    by (auto simp: Link_bufferbloat_check_def Let_def mean lschedule_def)
qed

section \<open>Properties\<close>

text \<open>C9: over any byte stream and for every interleaving of a link's handlers, the bytes a link has
  written or holds grow by whole frames whose data packets are exactly the packets \<open>send\<close> accepted, in
  order; and what it delivers is exactly, in order and without duplicates, the data of the frames its peer
  wrote, whatever the chunks the stream delivers.\<close>

theorem Link_carries_packets_in_order:
  assumes "byte_stream sops sinv written incoming" "sinv (lstream l)" "length (lrecv_buffer l) \<le> LINK_MTU" "link_ok l"
    and "link_wire (lrecv_buffer l @ incoming (lstream l)) fs" "link_trace sops l es l'"
  shows "\<exists>gs fs'. written (lstream l') @ lsend_buffer_current l'
             = written (lstream l) @ lsend_buffer_current l @ link_bytes gs
           \<and> data_of gs = map snd (accepted es) \<and> (\<forall>g \<in> set gs. frame_ok g)
           \<and> waiting_list l @ data_of fs = delivered es @ waiting_list l' @ data_of fs'
           \<and> link_wire (lrecv_buffer l' @ incoming (lstream l')) fs'"
proof -
  note loc = assms(1)
  have "byte_stream.link_inv sinv incoming l fs"
    using assms(2-5) by (simp add: byte_stream.link_inv_def [OF loc])
  from byte_stream.link_trace_law [OF loc assms(6) this] obtain fs' gs used where
    "byte_stream.link_inv sinv incoming l' fs'"
    "byte_stream.link_sent written l' = byte_stream.link_sent written l @ link_bytes gs"
    "\<forall>g \<in> set gs. frame_ok g" "data_of gs = map snd (accepted es)" "fs = used @ fs'"
    "waiting_list l @ data_of used = delivered es @ waiting_list l'"
    unfolding byte_stream.link_moves_def [OF loc] by blast
  moreover from this(5,6) have "waiting_list l @ data_of fs = delivered es @ waiting_list l' @ data_of fs'"
    by (metis append.assoc data_of_simps(3))
  ultimately show ?thesis
    unfolding byte_stream.link_inv_def [OF loc] byte_stream.link_sent_def [OF loc]
    by (metis append.assoc)
qed

theorem Link_carries_packets_in_order_witness:
  "\<exists>l l' fs'. Link_init (sock_reactor \<lparr>rx = [[0, 4], [0, 7]], wx = [], tx = []\<rparr>) = Inr l
     \<and> link_trace (FD_ops sock_kernel 0) l [Accepted 1 [9]] l' \<and> [[7]] = waiting_list l' @ data_of fs'"
proof -
  let ?s = "sock_reactor \<lparr>rx = [[0, 4], [0, 7]], wx = [], tx = []\<rparr>"
  from Link_init_law [of ?s] obtain l where l: "Link_init ?s = Inr l" "lstream l = ?s"
    "waiting_recv_packet l = None" "\<not> timed_out l" "\<not> bufferbloat_avoidance l" "lsend_buffer_current l = []"
    "last_pong_request_time l = 0" "last_ping_sent l = 0" "last_seq_sent l = 0" by blast
  have "\<exists>l'. Link_send 5 1 [9] l = Inr (True, l')"
    using l by (simp add: Link_send_def Link_send_aux_def Link_should_ping_def PING_INTERVAL_def
        Link_raw_send_packet_def Link_format_send_packet_def LINK_MTU_def HEADER_SIZE_def lschedule_def)
  then obtain l' where "Link_send 5 1 [9] l = Inr (True, l')" by blast
  then have t: "link_trace (FD_ops sock_kernel 0) l [Accepted 1 [9]] l'"
    by (intro link_trace_cons [OF _ link_trace_nil] link_step.intros)
  have "link_wire (lrecv_buffer l @ concat (rx (kernel (lstream l)))) [(0, [7])]"
    unfolding link_inv_sock(4) [OF l(1)]
    by (simp add: link_wire_def frame_ok_def link_frame_example HEADER_SIZE_def LINK_MTU_def)
  from Link_carries_packets_in_order [OF sock.fd_stream.byte_stream_axioms link_inv_sock(1-3) [OF l(1)] this t] l(1,3) t
  show ?thesis by (auto simp: waiting_list_def)
qed

text \<open>C10: no loss before acknowledgement. For every interleaving of the handlers, the packets in flight are
  those that were in flight or accepted, less a prefix, and every packet of that prefix is acknowledged by
  the sequence number of a pong the peer sent; \<open>in_flight_bytes\<close> is the total size of the packets in flight
  and their sequence numbers increase.\<close>

theorem Link_keeps_packets_until_acknowledged:
  assumes "byte_stream sops sinv written incoming" "sinv (lstream l)" "length (lrecv_buffer l) \<le> LINK_MTU" "link_ok l"
    and "link_wire (lrecv_buffer l @ incoming (lstream l)) fs" "link_trace sops l es l'"
  shows "(\<exists>acked. key l @ accepted es = acked @ key l'
             \<and> (\<forall>k \<in> set acked. \<exists>f \<in> set fs. fst f = 2 \<and> fst k \<le> pong_seq f))
         \<and> Link_get_estimated_in_flight l' = (\<Sum>k \<leftarrow> key l'. of_nat (length (snd k)))
         \<and> sorted_wrt (<) (map fst (key l'))"
proof -
  note loc = assms(1)
  have "byte_stream.link_inv sinv incoming l fs"
    using assms(2-5) by (simp add: byte_stream.link_inv_def [OF loc])
  from byte_stream.link_trace_law [OF loc assms(6) this] obtain fs' used acked where
    inv: "byte_stream.link_inv sinv incoming l' fs'" "fs = used @ fs'" "key l @ accepted es = acked @ key l'"
      "\<forall>k \<in> set acked. \<exists>f \<in> set used. fst f = 2 \<and> fst k \<le> pong_seq f"
    unfolding byte_stream.link_moves_def [OF loc] by blast
  then have "in_flight_ok l'" by (simp add: byte_stream.link_inv_def [OF loc] link_ok_def)
  then have "Link_get_estimated_in_flight l' = (\<Sum>k \<leftarrow> key l'. of_nat (length (snd k)))"
    "sorted_wrt (<) (map fst (key l'))"
    by (simp_all add: in_flight_ok_def Link_get_estimated_in_flight_def key_def o_def)
  moreover have "\<forall>k \<in> set acked. \<exists>f \<in> set fs. fst f = 2 \<and> fst k \<le> pong_seq f" using inv(2,4) by auto
  ultimately show ?thesis using inv(3) by blast
qed

theorem Link_keeps_packets_until_acknowledged_witness:
  "\<exists>l l'. Link_init (sock_reactor \<lparr>rx = [], wx = [], tx = []\<rparr>) = Inr l
     \<and> link_trace (FD_ops sock_kernel 0) l [Accepted 1 [9, 8]] l' \<and> key l' = [(1, [9, 8])]
     \<and> Link_get_estimated_in_flight l' = 2"
proof -
  let ?s = "sock_reactor \<lparr>rx = [], wx = [], tx = []\<rparr>"
  from Link_init_law [of ?s] obtain l where l: "Link_init ?s = Inr l" "lstream l = ?s"
    "\<not> timed_out l" "\<not> bufferbloat_avoidance l" "lsend_buffer_current l = []" "in_flight_queue l = []"
    "last_pong_request_time l = 0" "last_ping_sent l = 0" "last_seq_sent l = 0" by blast
  have "\<exists>l'. Link_send 5 1 [9, 8] l = Inr (True, l')"
    using l by (simp add: Link_send_def Link_send_aux_def Link_should_ping_def PING_INTERVAL_def
        Link_raw_send_packet_def Link_format_send_packet_def LINK_MTU_def HEADER_SIZE_def lschedule_def)
  then obtain l' where "Link_send 5 1 [9, 8] l = Inr (True, l')" by blast
  then have t: "link_trace (FD_ops sock_kernel 0) l [Accepted 1 [9, 8]] l'"
    by (intro link_trace_cons [OF _ link_trace_nil] link_step.intros)
  have "link_wire (lrecv_buffer l @ concat (rx (kernel (lstream l)))) []"
    unfolding link_inv_sock(4) [OF l(1)] by (simp add: link_wire_def)
  from Link_keeps_packets_until_acknowledged [OF sock.fd_stream.byte_stream_axioms link_inv_sock(1-3) [OF l(1)] this t]
  have "key l' = [(1, [9, 8])] \<and> Link_get_estimated_in_flight l' = (\<Sum>k \<leftarrow> key l'. of_nat (length (snd k)))"
    by (auto simp: key_def l(6) Cons_eq_append_conv)
  with l(1) t show ?thesis by auto
qed

text \<open>C11: the read handler on input its peer produced: one unit of fuel per byte still to come, and one more, is
  enough, nothing of the input is lost, and it asks the reactor for one \<open>send_aux\<close> per ping, one \<open>on_recv_ready\<close> per
  data packet and at most one \<open>on_send_ready\<close> per pong it consumes. Run on a reactor it returns, with exactly these
  functions appended to the queue, unless the queue would grow beyond the thousand functions \<open>Reactor::schedule\<close>
  asserts; then, and only then, the program aborts.\<close>

theorem Link_transport_read_ready_total:
  assumes "byte_stream sops sinv written incoming" "sinv (lstream l)" "length (lrecv_buffer l) \<le> LINK_MTU" "link_ok l"
    and "link_wire (lrecv_buffer l @ incoming (lstream l)) fs" "length (incoming (lstream l)) < fuel"
  shows "\<exists>l' used fs' ts. Link_transport_read_ready fuel sops now l = Inr l'
           \<and> link_wire (lrecv_buffer l' @ incoming (lstream l')) fs' \<and> length (lrecv_buffer l') \<le> LINK_MTU
           \<and> waiting_list l @ data_of fs = waiting_list l' @ data_of fs'
           \<and> fs = used @ fs' \<and> ltasks l' = ltasks l @ ts \<and> tasks_for used ts \<and> length ts \<le> length used
           \<and> Link_transport_read_ready_on emb fuel sops now (l, r) =
               (if ts = [] \<or> length (scheduled_functions r) + length ts \<le> 1000
                then Inr (l', r\<lparr>scheduled_functions := scheduled_functions r @ map emb ts\<rparr>) else Inl Assert_failed)"
proof -
  note loc = assms(1)
  have "byte_stream.link_inv sinv incoming l fs"
    using assms(2-5) by (simp add: byte_stream.link_inv_def [OF loc])
  from byte_stream.transport_read_ready_law [OF loc this, of fuel now] assms(6) obtain l' fs' where
    l': "Link_transport_read_ready fuel sops now l = Inr l'"
      "byte_stream.link_moves sinv written incoming l fs l' fs' [] []" "link_reads l fs l' fs'" by auto
  from l'(2) obtain xs where m: "byte_stream.link_inv sinv incoming l' fs'" "fs = xs @ fs'"
      "waiting_list l @ data_of xs = [] @ waiting_list l'"
    unfolding byte_stream.link_moves_def [OF loc] by auto
  from this(2,3) have d: "waiting_list l @ data_of fs = waiting_list l' @ data_of fs'"
    by (metis append.assoc append_Nil data_of_simps(3))
  from l'(3) obtain used ts where t: "fs = used @ fs'" "ltasks l' = ltasks l @ ts" "tasks_for used ts"
    unfolding link_reads_def by blast
  have "Link_transport_read_ready_on emb fuel sops now (l, r) =
      (if ts = [] \<or> length (scheduled_functions r) + length ts \<le> 1000
       then Inr (l', r\<lparr>scheduled_functions := scheduled_functions r @ map emb ts\<rparr>) else Inl Assert_failed)"
    by (simp add: Link_transport_read_ready_on_def l'(1) t(2) schedule_new_law)
  with l'(1) m(1) d t tasks_for_length [OF t(3)] show ?thesis unfolding byte_stream.link_inv_def [OF loc] by blast
qed

definition queue_of :: "nat list \<Rightarrow> (nat, sock) reactor" where
  "queue_of fs = (sock_reactor \<lparr>rx = [], wx = [], tx = []\<rparr>)\<lparr>scheduled_functions := fs\<rparr>"

theorem Link_transport_read_ready_total_witness:
  "\<exists>l l'. Link_init (sock_reactor \<lparr>rx = [link_frame 1 (put_u64 3 @ put_u64 4)], wx = [], tx = []\<rparr>) = Inr l
     \<and> Link_transport_read_ready_on (\<lambda>t. 7) 20 (FD_ops sock_kernel 0) 77 (l, queue_of (replicate 999 0))
       = Inr (l', queue_of (replicate 999 0 @ [7])) \<and> lrecv_buffer l' = []
     \<and> Link_transport_read_ready_on (\<lambda>t. 7) 20 (FD_ops sock_kernel 0) 77 (l, queue_of (replicate 1000 0)) = Inl Assert_failed"
proof -
  let ?p = "put_u64 3 @ put_u64 4"
  let ?s = "sock_reactor \<lparr>rx = [link_frame 1 ?p], wx = [], tx = []\<rparr>"
  from Link_init_law [of ?s] obtain l where l: "Link_init ?s = Inr l" "lstream l = ?s" "lrecv_buffer l = []"
    "waiting_recv_packet l = None" "\<not> timed_out l" by blast
  have ok: "frame_ok (1, ?p)" "length ?p + HEADER_SIZE \<le> LINK_MTU"
    by (simp_all add: frame_ok_def HEADER_SIZE_def LINK_MTU_def)
  have w: "link_wire (lrecv_buffer l @ concat (rx (kernel (lstream l)))) [(1, ?p)]"
    unfolding link_inv_sock(4) [OF l(1)] using ok by (simp add: link_wire_def)
  let ?l = "l\<lparr>lstream := sock_reactor \<lparr>rx = [], wx = [], tx = []\<rparr>, lrecv_buffer := link_frame 1 ?p\<rparr>"
  from parse_recv_packet_law [of ?l 1 ?p 77] ok l(4) link_inv_sock(3) [OF l(1)] obtain m where
    m: "Link_parse_recv_packet 77 (link_frame 1 ?p) ?l = Inr m" "lstream m = sock_reactor \<lparr>rx = [], wx = [], tx = []\<rparr>"
    by (auto simp: link_ok_def in_flight_ok_def)
  from read_one_frame [OF ok(2) l(4,3,5,2) m, of 18]
  have run: "Link_transport_read_ready 20 (FD_ops sock_kernel 0) 77 l = Inr (m\<lparr>lrecv_buffer := []\<rparr>)" by simp
  have fuel: "length (concat (rx (kernel (lstream l)))) < 20"
    by (simp add: l(2) sock_reactor_def)
  note law = Link_transport_read_ready_total [OF sock.fd_stream.byte_stream_axioms link_inv_sock(1-3) [OF l(1)] w fuel,
      of 77 "\<lambda>t. 7 :: nat"]
  from m(1) ok(1) have "ltasks m = ltasks l @ [Task_send_aux]"
    by (auto simp: Link_parse_recv_packet_def read_at_frame(3) lschedule_def result_simps split: if_splits)
  with law [of "queue_of (replicate 999 0)"] law [of "queue_of (replicate 1000 0)"] run l(1) show ?thesis
    by (auto simp: queue_of_def)
qed

text \<open>C29: a pong is processed completely: exactly the packets it does not acknowledge stay in flight, the
  round-trip window holds its measurement, and bufferbloat avoidance follows the two marks with hysteresis
  (a negative measurement counts as above both marks); leaving it schedules \<open>on_send_ready\<close>.\<close>

theorem Link_pong_effect:
  assumes "link_ok l" "scount (rtt l) = 1" "waiting_recv_packet l = None" "16 \<le> length d"
    "length d + HEADER_SIZE \<le> LINK_MTU" "v = to_int32 (now - get_u64 d)"
  shows "\<exists>l'. Link_parse_recv_packet now (link_frame 2 d) l = Inr l'
     \<and> in_flight_queue l' = filter (\<lambda>p. pong_seq (2, d) < pseq p) (in_flight_queue l)
     \<and> svalues (rtt l') = [v] \<and> link_ok l'
     \<and> (bufferbloat_avoidance l' \<longleftrightarrow> (if bufferbloat_avoidance l then v < 0 \<or> 2000000 \<le> v else v < 0 \<or> 3000000 < v))
     \<and> ltasks l' = ltasks l @ (if bufferbloat_avoidance l \<and> \<not> bufferbloat_avoidance l' then [Task_on_send_ready] else [])"
proof -
  have ok: "frame_ok (2, d)" using assms(4,5) by (simp add: frame_ok_def)
  from Stats_add_and_remove_back_law [of "rtt l" v] assms(1) obtain r where
    r: "Stats_add_and_remove_back v (rtt l) = Inr r" "stats_ok r"
      "svalues r = (if int (length (svalues (rtt l))) < 1 then svalues (rtt l) else tl (svalues (rtt l))) @ [v]"
    using assms(2) by (auto simp: link_ok_def)
  have "length (svalues (rtt l)) \<le> 1" using assms(1,2) by (simp add: link_ok_def stats_ok_def)
  with r(3) have rv: "svalues r = [v]" by (cases "svalues (rtt l)") auto
  with r(2) have rs: "ssum r = v" by (simp add: stats_ok_def)
  let ?k = "l\<lparr>rtt := r, last_pong_recv_seq := pong_seq (2, d), last_pong_recv_time := now\<rparr>"
  let ?m = "Link_bufferbloat_check ?k" and ?f = "Link_flush_in_flight_queue (Link_bufferbloat_check ?k)"
  have p: "Link_parse_recv_packet now (link_frame 2 d) l = Inr ?f"
    using assms(3) read_at_frame(1,2) [OF ok] r(1)
    by (simp add: Link_parse_recv_packet_def read_at_frame(3) pong_seq_def assms(6) get_u64_def)
  have m: "in_flight_ok ?m" using assms(1) by (simp add: link_ok_def in_flight_ok_def)
  have keep: "bufferbloat_avoidance ?f = bufferbloat_avoidance ?m" "ltasks ?f = ltasks ?m"
    by (simp_all add: Link_flush_in_flight_queue_def split: prod.splits)
  have b: "bufferbloat_avoidance ?m \<longleftrightarrow> (if bufferbloat_avoidance l then v < 0 \<or> 2000000 \<le> v else v < 0 \<or> 3000000 < v)"
    "ltasks ?m = ltasks l @ (if bufferbloat_avoidance l \<and> 0 \<le> v \<and> v < 2000000 then [Task_on_send_ready] else [])"
    using bufferbloat_check_law [of ?k v] rv rs to_int32_bounds [of "now - get_u64 d"] by (simp_all add: assms(6))
  have "link_ok ?f" using flush_law(1) [OF m] r(2) assms(1) by (simp add: link_ok_def)
  with p flush_law(2) [OF m] keep b rv show ?thesis by (intro exI [of _ ?f]) auto
qed

theorem Link_pong_effect_witness:
  "\<exists>l l'. Link_init () = Inr l
     \<and> Link_parse_recv_packet 4000000 (link_frame 2 (put_u64 0 @ put_u64 0)) l = Inr l' \<and> bufferbloat_avoidance l'"
proof -
  from Link_init_law [of "()"] obtain l where l: "Link_init () = Inr l" "link_ok l" "waiting_recv_packet l = None"
    "\<not> bufferbloat_avoidance l" by blast
  have "scount (rtt l) = 1"
    using l(1) by (auto simp: Link_init_def Stats_add_and_remove_back_def Stats_init_def Stats_add_def)
  with Link_pong_effect [OF l(2) _ l(3), of "put_u64 0 @ put_u64 0" 4000000 4000000] l(1,4) show ?thesis
    by (auto simp: LINK_MTU_def HEADER_SIZE_def to_int32_def)
qed

text \<open>\<open>maybe_retransmit\<close> tests \<open>empty() && !bufferbloat_avoidance\<close> before it takes \<open>front()\<close>, so it reads
  the front of an empty queue exactly when the link is idle in bufferbloat avoidance; in every other state it
  times out exactly when the oldest packet in flight is older than the timeout, and then hands out every
  packet in flight for retransmission.\<close>

theorem Link_maybe_retransmit_cases:
  "(Link_maybe_retransmit now l = Inl Undefined_behaviour \<longleftrightarrow>
      \<not> timed_out l \<and> in_flight_queue l = [] \<and> bufferbloat_avoidance l)
   \<and> (in_flight_queue l \<noteq> [] \<and> \<not> timed_out l \<longrightarrow>
         (\<exists>l'. Link_maybe_retransmit now l = Inr l' \<and> in_flight_queue l' = in_flight_queue l
             \<and> (timed_out l' \<longleftrightarrow> now - transmit_time (hd (in_flight_queue l)) > RETRANSMISSION_TIMEOUT)
             \<and> (timed_out l' \<longrightarrow> Link_get_packets_to_retransmit l' = Inr (map pbuf (in_flight_queue l)))))"
  by (auto simp: Link_maybe_retransmit_def Link_get_packets_to_retransmit_def lschedule_def split: list.splits)

theorem Link_maybe_retransmit_cases_witness:
  "\<exists>l. Link_init () = Inr l
     \<and> Link_maybe_retransmit 9000000 (l\<lparr>bufferbloat_avoidance := True\<rparr>) = Inl Undefined_behaviour
     \<and> (\<exists>l'. Link_maybe_retransmit 9000000 (l\<lparr>in_flight_queue := [\<lparr>pseq = 1, pbuf = [7], transmit_time = 0\<rparr>]\<rparr>) = Inr l'
          \<and> Link_get_packets_to_retransmit l' = Inr [[7]])"
proof -
  from Link_init_law [of "()"] obtain l where l: "Link_init () = Inr l" "\<not> timed_out l" "in_flight_queue l = []" by blast
  let ?l = "l\<lparr>in_flight_queue := [\<lparr>pseq = 1, pbuf = [7], transmit_time = 0\<rparr>]\<rparr>"
  from Link_maybe_retransmit_cases [of 9000000 ?l] l
  have "\<exists>l'. Link_maybe_retransmit 9000000 ?l = Inr l' \<and> Link_get_packets_to_retransmit l' = Inr [[7]]"
    by (auto simp: RETRANSMISSION_TIMEOUT_def)
  moreover from Link_maybe_retransmit_cases [of 9000000 "l\<lparr>bufferbloat_avoidance := True\<rparr>"] l
  have "Link_maybe_retransmit 9000000 (l\<lparr>bufferbloat_avoidance := True\<rparr>) = Inl Undefined_behaviour" by simp
  ultimately show ?thesis using l(1) by blast
qed

text \<open>A frame header that announces more than the receive buffer holds is only logged: once the buffer is
  full no read handler ever takes another byte or delivers a packet, and no error is reported.\<close>

theorem Link_oversize_frame_blocks:
  assumes "byte_stream sops sinv written incoming" "sinv (lstream l)" "\<not> timed_out l" "waiting_recv_packet l = None"
    and "length (lrecv_buffer l) = LINK_MTU" "LINK_MTU < unat (ntohs (get_u16 (lrecv_buffer l)))" "0 < fuel"
  shows "\<exists>s. Link_transport_read_ready fuel sops now l = Inr (l\<lparr>lstream := s\<rparr>)
           \<and> incoming s = incoming (lstream l)"
proof -
  from assms(7) obtain k where k: "fuel = Suc k" by (cases fuel) auto
  from byte_stream.sread_law [OF assms(1,2), of 0] obtain s where
    s: "sread sops (lstream l) 0 = Inr ([], s)" "incoming s = incoming (lstream l)" by auto
  have "Link_parse_loop now (l\<lparr>lstream := s\<rparr>) = Inr (l\<lparr>lstream := s\<rparr>)"
    using assms(4-6) by (subst Link_parse_loop.simps) (auto simp: Link_try_parse_recv_packet_def Let_def LINK_MTU_def)
  with s k assms(3,5) show ?thesis by (auto simp: Link_transport_read_ready_def)
qed

theorem Link_oversize_frame_blocks_witness:
  "\<exists>l s. Link_init (sock_reactor \<lparr>rx = [[5]], wx = [], tx = []\<rparr>) = Inr l
     \<and> Link_transport_read_ready 1 (FD_ops sock_kernel 0) 3 (l\<lparr>lrecv_buffer := replicate LINK_MTU 255\<rparr>)
         = Inr (l\<lparr>lrecv_buffer := replicate LINK_MTU 255, lstream := s\<rparr>)"
proof -
  let ?s = "sock_reactor \<lparr>rx = [[5]], wx = [], tx = []\<rparr>"
  from Link_init_law [of ?s] obtain l where l: "Link_init ?s = Inr l" "lstream l = ?s" "\<not> timed_out l"
    "waiting_recv_packet l = None" by blast
  let ?l = "l\<lparr>lrecv_buffer := replicate LINK_MTU 255\<rparr>"
  have "take 2 (replicate LINK_MTU (255 :: u8)) = [255, 255]" by (simp add: LINK_MTU_def numeral_2_eq_2)
  then have "get_u16 (lrecv_buffer ?l) = 65535" by (simp add: get_u16_def)
  then have "LINK_MTU < unat (ntohs (get_u16 (lrecv_buffer ?l)))"
    by (simp add: htons_def to_le_numeral LINK_MTU_def)
  with Link_oversize_frame_blocks [OF sock.fd_stream.byte_stream_axioms, of ?l 1 3] l(1,3,4) link_inv_sock(1) [OF l(1)]
  show ?thesis by auto
qed

end
