(* ===== verification/Multilink.thy ===== *)
theory Multilink
  imports Link Std_Heap
begin

text \<open>
  \<^verbatim>\<open>multilink/multilink.cpp\<close>: the multilink spreads the packets of one client over several links.

  A \<open>Link*\<close> is a number; \<open>mlinks\<close> is the vector of owned links in its order, so using a pointer to a link
  that has been removed is a use the model reports as undefined. \<open>mnext\<close> supplies fresh addresses.
  \<open>assigned_packets\<close> is the map from links to deques (a missing entry is an empty deque, as \<open>operator[]\<close>
  makes it). Functions passed to \<open>reactor.schedule\<close> are appended to \<open>mtasks\<close> (a bounded number in a handler; its assertion holds
  as long as the queue of the reactor, where \<open>schedule_new\<close> puts them, has room for these), callbacks of the user to
  \<open>mcalled\<close>, streams closed by a link's destructor to \<open>mclosed\<close>.

  What lies outside is the record \<open>multilink_env\<close>: the methods of the links' streams, \<open>random_shuffle\<close> (a
  function of a seed \<open>mrand\<close> and the vector), and the client behind \<open>on_send_ready\<close>, which is told by
  \<open>is_send_ready\<close> how many packets it may send and answers with packets it sends.
\<close>

section \<open>State\<close>

definition QUEUE_SIZE :: nat where "QUEUE_SIZE = 40"

datatype multilink_task = Task_link_send_ready nat | Task_link_recv_ready nat | Task_some_link_send_ready
datatype multilink_call = Called_on_recv_ready | Called_on_close nat

record ('s, 'c) multilink =
  mlinks :: "(nat \<times> 's link) list"
  link_on_close :: "nat \<rightharpoonup> nat"
  mqueue :: "bytes list"
  assigned_packets :: "nat \<Rightarrow> bytes list"
  mlast_seq :: u64
  mtasks :: "multilink_task list"
  mcalled :: "multilink_call list"
  mclosed :: "'s list"
  mclient :: 'c
  mrand :: nat
  mnext :: nat

record ('s, 'c) multilink_env =
  eops :: "'s stream_ops"
  random_shuffle :: "nat \<Rightarrow> (nat \<times> 's link) list \<Rightarrow> (nat \<times> 's link) list"
  on_send_ready :: "'c \<Rightarrow> nat \<Rightarrow> bytes list \<times> 'c"

definition Multilink_init :: "'c \<Rightarrow> ('s, 'c) multilink" where
  "Multilink_init c = \<lparr>mlinks = [], link_on_close = (\<lambda>_. None), mqueue = [], assigned_packets = (\<lambda>_. []),
     mlast_seq = 0, mtasks = [], mcalled = [], mclosed = [], mclient = c, mrand = 0, mnext = 0\<rparr>"

definition mschedule :: "multilink_task \<Rightarrow> ('s, 'c) multilink \<Rightarrow> ('s, 'c) multilink" where
  "mschedule t m = m\<lparr>mtasks := mtasks m @ [t]\<rparr>"

definition Multilink_shuffle_links :: "('s, 'c) multilink_env \<Rightarrow> ('s, 'c) multilink \<Rightarrow> ('s, 'c) multilink" where
  "Multilink_shuffle_links env m =
     m\<lparr>mlinks := random_shuffle env (mrand m) (mlinks m), mrand := mrand m + 1\<rparr>"

section \<open>The packet stream towards the client\<close>

definition Multilink_send_with_offset :: "('s, 'c) multilink \<Rightarrow> bytes \<Rightarrow> ('s, 'c) multilink result" where
  "Multilink_send_with_offset m data =
     assertR (length data \<le> MULTILINK_MTU)
      (assertR (length (mqueue m) < QUEUE_SIZE)
        (let was_empty = (mqueue m = []); m' = m\<lparr>mqueue := mqueue m @ [data]\<rparr>
         in Inr (if was_empty then mschedule Task_some_link_send_ready m' else m')))"

definition Multilink_is_send_ready :: "('s, 'c) multilink \<Rightarrow> bool" where
  "Multilink_is_send_ready m \<longleftrightarrow> length (mqueue m) < QUEUE_SIZE"

fun recv_first :: "(nat \<times> 's link) list \<Rightarrow> bytes option \<times> (nat \<times> 's link) list" where
  "recv_first [] = (None, [])"
| "recv_first ((i, l) # ls) = (case Link_recv l of
       (Some d, l') \<Rightarrow> (Some d, (i, l') # ls)
     | (None, l') \<Rightarrow> (let (r, ls') = recv_first ls in (r, (i, l') # ls')))"

definition Multilink_recv :: "('s, 'c) multilink_env \<Rightarrow> ('s, 'c) multilink \<Rightarrow> (bytes option \<times> ('s, 'c) multilink) result" where
  "Multilink_recv env m =
     (let m1 = Multilink_shuffle_links env m; (r, ls) = recv_first (mlinks m1) in Inr (r, m1\<lparr>mlinks := ls\<rparr>))"

definition Multilink_ops :: "('s, 'c) multilink_env \<Rightarrow> ('s, 'c) multilink packet_ops" where
  "Multilink_ops env =
     \<lparr>precv = Multilink_recv env,
      psend = AbstractPacketStream_send (\<lambda>_. 0) Multilink_send_with_offset,
      pis_send_ready = Multilink_is_send_ready,
      pclose = (\<lambda>m. m)\<rparr>"

text \<open>A call of \<open>on_send_ready\<close>: the client sends its packets through the interface above.\<close>

fun send_all :: "('s, 'c) multilink_env \<Rightarrow> bytes list \<Rightarrow> ('s, 'c) multilink \<Rightarrow> ('s, 'c) multilink result" where
  "send_all env [] m = Inr m"
| "send_all env (d # ds) m = bindR (psend (Multilink_ops env) m d) (send_all env ds)"

definition call_on_send_ready :: "('s, 'c) multilink_env \<Rightarrow> ('s, 'c) multilink \<Rightarrow> ('s, 'c) multilink result" where
  "call_on_send_ready env m =
     (let (ds, c) = on_send_ready env (mclient m) (QUEUE_SIZE - length (mqueue m))
      in send_all env ds (m\<lparr>mclient := c\<rparr>))"

section \<open>Links\<close>

definition Multilink_add_link ::
    "'s \<Rightarrow> string \<Rightarrow> nat \<Rightarrow> ('s, 'c) multilink \<Rightarrow> (nat \<times> ('s, 'c) multilink) result" where
  "Multilink_add_link s name on_close m =
     bindR (Link_init s) (\<lambda>l. let i = mnext m in
       Inr (i, mschedule (Task_link_recv_ready i) (mschedule (Task_link_send_ready i)
         (m\<lparr>mlinks := mlinks m @ [(i, l\<lparr>lname := name\<rparr>)], link_on_close := (link_on_close m)(i \<mapsto> on_close),
            mnext := i + 1\<rparr>))))"

definition Multilink_link_recv_ready :: "('s, 'c) multilink \<Rightarrow> ('s, 'c) multilink" where
  "Multilink_link_recv_ready m = m\<lparr>mcalled := mcalled m @ [Called_on_recv_ready]\<rparr>"

text \<open>
  \<open>assign_links_until\<close>. \<open>key(i)\<close> computes with doubles and converts to \<open>uint64_t\<close>; the heap is ordered by
  it, least first. The argument \<open>until\<close> is not used by the code.
\<close>

definition link_key :: "(nat \<times> 's link) list \<Rightarrow> u64 list \<Rightarrow> nat \<Rightarrow> u64" where
  "link_key ls estimated i =
     (let l = snd (ls ! i) in
      of_int (trunc (Stats_mean (rtt l) * 2
        + real (unat (estimated ! i)) / BandwidthEstimator_bandwidth_mbps (bandwidth l))))"

definition initial_estimate :: "(nat \<Rightarrow> bytes list) \<Rightarrow> nat \<times> 's link \<Rightarrow> u64" where
  "initial_estimate asg il = Link_get_estimated_in_flight (snd il) + (\<Sum>p \<leftarrow> asg (fst il). of_nat (length p))"

fun assign_loop :: "(nat \<times> 's link) list \<Rightarrow> nat \<Rightarrow> nat list \<Rightarrow> u64 list \<Rightarrow> (nat \<Rightarrow> bytes list) \<Rightarrow> bytes list \<Rightarrow>
    (nat \<Rightarrow> bytes list) \<times> bytes list" where
  "assign_loop ls drain_to L estimated asg [] = (asg, [])"
| "assign_loop ls drain_to L estimated asg (packet # q) =
     (if length (packet # q) > drain_to then
        let link = hd L;
            L1 = pop_heap (link_key ls estimated) L;
            estimated' = estimated[link := estimated ! link + of_nat (length packet)];
            asg' = asg(fst (ls ! link) := asg (fst (ls ! link)) @ [packet]);
            L2 = push_heap (link_key ls estimated') L1
        in assign_loop ls drain_to L2 estimated' asg' q
      else (asg, packet # q))"

definition drain_target :: "nat \<Rightarrow> nat" where
  "drain_target n = (if n < QUEUE_SIZE * 2 div 3 then 0 else n div 2)"

definition Multilink_assign_links_until :: "('s, 'c) multilink \<Rightarrow> ('s, 'c) multilink" where
  "Multilink_assign_links_until m =
     (if mlinks m = [] then m
      else let ls = mlinks m;
               estimated = map (initial_estimate (assigned_packets m)) ls;
               L = make_heap (link_key ls estimated) [0..<length ls];
               (asg, q) = assign_loop ls (drain_target (length (mqueue m))) L estimated (assigned_packets m) (mqueue m)
           in m\<lparr>assigned_packets := asg, mqueue := q\<rparr>)"

definition Multilink_request_packets :: "('s, 'c) multilink \<Rightarrow> ('s, 'c) multilink" where
  "Multilink_request_packets m = (if mqueue m = [] then m else Multilink_assign_links_until m)"

definition update_link :: "nat \<Rightarrow> 's link \<Rightarrow> (nat \<times> 's link) list \<Rightarrow> (nat \<times> 's link) list" where
  "update_link i l ls = map (\<lambda>e. if fst e = i then (i, l) else e) ls"

fun send_ready_loop :: "nat \<Rightarrow> ('s, 'c) multilink_env \<Rightarrow> u64 \<Rightarrow> nat \<Rightarrow> ('s, 'c) multilink \<Rightarrow> ('s, 'c) multilink result" where
  "send_ready_loop 0 env now i m = Inl Fuel_exhausted"
| "send_ready_loop (Suc fuel) env now i m =
     bindR (if length (mqueue m) < QUEUE_SIZE * 3 div 4 then call_on_send_ready env m else Inr m) (\<lambda>m1.
       let m2 = (if assigned_packets m1 i = [] then Multilink_request_packets m1 else m1) in
       case assigned_packets m2 i of
         [] \<Rightarrow> Inr m2
       | packet # rest \<Rightarrow>
           (case map_of (mlinks m2) i of
              None \<Rightarrow> Inl Undefined_behaviour
            | Some l \<Rightarrow>
                bindR (Link_send now (mlast_seq m2 + 1) packet l) (\<lambda>(ok, l').
                  let m3 = m2\<lparr>mlast_seq := mlast_seq m2 + 1, mlinks := update_link i l' (mlinks m2)\<rparr>
                  in if ok then send_ready_loop fuel env now i
                         (m3\<lparr>assigned_packets := (assigned_packets m3)(i := rest)\<rparr>)
                     else Inr m3)))"

fun remove_link :: "nat \<Rightarrow> (nat \<times> 's link) list \<Rightarrow> (nat \<times> 's link) list" where
  "remove_link i [] = []"
| "remove_link i (e # es) = (if fst e = i then es else e # remove_link i es)"

text \<open>Calling an empty \<open>std::function\<close> throws.\<close>

definition Multilink_link_send_ready ::
    "nat \<Rightarrow> ('s, 'c) multilink_env \<Rightarrow> u64 \<Rightarrow> nat \<Rightarrow> ('s, 'c) multilink \<Rightarrow> ('s, 'c) multilink result" where
  "Multilink_link_send_ready fuel env now i m =
     (case map_of (mlinks m) i of
        None \<Rightarrow> Inl Undefined_behaviour
      | Some l \<Rightarrow>
          (if timed_out l then
             bindR (Link_get_packets_to_retransmit l) (\<lambda>packets.
               case link_on_close m i of
                 None \<Rightarrow> Inl (Thrown ''bad_function_call'')
               | Some f \<Rightarrow> Inr (mschedule Task_some_link_send_ready
                   (m\<lparr>mqueue := mqueue m @ packets @ assigned_packets m i,
                      assigned_packets := (assigned_packets m)(i := []),
                      link_on_close := (link_on_close m)(i := None),
                      mlinks := remove_link i (mlinks m),
                      mclosed := mclosed m @ [Link_destroy (eops env) l],
                      mcalled := mcalled m @ [Called_on_close f]\<rparr>)))
           else send_ready_loop fuel env now i m))"

fun send_ready_each ::
    "nat \<Rightarrow> ('s, 'c) multilink_env \<Rightarrow> u64 \<Rightarrow> nat list \<Rightarrow> ('s, 'c) multilink \<Rightarrow> ('s, 'c) multilink result" where
  "send_ready_each fuel env now [] m = Inr m"
| "send_ready_each fuel env now (i # is) m =
     bindR (Multilink_link_send_ready fuel env now i m) (send_ready_each fuel env now is)"

definition Multilink_some_link_send_ready ::
    "nat \<Rightarrow> ('s, 'c) multilink_env \<Rightarrow> u64 \<Rightarrow> ('s, 'c) multilink \<Rightarrow> ('s, 'c) multilink result" where
  "Multilink_some_link_send_ready fuel env now m =
     (let m1 = Multilink_shuffle_links env m in send_ready_each fuel env now (map fst (mlinks m1)) m1)"

section \<open>Assignment is greedy\<close>

text \<open>
  The specification of the assignment: every packet goes to a link whose key is least among all links, and
  raises that link's estimate by its size.
\<close>

inductive greedy :: "(nat \<times> 's link) list \<Rightarrow> u64 list \<Rightarrow> (nat \<Rightarrow> bytes list) \<Rightarrow> bytes list \<Rightarrow>
    u64 list \<Rightarrow> (nat \<Rightarrow> bytes list) \<Rightarrow> bool" for ls :: "(nat \<times> 's link) list" where
  greedy_nil: "greedy ls est asg [] est asg"
| greedy_cons: "i < length ls \<Longrightarrow> (\<forall>j < length ls. link_key ls est i \<le> link_key ls est j) \<Longrightarrow>
    greedy ls (est[i := est ! i + of_nat (length p)]) (asg(fst (ls ! i) := asg (fst (ls ! i)) @ [p])) ps est' asg' \<Longrightarrow>
    greedy ls est asg (p # ps) est' asg'"

lemma assign_loop_greedy:
  assumes "is_heap (link_key ls est) L" "mset L = mset [0..<length ls]" "ls \<noteq> []"
  shows "\<exists>est' asg'. assign_loop ls drain L est asg q = (asg', drop (length q - drain) q)
           \<and> greedy ls est asg (take (length q - drain) q) est' asg'"
  using assms
proof (induction q arbitrary: L est asg)
  case Nil
  show ?case by (auto intro: greedy_nil)
next
  case (Cons p q)
  show ?case
  proof (cases "drain < length (p # q)")
    case False
    then show ?thesis by (auto intro: greedy_nil)
  next
    case True
    let ?i = "hd L" and ?key = "link_key ls est"
    let ?est = "est[?i := est ! ?i + of_nat (length p)]"
    let ?asg = "asg(fst (ls ! ?i) := asg (fst (ls ! ?i)) @ [p])"
    have set: "set L = {..<length ls}" using Cons.prems(2) by (metis atLeast_upt set_mset_mset)
    have "L \<noteq> []" using Cons.prems(3) set by (metis empty_set length_greater_0_conv lessThan_iff empty_iff)
    moreover have "distinct L" using mset_eq_imp_distinct_iff [OF Cons.prems(2)] by simp
    ultimately have L: "L \<noteq> []" "distinct L" .
    have i: "?i < length ls" using set hd_in_set [OF L(1)] by auto
    have least: "\<forall>j < length ls. ?key ?i \<le> ?key j"
      using is_heap_first [OF Cons.prems(1)] set by auto
    have "link_key ls ?est j = ?key j" if "j \<noteq> ?i" for j
      using that by (simp add: link_key_def)
    from heap.refresh_first [OF Cons.prems(1) L, of "link_key ls ?est"] this
    have "is_heap (link_key ls ?est) (push_heap (link_key ls ?est) (pop_heap ?key L))"
      "mset (push_heap (link_key ls ?est) (pop_heap ?key L)) = mset [0..<length ls]"
      using Cons.prems(2) by auto
    from Cons.IH [OF this Cons.prems(3), of ?asg] obtain est' asg' where
      "assign_loop ls drain (push_heap (link_key ls ?est) (pop_heap ?key L)) ?est ?asg q
         = (asg', drop (length q - drain) q)" "greedy ls ?est ?asg (take (length q - drain) q) est' asg'" by blast
    with True greedy_cons [OF i least, of p asg "take (length q - drain) q" est' asg'] show ?thesis
      by (auto simp: Let_def Suc_diff_le)
  qed
qed

lemma sum_fun_upd:
  "distinct ks \<Longrightarrow> i \<in> set ks \<Longrightarrow>
     (\<Sum>k \<leftarrow> ks. mset ((f(i := b)) k)) + mset (f i) = (\<Sum>k \<leftarrow> ks. mset (f k)) + mset b"
proof (induction ks)
  case (Cons k ks)
  show ?case
  proof (cases "k = i")
    case True
    with Cons.prems(1) have "(\<Sum>k \<leftarrow> ks. mset ((f(i := b)) k)) = (\<Sum>k \<leftarrow> ks. mset (f k))"
      by (intro arg_cong [where f = sum_list] map_cong) auto
    with True show ?thesis by simp
  next
    case False
    with Cons show ?thesis by (simp add: ac_simps)
  qed
qed simp

lemma sum_assigned_upd:
  "distinct (map fst ls) \<Longrightarrow> i \<in> fst ` set ls \<Longrightarrow>
     (\<Sum>e \<leftarrow> ls. mset ((f(i := b)) (fst e))) + mset (f i) = (\<Sum>e \<leftarrow> ls. mset (f (fst e))) + mset b"
  using sum_fun_upd [of "map fst ls" i f b] by (simp add: o_def)

lemma greedy_conserves:
  "greedy ls est asg ps est' asg' \<Longrightarrow> distinct (map fst ls) \<Longrightarrow>
     (\<Sum>e \<leftarrow> ls. mset (asg' (fst e))) = (\<Sum>e \<leftarrow> ls. mset (asg (fst e))) + mset ps
     \<and> (\<forall>i. i \<notin> fst ` set ls \<longrightarrow> asg' i = asg i) \<and> (\<forall>i. set (asg' i) \<subseteq> set (asg i) \<union> set ps)"
proof (induction rule: greedy.induct)
  case (greedy_cons i est p asg ps est' asg')
  let ?asg = "asg(fst (ls ! i) := asg (fst (ls ! i)) @ [p])"
  have "fst (ls ! i) \<in> fst ` set ls" using greedy_cons.hyps(1) by simp
  from sum_assigned_upd [OF greedy_cons.prems this, of asg "asg (fst (ls ! i)) @ [p]"]
  have snoc: "(\<Sum>e \<leftarrow> ls. mset (?asg (fst e))) = (\<Sum>e \<leftarrow> ls. mset (asg (fst e))) + {#p#}" by simp
  from greedy_cons.IH [OF greedy_cons.prems] have ih:
    "(\<Sum>e \<leftarrow> ls. mset (asg' (fst e))) = (\<Sum>e \<leftarrow> ls. mset (?asg (fst e))) + mset ps"
    "\<And>j. j \<notin> fst ` set ls \<Longrightarrow> asg' j = ?asg j" "\<And>j. set (asg' j) \<subseteq> set (?asg j) \<union> set ps" by blast+
  have "set (?asg j) \<subseteq> set (asg j) \<union> {p}" for j by auto
  with ih(3) have "set (asg' j) \<subseteq> set (asg j) \<union> set (p # ps)" for j by fastforce
  moreover have "asg' j = asg j" if "j \<notin> fst ` set ls" for j
    using ih(2) [OF that] that \<open>fst (ls ! i) \<in> fst ` set ls\<close> by auto
  ultimately show ?case unfolding ih(1) snoc by simp
qed simp

section \<open>Packets are conserved\<close>

definition env_ok :: "('s, 'c) multilink_env \<Rightarrow> bool" where
  "env_ok env \<longleftrightarrow> (\<forall>r ls. mset (random_shuffle env r ls) = mset ls)
     \<and> (\<forall>c n ds c'. on_send_ready env c n = (ds, c') \<longrightarrow> length ds \<le> n \<and> (\<forall>d \<in> set ds. length d \<le> MULTILINK_MTU))"

text \<open>The packets the client has sent while its state went from \<open>c\<close> to \<open>c'\<close>.\<close>

inductive client_run :: "('s, 'c) multilink_env \<Rightarrow> 'c \<Rightarrow> bytes list \<Rightarrow> 'c \<Rightarrow> bool" for env :: "('s, 'c) multilink_env" where
  client_nil: "client_run env c [] c"
| client_cons: "on_send_ready env c n = (ds, c') \<Longrightarrow> client_run env c' es c'' \<Longrightarrow> client_run env c (ds @ es) c''"

lemma client_run_trans:
  "client_run env a xs b \<Longrightarrow> client_run env b ys c \<Longrightarrow> client_run env a (xs @ ys) c"
  by (induction rule: client_run.induct) (auto intro: client_run.intros)

definition ids :: "('s, 'c) multilink \<Rightarrow> nat set" where
  "ids m = fst ` set (mlinks m)"

definition mux_ok :: "('s, 'c) multilink \<Rightarrow> bool" where
  "mux_ok m \<longleftrightarrow> distinct (map fst (mlinks m)) \<and> (\<forall>i. i \<notin> ids m \<longrightarrow> assigned_packets m i = [])
     \<and> (\<forall>i \<in> ids m. i < mnext m \<and> link_on_close m i \<noteq> None)
     \<and> (\<forall>d \<in> set (mqueue m). length d \<le> MULTILINK_MTU)
     \<and> (\<forall>i. \<forall>d \<in> set (assigned_packets m i). length d \<le> MULTILINK_MTU)
     \<and> (\<forall>e \<in> set (mlinks m). \<forall>p \<in> set (in_flight_queue (snd e)). length (pbuf p) \<le> MULTILINK_MTU)"

text \<open>Every packet the multilink is responsible for: queued, assigned to a link, or in flight on one.\<close>

definition held :: "('s, 'c) multilink \<Rightarrow> bytes multiset" where
  "held m = mset (mqueue m) + (\<Sum>e \<leftarrow> mlinks m. mset (assigned_packets m (fst e)))
     + (\<Sum>e \<leftarrow> mlinks m. mset (map pbuf (in_flight_queue (snd e))))"

lemma request_packets_law:
  assumes "mux_ok m"
  shows "mux_ok (Multilink_request_packets m) \<and> held (Multilink_request_packets m) = held m
    \<and> mlinks (Multilink_request_packets m) = mlinks m \<and> mclient (Multilink_request_packets m) = mclient m
    \<and> mlast_seq (Multilink_request_packets m) = mlast_seq m \<and> mtasks (Multilink_request_packets m) = mtasks m"
proof (cases "mqueue m = [] \<or> mlinks m = []")
  case True
  with assms show ?thesis by (auto simp: Multilink_request_packets_def Multilink_assign_links_until_def)
next
  case False
  let ?ls = "mlinks m" and ?q = "mqueue m" and ?n = "length (mqueue m) - drain_target (length (mqueue m))"
  let ?est = "map (initial_estimate (assigned_packets m)) ?ls"
  have mk: "is_heap (link_key ?ls ?est) (make_heap (link_key ?ls ?est) [0..<length ?ls])"
    "mset (make_heap (link_key ?ls ?est) [0..<length ?ls]) = mset [0..<length ?ls]"
    using heap.make_law by blast+
  from assign_loop_greedy [OF mk] False obtain est' asg' where
    a: "assign_loop ?ls (drain_target (length ?q)) (make_heap (link_key ?ls ?est) [0..<length ?ls]) ?est
          (assigned_packets m) ?q = (asg', drop ?n ?q)"
      "greedy ?ls ?est (assigned_packets m) (take ?n ?q) est' asg'" by blast
  have m': "Multilink_request_packets m = m\<lparr>assigned_packets := asg', mqueue := drop ?n ?q\<rparr>"
    using False a(1) by (simp add: Multilink_request_packets_def Multilink_assign_links_until_def Let_def)
  have d: "distinct (map fst ?ls)" using assms by (simp add: mux_ok_def)
  note c = greedy_conserves [OF a(2) d]
  have "mset (take ?n ?q) + mset (drop ?n ?q) = mset ?q" by (metis append_take_drop_id mset_append)
  with c have "held (Multilink_request_packets m) = held m"
    by (simp add: m' held_def ac_simps)
  moreover have "mux_ok (Multilink_request_packets m)"
  proof -
    have "length d \<le> MULTILINK_MTU" if "d \<in> set (asg' i)" for i d
      using that c assms in_set_takeD [of d ?n ?q] by (fastforce simp: mux_ok_def)
    then show ?thesis using assms c by (auto simp: m' mux_ok_def ids_def dest: in_set_dropD)
  qed
  ultimately show ?thesis by (simp add: m')
qed

lemma send_with_offset_cases:
  "Multilink_send_with_offset m d =
     (if length d \<le> MULTILINK_MTU \<and> length (mqueue m) < QUEUE_SIZE
      then Inr (m\<lparr>mqueue := mqueue m @ [d],
        mtasks := mtasks m @ (if mqueue m = [] then [Task_some_link_send_ready] else [])\<rparr>)
      else Inl Assert_failed)"
  by (simp add: Multilink_send_with_offset_def assertR_def mschedule_def)

lemma send_all_law:
  "ds = [] \<or> length (mqueue m) + length ds \<le> QUEUE_SIZE \<Longrightarrow> \<forall>d \<in> set ds. length d \<le> MULTILINK_MTU \<Longrightarrow>
     \<exists>ts. send_all env ds m = Inr (m\<lparr>mqueue := mqueue m @ ds, mtasks := mtasks m @ ts\<rparr>)"
proof (induction ds arbitrary: m)
  case (Cons d ds)
  let ?m = "m\<lparr>mqueue := mqueue m @ [d], mtasks := mtasks m @ (if mqueue m = [] then [Task_some_link_send_ready] else [])\<rparr>"
  have "psend (Multilink_ops env) m d = Inr ?m"
    using Cons.prems by (simp add: Multilink_ops_def AbstractPacketStream_send_def send_with_offset_cases)
  moreover from Cons.IH [of ?m] Cons.prems obtain ts where
    "send_all env ds ?m = Inr (?m\<lparr>mqueue := mqueue ?m @ ds, mtasks := mtasks ?m @ ts\<rparr>)" by auto
  ultimately show ?case
    by (intro exI [of _ "(if mqueue m = [] then [Task_some_link_send_ready] else []) @ ts"]) simp
qed (auto intro: exI [of _ "[]"])

lemma call_on_send_ready_law:
  assumes "env_ok env" "mux_ok m"
  shows "\<exists>ds m'. call_on_send_ready env m = Inr m' \<and> client_run env (mclient m) ds (mclient m')
     \<and> mux_ok m' \<and> held m' = held m + mset ds \<and> mlinks m' = mlinks m \<and> mlast_seq m' = mlast_seq m
     \<and> assigned_packets m' = assigned_packets m"
proof -
  obtain ds c where c: "on_send_ready env (mclient m) (QUEUE_SIZE - length (mqueue m)) = (ds, c)" by fastforce
  with assms(1) have d: "length ds \<le> QUEUE_SIZE - length (mqueue m)" "\<forall>d \<in> set ds. length d \<le> MULTILINK_MTU"
    unfolding env_ok_def by blast+
  from d(1) have "ds = [] \<or> length (mqueue m) + length ds \<le> QUEUE_SIZE"
    by (cases ds) auto
  with d(2) send_all_law [of ds "m\<lparr>mclient := c\<rparr>" env] obtain ts where
    "send_all env ds (m\<lparr>mclient := c\<rparr>) = Inr (m\<lparr>mclient := c, mqueue := mqueue m @ ds, mtasks := mtasks m @ ts\<rparr>)"
    by auto
  moreover have "client_run env (mclient m) (ds @ []) c" by (rule client_cons [OF c client_nil])
  ultimately show ?thesis using assms c d
    by (intro exI [of _ ds] exI [of _ "m\<lparr>mclient := c, mqueue := mqueue m @ ds, mtasks := mtasks m @ ts\<rparr>"])
      (auto simp: call_on_send_ready_def mux_ok_def ids_def held_def ac_simps)
qed

text \<open>What \<open>Link::send\<close> does to the fields the multilink depends on.\<close>

lemma send_aux_fields:
  "\<exists>b l'. Link_send_aux now l = Inr (b, l') \<and> in_flight_queue l' = in_flight_queue l
     \<and> last_seq_sent l' = last_seq_sent l \<and> timed_out l' = timed_out l \<and> (\<not> b \<longrightarrow> l' = l)
     \<and> (lsend_buffer_current l \<noteq> [] \<longrightarrow> b) \<and> (b \<longrightarrow> lsend_buffer_current l' \<noteq> [])"
  by (auto simp: Link_send_aux_def Link_send_pong_def Link_send_ping_def Link_raw_send_packet_def
      Link_format_send_packet_def lschedule_def LINK_MTU_def HEADER_SIZE_def link_frame_def put_u16_def to_le_numeral)

lemma link_send_fields:
  assumes "length d \<le> MULTILINK_MTU" "last_seq_sent l < seq"
  shows "\<exists>ok l'. Link_send now seq d l = Inr (ok, l')
     \<and> map pbuf (in_flight_queue l') = map pbuf (in_flight_queue l) @ (if ok then [d] else [])
     \<and> last_seq_sent l' \<le> seq \<and> timed_out l' = timed_out l
     \<and> (lsend_buffer_current l \<noteq> [] \<longrightarrow> \<not> ok) \<and> (ok \<longrightarrow> lsend_buffer_current l' \<noteq> [])
     \<and> (\<not> ok \<longrightarrow> timed_out l' \<or> bufferbloat_avoidance l' \<or> lsend_buffer_current l' \<noteq> [])"
proof -
  from send_aux_fields [of now l] obtain b l' where "Link_send_aux now l = Inr (b, l')"
    "in_flight_queue l' = in_flight_queue l" "last_seq_sent l' = last_seq_sent l" "timed_out l' = timed_out l"
    "\<not> b \<longrightarrow> l' = l" "lsend_buffer_current l \<noteq> [] \<longrightarrow> b" "b \<longrightarrow> lsend_buffer_current l' \<noteq> []" by blast
  then show ?thesis using assms
    by (auto simp: Link_send_def Link_raw_send_packet_def Link_format_send_packet_def lschedule_def LINK_MTU_def
        HEADER_SIZE_def MULTILINK_MTU_def link_frame_def put_u16_def to_le_numeral less_imp_le)
qed

lemma link_send_in_flight:
  assumes "Link_send now seq d l = Inr (ok, l')"
  shows "map pbuf (in_flight_queue l') = map pbuf (in_flight_queue l) @ (if ok then [d] else [])"
proof -
  from send_aux_fields [of now l] obtain b m where "Link_send_aux now l = Inr (b, m)"
    "in_flight_queue m = in_flight_queue l" "\<not> b \<longrightarrow> m = l" by blast
  then show ?thesis using assms
    by (auto simp: Link_send_def Link_raw_send_packet_def Link_format_send_packet_def lschedule_def result_simps
        split: if_splits)
qed

lemma update_link_fst [simp]: "map fst (update_link i l ls) = map fst ls"
  by (simp add: update_link_def)

lemma ids_update_link [simp]: "fst ` set (update_link i l ls) = fst ` set ls"
  using update_link_fst [of i l ls] by (metis list.set_map)

lemma map_of_update_link:
  assumes "i \<in> fst ` set ls"
  shows "map_of (update_link i l ls) j = (if j = i then Some l else map_of ls j)"
proof (cases "j = i")
  case True
  from assms have "map_of (update_link i l ls) i = Some l"
    by (induction ls) (auto simp: update_link_def)
  with True show ?thesis by simp
next
  case False
  then have "map_of (update_link i l ls) j = map_of ls j"
    by (induction ls) (simp_all add: update_link_def)
  with False show ?thesis by simp
qed

lemma sum_over_fst:
  "map fst ls = map fst ls' \<Longrightarrow> (\<Sum>e \<leftarrow> ls. g (fst e)) = (\<Sum>e \<leftarrow> ls'. g (fst e) :: 'b multiset)"
  by (drule arg_cong [where f = "\<lambda>ks. \<Sum>k \<leftarrow> ks. g k"]) (simp add: o_def)

lemma in_set_update_link:
  "e \<in> set (update_link i l ls) \<Longrightarrow> e = (i, l) \<or> e \<in> set ls"
  by (auto simp: update_link_def split: if_splits)

lemma sum_update_link:
  fixes g :: "'s link \<Rightarrow> 'b multiset"
  assumes "distinct (map fst ls)" "map_of ls i = Some l"
  shows "(\<Sum>e \<leftarrow> update_link i l' ls. g (snd e)) + g l = (\<Sum>e \<leftarrow> ls. g (snd e)) + g l'"
  using assms
proof (induction ls)
  case (Cons e ls)
  show ?case
  proof (cases "fst e = i")
    case True
    with Cons.prems have l: "snd e = l" "\<forall>x \<in> set ls. fst x \<noteq> i"
      by (cases e; simp; metis distinct.simps(2) image_eqI list.map(2) list.set_map)+
    then have "update_link i l' ls = ls" by (simp add: update_link_def map_idI)
    with True l(1) show ?thesis by (simp add: update_link_def ac_simps)
  qed (use Cons in \<open>cases e; simp add: update_link_def ac_simps\<close>)
qed simp

lemma update_link_ok:
  assumes "mux_ok m" "map_of (mlinks m) i = Some l"
    and "map pbuf (in_flight_queue l') = map pbuf (in_flight_queue l) @ ds" "\<forall>d \<in> set ds. length d \<le> MULTILINK_MTU"
    and "mlinks m' = update_link i l' (mlinks m)" "mqueue m' = mqueue m" "link_on_close m' = link_on_close m"
    and "mnext m' = mnext m" "assigned_packets m' = (assigned_packets m)(i := rest)" "assigned_packets m i = ds @ rest"
  shows "mux_ok m' \<and> held m' = held m"
proof
  have i: "i \<in> fst ` set (mlinks m)" and l: "(i, l) \<in> set (mlinks m)"
    using assms(2) map_of_SomeD by (metis weak_map_of_SomeI map_of_eq_None_iff option.distinct(1), fast)
  have d: "distinct (map fst (mlinks m))" using assms(1) by (simp add: mux_ok_def)
  have "length (pbuf p) \<le> MULTILINK_MTU" if "e \<in> set (mlinks m')" "p \<in> set (in_flight_queue (snd e))" for e p
  proof -
    from that(1) consider "e = (i, l')" | "e \<in> set (mlinks m)" using in_set_update_link assms(5) by metis
    then show ?thesis
    proof cases
      case 1
      with that(2) have "pbuf p \<in> set (map pbuf (in_flight_queue l'))" by simp
      then have "pbuf p \<in> set (map pbuf (in_flight_queue l)) \<or> pbuf p \<in> set ds" unfolding assms(3) by auto
      with assms(1,4) l show ?thesis by (fastforce simp: mux_ok_def)
    qed (use that(2) assms(1) in \<open>auto simp: mux_ok_def\<close>)
  qed
  moreover have "fst ` set (mlinks m') = fst ` set (mlinks m)" "map fst (mlinks m') = map fst (mlinks m)"
    using assms(5) by simp_all
  moreover have "set rest \<subseteq> set (assigned_packets m i)" using assms(10) by simp
  ultimately show "mux_ok m'"
    using assms(1) i unfolding mux_ok_def ids_def assms(6-9) by (auto simp: subset_eq)
  have "(\<Sum>e \<leftarrow> mlinks m'. mset (map pbuf (in_flight_queue (snd e))))
      = (\<Sum>e \<leftarrow> mlinks m. mset (map pbuf (in_flight_queue (snd e)))) + mset ds"
  proof (rule add_right_imp_eq [where a = "mset (map pbuf (in_flight_queue l))"])
    show "(\<Sum>e \<leftarrow> mlinks m'. mset (map pbuf (in_flight_queue (snd e)))) + mset (map pbuf (in_flight_queue l))
        = (\<Sum>e \<leftarrow> mlinks m. mset (map pbuf (in_flight_queue (snd e)))) + mset ds + mset (map pbuf (in_flight_queue l))"
      unfolding assms(5) sum_update_link [OF d assms(2), of "\<lambda>l. mset (map pbuf (in_flight_queue l))" l']
      by (simp only: assms(3) mset_append ac_simps)
  qed
  moreover have "(\<Sum>e \<leftarrow> mlinks m'. mset (assigned_packets m' (fst e))) + mset ds
      = (\<Sum>e \<leftarrow> mlinks m. mset (assigned_packets m (fst e)))"
    using sum_assigned_upd [OF d i, of "assigned_packets m" rest]
      sum_over_fst [of "mlinks m'" "mlinks m" "\<lambda>k. mset (assigned_packets m' k)"]
    by (simp add: assms(5,9,10) ac_simps)
  ultimately show "held m' = held m"
    by (simp add: held_def assms(6) ac_simps)
qed

text \<open>One turn of the loop of \<open>link_send_ready\<close> up to the choice of a packet.\<close>

lemma refill_law:
  assumes "env_ok env" "mux_ok m"
  shows "\<exists>ds m1 m2. (if length (mqueue m) < QUEUE_SIZE * 3 div 4 then call_on_send_ready env m else Inr m) = Inr m1
     \<and> m2 = (if assigned_packets m1 i = [] then Multilink_request_packets m1 else m1)
     \<and> client_run env (mclient m) ds (mclient m2) \<and> mux_ok m2 \<and> held m2 = held m + mset ds
     \<and> mlinks m2 = mlinks m \<and> mlast_seq m2 = mlast_seq m"
proof -
  have "\<exists>ds m1. (if length (mqueue m) < QUEUE_SIZE * 3 div 4 then call_on_send_ready env m else Inr m) = Inr m1
     \<and> client_run env (mclient m) ds (mclient m1) \<and> mux_ok m1 \<and> held m1 = held m + mset ds
     \<and> mlinks m1 = mlinks m \<and> mlast_seq m1 = mlast_seq m"
  proof (cases "length (mqueue m) < QUEUE_SIZE * 3 div 4")
    case True
    with call_on_send_ready_law [OF assms] show ?thesis by auto
  next
    case False
    then show ?thesis using assms(2) client_nil [of env "mclient m"] by (intro exI [of _ "[]"] exI [of _ m]) simp
  qed
  then obtain ds m1 where
    "(if length (mqueue m) < QUEUE_SIZE * 3 div 4 then call_on_send_ready env m else Inr m) = Inr m1"
    "client_run env (mclient m) ds (mclient m1)" "mux_ok m1" "held m1 = held m + mset ds"
    "mlinks m1 = mlinks m" "mlast_seq m1 = mlast_seq m" by blast
  then show ?thesis using request_packets_law [of m1]
    by (intro exI [of _ ds] exI [of _ m1] exI [of _ "if assigned_packets m1 i = [] then Multilink_request_packets m1 else m1"])
      simp
qed

definition conserves :: "('s, 'c) multilink_env \<Rightarrow> ('s, 'c) multilink \<Rightarrow> ('s, 'c) multilink \<Rightarrow> bool" where
  "conserves env m m' \<longleftrightarrow> mux_ok m' \<and> (\<exists>ds. client_run env (mclient m) ds (mclient m') \<and> held m' = held m + mset ds)"

lemma conserves_trans: "conserves env a b \<Longrightarrow> conserves env b c \<Longrightarrow> conserves env a c"
  unfolding conserves_def by (metis client_run_trans mset_append union_assoc)

lemma conserves_same:
  "mux_ok m' \<Longrightarrow> held m' = held m \<Longrightarrow> mclient m' = mclient m \<Longrightarrow> conserves env m m'"
  unfolding conserves_def by (metis client_nil empty_neutral(2) mset.simps(1))

lemma loop_turn:
  assumes "(if length (mqueue m) < QUEUE_SIZE * 3 div 4 then call_on_send_ready env m else Inr m) = Inr m1"
    and "m2 = (if assigned_packets m1 i = [] then Multilink_request_packets m1 else m1)"
  shows "send_ready_loop (Suc fuel) env now i m = (case assigned_packets m2 i of
         [] \<Rightarrow> Inr m2
       | packet # rest \<Rightarrow>
           (case map_of (mlinks m2) i of
              None \<Rightarrow> Inl Undefined_behaviour
            | Some l \<Rightarrow>
                bindR (Link_send now (mlast_seq m2 + 1) packet l) (\<lambda>(ok, l').
                  let m3 = m2\<lparr>mlast_seq := mlast_seq m2 + 1, mlinks := update_link i l' (mlinks m2)\<rparr>
                  in if ok then send_ready_loop fuel env now i
                         (m3\<lparr>assigned_packets := (assigned_packets m3)(i := rest)\<rparr>)
                     else Inr m3)))"
  by (simp only: send_ready_loop.simps assms(1) bindR_Inr Let_def assms(2) [symmetric])

lemma send_ready_loop_conserves:
  assumes "env_ok env"
  shows "mux_ok m \<Longrightarrow> send_ready_loop fuel env now i m = Inr m' \<Longrightarrow> conserves env m m'"
proof (induction fuel arbitrary: m)
  case (Suc fuel)
  from refill_law [OF assms Suc.prems(1), of i] obtain ds m1 m2 where
    r: "(if length (mqueue m) < QUEUE_SIZE * 3 div 4 then call_on_send_ready env m else Inr m) = Inr m1"
      "m2 = (if assigned_packets m1 i = [] then Multilink_request_packets m1 else m1)"
      "client_run env (mclient m) ds (mclient m2)" "mux_ok m2" "held m2 = held m + mset ds"
    by blast
  then have c: "conserves env m m2" by (auto simp: conserves_def)
  note step = loop_turn [OF r(1,2), of fuel now]
  show ?case
  proof (cases "assigned_packets m2 i")
    case Nil
    with step Suc.prems(2) c show ?thesis by simp
  next
    case (Cons packet rest)
    with step Suc.prems(2) obtain l where l: "map_of (mlinks m2) i = Some l" by (cases "map_of (mlinks m2) i") auto
    with step Suc.prems(2) Cons obtain ok l' where s: "Link_send now (mlast_seq m2 + 1) packet l = Inr (ok, l')"
      by (cases "Link_send now (mlast_seq m2 + 1) packet l") auto
    let ?m3 = "m2\<lparr>mlast_seq := mlast_seq m2 + 1, mlinks := update_link i l' (mlinks m2)\<rparr>"
    let ?m4 = "if ok then ?m3\<lparr>assigned_packets := (assigned_packets m2)(i := rest)\<rparr> else ?m3"
    have "packet \<in> set (assigned_packets m2 i)" using Cons by simp
    with r(4) have "length packet \<le> MULTILINK_MTU" unfolding mux_ok_def by blast
    then have "mux_ok ?m4 \<and> held ?m4 = held m2"
      using Cons by (intro update_link_ok [OF r(4) l link_send_in_flight [OF s], where rest = "if ok then rest else packet # rest"])
        auto
    then have c4: "conserves env m2 ?m4" by (auto intro: conserves_same)
    note cc = conserves_trans [OF c c4]
    show ?thesis
    proof (cases ok)
      case True
      with step Suc.prems(2) Cons l s have "send_ready_loop fuel env now i ?m4 = Inr m'" by simp
      from Suc.IH [OF _ this] \<open>mux_ok ?m4 \<and> held ?m4 = held m2\<close> conserves_trans [OF cc] show ?thesis by blast
    next
      case False
      with step Suc.prems(2) Cons l s have "m' = ?m4" by simp
      with cc show ?thesis by simp
    qed
  qed
qed simp

text \<open>The sequence numbers a link has seen are not above the multilink's counter.\<close>

definition seqs_ok :: "('s, 'c) multilink \<Rightarrow> bool" where
  "seqs_ok m \<longleftrightarrow> (\<forall>e \<in> set (mlinks m). last_seq_sent (snd e) \<le> mlast_seq m)"

definition link_settled :: "nat \<Rightarrow> ('s, 'c) multilink \<Rightarrow> bool" where
  "link_settled i m \<longleftrightarrow> assigned_packets m i = [] \<or> (\<exists>l. map_of (mlinks m) i = Some l
     \<and> (timed_out l \<or> bufferbloat_avoidance l \<or> lsend_buffer_current l \<noteq> []))"

lemma u64_succ: "unat (w :: u64) + 1 < 2 ^ 64 \<Longrightarrow> unat (w + 1) = unat w + 1"
  by (simp add: unat_word_ariths)

lemma seqs_ok_update:
  assumes "seqs_ok m" "last_seq_sent l' \<le> mlast_seq m + 1" "unat (mlast_seq m) + 1 < 2 ^ 64"
    "mlinks m' = update_link i l' (mlinks m)" "mlast_seq m' = mlast_seq m + 1"
  shows "seqs_ok m'"
proof -
  have up: "mlast_seq m \<le> mlast_seq m + 1" using u64_succ [OF assms(3)] by (simp add: word_le_nat_alt)
  show ?thesis
    unfolding seqs_ok_def assms(4,5)
  proof
    fix e assume "e \<in> set (update_link i l' (mlinks m))"
    then consider "e = (i, l')" | "e \<in> set (mlinks m)" using in_set_update_link by blast
    then show "last_seq_sent (snd e) \<le> mlast_seq m + 1"
      using assms(1,2) order_trans [OF _ up] by cases (auto simp: seqs_ok_def)
  qed
qed

lemma send_ready_loop_total:
  assumes "env_ok env"
  shows "mux_ok m \<Longrightarrow> seqs_ok m \<Longrightarrow> map_of (mlinks m) i = Some l \<Longrightarrow> unat (mlast_seq m) + fuel < 2 ^ 64 \<Longrightarrow>
     (if lsend_buffer_current l = [] then 2 else 1) \<le> fuel \<Longrightarrow>
     \<exists>m'. send_ready_loop fuel env now i m = Inr m' \<and> seqs_ok m' \<and> link_settled i m' \<and> i \<in> ids m'"
proof (induction fuel arbitrary: m l)
  case (Suc fuel)
  from refill_law [OF assms Suc.prems(1), of i] obtain ds m1 m2 where
    r: "(if length (mqueue m) < QUEUE_SIZE * 3 div 4 then call_on_send_ready env m else Inr m) = Inr m1"
      "m2 = (if assigned_packets m1 i = [] then Multilink_request_packets m1 else m1)"
      "mux_ok m2" "mlinks m2 = mlinks m" "mlast_seq m2 = mlast_seq m"
    by blast
  note step = loop_turn [OF r(1,2), of fuel now]
  have i: "i \<in> fst ` set (mlinks m)" and il: "(i, l) \<in> set (mlinks m)"
    using map_of_SomeD [OF Suc.prems(3)] by force+
  show ?case
  proof (cases "assigned_packets m2 i")
    case Nil
    with step Suc.prems(2) r(4,5) i show ?thesis by (simp add: link_settled_def seqs_ok_def ids_def)
  next
    case (Cons packet rest)
    have "packet \<in> set (assigned_packets m2 i)" using Cons by simp
    with r(3) have len: "length packet \<le> MULTILINK_MTU" unfolding mux_ok_def by blast
    have nw: "unat (mlast_seq m) + 1 < 2 ^ 64" using Suc.prems(4) by linarith
    have "last_seq_sent l \<le> mlast_seq m" using Suc.prems(2) il by (auto simp: seqs_ok_def)
    then have "last_seq_sent l < mlast_seq m2 + 1"
      using u64_succ [OF nw] r(5) by (simp add: word_le_nat_alt word_less_nat_alt)
    from link_send_fields [OF len this, of now] obtain ok l' where
      s: "Link_send now (mlast_seq m2 + 1) packet l = Inr (ok, l')" "last_seq_sent l' \<le> mlast_seq m2 + 1"
        "lsend_buffer_current l \<noteq> [] \<longrightarrow> \<not> ok" "ok \<longrightarrow> lsend_buffer_current l' \<noteq> []"
        "\<not> ok \<longrightarrow> timed_out l' \<or> bufferbloat_avoidance l' \<or> lsend_buffer_current l' \<noteq> []" by blast
    let ?m3 = "m2\<lparr>mlast_seq := mlast_seq m2 + 1, mlinks := update_link i l' (mlinks m2)\<rparr>"
    let ?m4 = "?m3\<lparr>assigned_packets := (assigned_packets m2)(i := rest)\<rparr>"
    have sq: "seqs_ok ?m3" "seqs_ok ?m4"
      using Suc.prems(2) s(2) nw r(4,5) by (auto intro!: seqs_ok_update [of m l'] simp del: fun_upd_apply)
    have mo: "map_of (update_link i l' (mlinks m2)) i = Some l'" using i r(4) by (simp add: map_of_update_link)
    show ?thesis
    proof (cases ok)
      case False
      with step Cons r(4) Suc.prems(3) s sq mo i show ?thesis by (auto simp: link_settled_def ids_def)
    next
      case True
      with s(3) Suc.prems(5) have f: "1 \<le> fuel" by auto
      have "mux_ok ?m4"
        using Cons True len r(3,4) Suc.prems(3)
        by (intro conjunct1 [OF update_link_ok [OF r(3) _ link_send_in_flight [OF s(1)]]]) auto
      moreover have "unat (mlast_seq ?m4) + fuel < 2 ^ 64" using u64_succ [OF nw] Suc.prems(4) r(5) by simp
      ultimately obtain m' where "send_ready_loop fuel env now i ?m4 = Inr m'" "seqs_ok m'" "link_settled i m'" "i \<in> ids m'"
        using Suc.IH [of ?m4 l'] sq(2) mo True s(4) f by auto
      with True step Cons r(4) Suc.prems(3) s(1) show ?thesis by simp
    qed
  qed
qed (simp split: if_splits)

section \<open>Removing a link\<close>

lemma set_remove_link: "distinct (map fst ls) \<Longrightarrow> set (remove_link i ls) = {e \<in> set ls. fst e \<noteq> i}"
  by (induction ls) (auto simp: image_iff)

lemma distinct_remove_link: "distinct (map fst ls) \<Longrightarrow> distinct (map fst (remove_link i ls))"
  by (induction ls) (auto simp: set_remove_link)

lemma sum_remove_link:
  fixes g :: "nat \<times> 's link \<Rightarrow> 'b multiset"
  shows "distinct (map fst ls) \<Longrightarrow> map_of ls i = Some l \<Longrightarrow> (\<Sum>e \<leftarrow> remove_link i ls. g e) + g (i, l) = (\<Sum>e \<leftarrow> ls. g e)"
proof (induction ls)
  case (Cons e ls)
  obtain k x where "e = (k, x)" by (cases e)
  with Cons show ?case by (auto simp: ac_simps split: if_splits)
qed simp

lemma remove_timed_out_law:
  assumes "env_ok env" "mux_ok m" "map_of (mlinks m) i = Some l" "timed_out l"
  shows "\<exists>m'. Multilink_link_send_ready fuel env now i m = Inr m' \<and> conserves env m m'
     \<and> mqueue m' = mqueue m @ map pbuf (in_flight_queue l) @ assigned_packets m i
     \<and> ids m' = ids m - {i} \<and> mclosed m' = mclosed m @ [Link_destroy (eops env) l]
     \<and> mtasks m' = mtasks m @ [Task_some_link_send_ready] \<and> mlast_seq m' = mlast_seq m
     \<and> mlinks m' = remove_link i (mlinks m)"
proof -
  have d: "distinct (map fst (mlinks m))" using assms(2) by (simp add: mux_ok_def)
  have il: "(i, l) \<in> set (mlinks m)" using map_of_SomeD [OF assms(3)] .
  then have i: "i \<in> ids m" by (force simp: ids_def)
  then obtain f where f: "link_on_close m i = Some f" using assms(2) by (auto simp: mux_ok_def)
  let ?m = "mschedule Task_some_link_send_ready
    (m\<lparr>mqueue := mqueue m @ map pbuf (in_flight_queue l) @ assigned_packets m i,
       assigned_packets := (assigned_packets m)(i := []), link_on_close := (link_on_close m)(i := None),
       mlinks := remove_link i (mlinks m), mclosed := mclosed m @ [Link_destroy (eops env) l],
       mcalled := mcalled m @ [Called_on_close f]\<rparr>)"
  have "Multilink_link_send_ready fuel env now i m = Inr ?m"
    using assms(3,4) f by (simp add: Multilink_link_send_ready_def Link_get_packets_to_retransmit_def)
  moreover have ids: "ids ?m = ids m - {i}"
    using d by (auto simp: mschedule_def ids_def set_remove_link)
  moreover have "mux_ok ?m"
  proof -
    have sub: "set (mlinks ?m) \<subseteq> set (mlinks m)" "distinct (map fst (mlinks ?m))"
      using d distinct_remove_link [OF d, of i] by (auto simp: mschedule_def set_remove_link)
    have fl: "\<forall>p \<in> set (in_flight_queue l). length (pbuf p) \<le> MULTILINK_MTU"
      using assms(2) il by (auto simp: mux_ok_def)
    have as: "\<forall>j. \<forall>d \<in> set (assigned_packets m j). length d \<le> MULTILINK_MTU"
      "\<forall>d \<in> set (mqueue m). length d \<le> MULTILINK_MTU" "\<forall>j. j \<notin> ids m \<longrightarrow> assigned_packets m j = []"
      "\<forall>j \<in> ids m. j < mnext m \<and> link_on_close m j \<noteq> None"
      using assms(2) by (simp_all add: mux_ok_def)
    have "\<forall>d \<in> set (mqueue ?m). length d \<le> MULTILINK_MTU"
      using fl as(1) [rule_format, of _ i] as(2) by (auto simp: mschedule_def)
    moreover have "\<forall>j. \<forall>d \<in> set (assigned_packets ?m j). length d \<le> MULTILINK_MTU"
      using as(1) by (simp add: mschedule_def)
    moreover have "\<forall>j. j \<notin> ids ?m \<longrightarrow> assigned_packets ?m j = []"
      using as(3) unfolding ids by (simp add: mschedule_def)
    moreover have "\<forall>j \<in> ids ?m. j < mnext ?m \<and> link_on_close ?m j \<noteq> None"
      using as(4) unfolding ids by (simp add: mschedule_def)
    moreover have "\<forall>e \<in> set (mlinks ?m). \<forall>p \<in> set (in_flight_queue (snd e)). length (pbuf p) \<le> MULTILINK_MTU"
      using assms(2) sub(1) unfolding mux_ok_def by blast
    ultimately show ?thesis using sub(2) unfolding mux_ok_def by blast
  qed
  moreover have "held ?m = held m"
  proof -
    have "(\<Sum>e \<leftarrow> remove_link i (mlinks m). mset (((assigned_packets m)(i := [])) (fst e)))
        = (\<Sum>e \<leftarrow> remove_link i (mlinks m). mset (assigned_packets m (fst e)))"
      using d by (intro arg_cong [where f = sum_list] map_cong) (auto simp: set_remove_link)
    then show ?thesis
      unfolding held_def sum_remove_link [OF d assms(3), of "\<lambda>e. mset (assigned_packets m (fst e))", symmetric]
        sum_remove_link [OF d assms(3), of "\<lambda>e. mset (map pbuf (in_flight_queue (snd e)))", symmetric]
      by (simp add: mschedule_def ac_simps)
  qed
  ultimately show ?thesis
    by (intro exI [of _ ?m]) (simp add: conserves_same mschedule_def)
qed

lemma link_send_ready_conserves:
  assumes "env_ok env" "mux_ok m" "Multilink_link_send_ready fuel env now i m = Inr m'"
  shows "conserves env m m'"
proof -
  from assms(3) obtain l where l: "map_of (mlinks m) i = Some l"
    by (cases "map_of (mlinks m) i") (auto simp: Multilink_link_send_ready_def)
  show ?thesis
  proof (cases "timed_out l")
    case True
    with remove_timed_out_law [OF assms(1,2) l True, of fuel now] assms(3) show ?thesis by auto
  next
    case False
    with l assms(3) send_ready_loop_conserves [OF assms(1,2)] show ?thesis
      by (simp add: Multilink_link_send_ready_def)
  qed
qed

lemma conserves_refl: "mux_ok m \<Longrightarrow> conserves env m m"
  by (simp add: conserves_same)

lemma send_ready_each_conserves:
  assumes "env_ok env"
  shows "mux_ok m \<Longrightarrow> send_ready_each fuel env now is m = Inr m' \<Longrightarrow> conserves env m m'"
proof (induction "is" arbitrary: m)
  case (Cons i "is")
  from Cons.prems(2) obtain n where n: "Multilink_link_send_ready fuel env now i m = Inr n"
    "send_ready_each fuel env now is n = Inr m'" by (auto simp: result_simps)
  from link_send_ready_conserves [OF assms Cons.prems(1) n(1)] Cons.IH [OF _ n(2)] show ?case
    by (meson conserves_def conserves_trans)
qed (auto intro: conserves_refl)

lemma sum_list_mset_eq:
  fixes g :: "'a \<Rightarrow> 'b multiset"
  shows "mset xs = mset ys \<Longrightarrow> (\<Sum>x \<leftarrow> xs. g x) = (\<Sum>x \<leftarrow> ys. g x)"
  by (metis mset_map sum_mset_sum_list)

lemma shuffle_conserves:
  assumes "env_ok env" "mux_ok m"
  shows "conserves env m (Multilink_shuffle_links env m)"
proof (rule conserves_same)
  let ?ls = "random_shuffle env (mrand m) (mlinks m)"
  have ms: "mset ?ls = mset (mlinks m)" using assms(1) by (simp add: env_ok_def)
  then have "set ?ls = set (mlinks m)" by (metis set_mset_mset)
  moreover have "distinct (map fst ?ls)"
    using ms assms(2) by (metis mset_eq_imp_distinct_iff mset_map mux_ok_def)
  ultimately show "mux_ok (Multilink_shuffle_links env m)"
    using assms(2) by (simp add: mux_ok_def ids_def Multilink_shuffle_links_def)
  show "held (Multilink_shuffle_links env m) = held m"
    by (simp add: held_def Multilink_shuffle_links_def sum_list_mset_eq [OF ms])
qed (simp add: Multilink_shuffle_links_def)

lemma some_link_send_ready_conserves:
  assumes "env_ok env" "mux_ok m" "Multilink_some_link_send_ready fuel env now m = Inr m'"
  shows "conserves env m m'"
proof -
  let ?n = "Multilink_shuffle_links env m"
  have c: "conserves env m ?n" by (rule shuffle_conserves [OF assms(1,2)])
  moreover from c have "mux_ok ?n" by (simp add: conserves_def)
  moreover have "send_ready_each fuel env now (map fst (mlinks ?n)) ?n = Inr m'"
    using assms(3) by (simp add: Multilink_some_link_send_ready_def Let_def)
  ultimately show ?thesis using send_ready_each_conserves [OF assms(1)] conserves_trans by blast
qed

section \<open>The whole multilink\<close>

text \<open>
  A handler of a link that is not part of \<open>send\<close> releases only a prefix of the in-flight queue, whatever the
  stream does.
\<close>

definition releases :: "'s link \<Rightarrow> 's link \<Rightarrow> bool" where
  "releases l l' \<longleftrightarrow> (\<exists>acked. in_flight_queue l = acked @ in_flight_queue l')"

lemma releases_same [simp, intro]: "in_flight_queue l' = in_flight_queue l \<Longrightarrow> releases l l'"
  by (simp add: releases_def)

lemma releases_trans: "releases a b \<Longrightarrow> releases b c \<Longrightarrow> releases a c"
  by (auto simp: releases_def)

lemma flush_releases: "releases l (Link_flush_in_flight_queue l)"
proof -
  have d: "snd (flush_loop a b q) = dropWhile (\<lambda>p. pseq p \<le> a) q" for a b q
    by (induction a b q rule: flush_loop.induct) auto
  have "in_flight_queue (Link_flush_in_flight_queue l) = dropWhile (\<lambda>p. pseq p \<le> Link_get_last_ack_seq l) (in_flight_queue l)"
    using d [of "Link_get_last_ack_seq l" "in_flight_bytes l" "in_flight_queue l"]
    by (auto simp: Link_flush_in_flight_queue_def split: prod.splits)
  then show ?thesis unfolding releases_def by (metis takeWhile_dropWhile_id)
qed

lemma parse_recv_packet_releases:
  assumes "Link_parse_recv_packet now data l = Inr l'" shows "releases l l'"
proof -
  have fl: "releases l (Link_flush_in_flight_queue (Link_bufferbloat_check (l\<lparr>rtt := r, last_pong_recv_seq := q,
      last_pong_recv_time := t\<rparr>)))" for r q t
    by (rule releases_trans [OF _ flush_releases]) simp
  with assms show ?thesis
    by (auto simp: Link_parse_recv_packet_def result_simps lschedule_def split: if_splits)
qed

lemma parse_loop_releases: "Link_parse_loop now l = Inr l' \<Longrightarrow> releases l l'"
proof (induction now l rule: Link_parse_loop.induct)
  case (1 now l)
  show ?case
  proof (cases "waiting_recv_packet l")
    case (Some d)
    with 1(2) show ?thesis by (simp add: Link_parse_loop.simps [of now l])
  next
    case None
    with 1(2) obtain b m where m: "Link_try_parse_recv_packet now l = Inr (b, m)"
      "if b then Link_parse_loop now m = Inr l' else m = l'"
      by (auto simp: Link_parse_loop.simps [of now l] result_simps split: if_splits)
    from m(1) have "releases l m"
      by (auto simp: Link_try_parse_recv_packet_def Let_def result_simps split: if_splits
          dest!: parse_recv_packet_releases simp: releases_def)
    with m 1(1) [of "(b, m)"] None releases_trans show ?thesis by (auto split: if_splits)
  qed
qed

lemma read_loop_releases: "Link_read_loop fuel ops now l = Inr l' \<Longrightarrow> releases l l'"
proof (induction fuel arbitrary: l)
  case (Suc fuel)
  then obtain d s where "sread ops (lstream l) (LINK_MTU - length (lrecv_buffer l)) = Inr (d, s)"
    by (auto simp: result_simps)
  with Suc.prems obtain m where m: "Link_parse_loop now (l\<lparr>lstream := s, lrecv_buffer := lrecv_buffer l @ d\<rparr>) = Inr m"
    "if d = [] then m = l' else Link_read_loop fuel ops now m = Inr l'"
    by (cases "d = []") (auto simp: result_simps)
  from parse_loop_releases [OF m(1)] have "releases l m" by (simp add: releases_def)
  with m(2) Suc.IH releases_trans show ?case by (auto split: if_splits)
qed simp

lemma send_aux_in_flight: "Link_send_aux now l = Inr (b, l') \<Longrightarrow> in_flight_queue l' = in_flight_queue l"
  using send_aux_fields [of now l] by auto

lemma recv_in_flight: "Link_recv l = (r, l') \<Longrightarrow> in_flight_queue l' = in_flight_queue l"
  by (auto simp: Link_recv_def Let_def lschedule_def split: if_splits)

lemma maybe_retransmit_in_flight: "Link_maybe_retransmit now l = Inr l' \<Longrightarrow> in_flight_queue l' = in_flight_queue l"
  by (auto simp: Link_maybe_retransmit_def lschedule_def split: if_splits list.splits)

lemma quiet_step_releases:
  assumes "link_step ops l Quiet l'" shows "releases l l'"
  using assms
proof (rule link_stepE)
  fix fuel now assume "Link_transport_read_ready fuel ops now l = Inr l'"
  then show ?thesis using read_loop_releases by (auto simp: Link_transport_read_ready_def split: if_splits)
next
  fix is_real now assume "Link_transport_write_ready ops is_real now l = Inr l'"
  from write_ready_in_flight [OF this] show ?thesis ..
next
  fix now b assume "Link_on_send_ready_edge now l = Inr (b, l')"
  then show ?thesis by (auto simp: Link_on_send_ready_edge_def result_simps dest!: send_aux_in_flight)
next
  fix now b assume "Link_send_aux now l = Inr (b, l')"
  from send_aux_in_flight [OF this] show ?thesis ..
next
  fix now assume "Link_timer_callback now l = Inr l'"
  then show ?thesis
    by (auto simp: Link_timer_callback_def result_simps split: if_splits
        dest!: send_aux_in_flight maybe_retransmit_in_flight)
next
  assume "Link_recv l = (None, l')"
  from recv_in_flight [OF this] show ?thesis ..
next
  fix now seq d assume "Link_send now seq d l = Inr (False, l')"
  then show ?thesis
    by (auto simp: Link_send_def result_simps split: if_splits dest!: send_aux_in_flight)
qed simp_all

text \<open>
  Everything that happens to a multilink. The label lists the packets an acknowledgement released from a
  link's in-flight queue.
\<close>

inductive multilink_step :: "('s, 'c) multilink_env \<Rightarrow> ('s, 'c) multilink \<Rightarrow> bytes list \<Rightarrow> ('s, 'c) multilink \<Rightarrow> bool"
  for env :: "('s, 'c) multilink_env" where
  step_send_ready: "Multilink_link_send_ready fuel env now i m = Inr m' \<Longrightarrow> multilink_step env m [] m'"
| step_some_ready: "Multilink_some_link_send_ready fuel env now m = Inr m' \<Longrightarrow> multilink_step env m [] m'"
| step_client: "call_on_send_ready env m = Inr m' \<Longrightarrow> multilink_step env m [] m'"
| step_recv: "Multilink_recv env m = Inr (r, m') \<Longrightarrow> multilink_step env m [] m'"
| step_add_link: "Multilink_add_link s name f m = Inr (i, m') \<Longrightarrow> multilink_step env m [] m'"
| step_link: "map_of (mlinks m) i = Some l \<Longrightarrow> link_step (eops env) l Quiet l' \<Longrightarrow>
    map pbuf (in_flight_queue l) = released @ map pbuf (in_flight_queue l') \<Longrightarrow>
    multilink_step env m released (m\<lparr>mlinks := update_link i l' (mlinks m)\<rparr>)"

inductive multilink_trace :: "('s, 'c) multilink_env \<Rightarrow> ('s, 'c) multilink \<Rightarrow> bytes list \<Rightarrow> ('s, 'c) multilink \<Rightarrow> bool"
  for env :: "('s, 'c) multilink_env" where
  mtrace_nil: "multilink_trace env m [] m"
| mtrace_snoc: "multilink_trace env m rs n \<Longrightarrow> multilink_step env n r k \<Longrightarrow> multilink_trace env m (rs @ r) k"

text \<open>No handler of a link is blocked by the side condition of \<open>step_link\<close>.\<close>

lemma step_link_exists:
  assumes "map_of (mlinks m) i = Some l" "link_step (eops env) l Quiet l'"
  shows "\<exists>rel. multilink_step env m rel (m\<lparr>mlinks := update_link i l' (mlinks m)\<rparr>)"
  using quiet_step_releases [OF assms(2)] step_link [OF assms] by (force simp: releases_def)

lemma recv_first_law:
  assumes "recv_first ls = (r, ls')"
  shows "map fst ls' = map fst ls \<and> map (in_flight_queue \<circ> snd) ls' = map (in_flight_queue \<circ> snd) ls"
  using assms
proof (induction ls arbitrary: r ls')
  case (Cons e ls)
  obtain i l where e: "e = (i, l)" by (cases e)
  obtain q l' where q: "Link_recv l = (q, l')" by fastforce
  note k = recv_in_flight [OF q]
  show ?case
  proof (cases q)
    case None
    obtain r2 ls2 where "recv_first ls = (r2, ls2)" by fastforce
    with Cons.IH [OF this] Cons.prems e q k None show ?thesis by auto
  qed (use Cons.prems e q k in auto)
qed simp

lemma recv_conserves:
  assumes "env_ok env" "mux_ok m" "Multilink_recv env m = Inr (r, m')"
  shows "conserves env m m'"
proof -
  let ?n = "Multilink_shuffle_links env m"
  obtain ls where ls: "recv_first (mlinks ?n) = (r, ls)" and m': "m' = ?n\<lparr>mlinks := ls\<rparr>"
    using assms(3) by (auto simp: Multilink_recv_def Let_def split: prod.splits)
  note f = recv_first_law [OF ls]
  have c: "conserves env m ?n" by (rule shuffle_conserves [OF assms(1,2)])
  then have ok: "mux_ok ?n" by (simp add: conserves_def)
  have set: "fst ` set ls = fst ` set (mlinks ?n)" using f by (metis list.set_map)
  have fl: "in_flight_queue ` snd ` set ls = in_flight_queue ` snd ` set (mlinks ?n)"
    using f by (metis image_comp list.set_map)
  have "\<forall>p \<in> set (in_flight_queue (snd e)). length (pbuf p) \<le> MULTILINK_MTU" if "e \<in> set ls" for e
  proof -
    have "in_flight_queue (snd e) \<in> in_flight_queue ` snd ` set (mlinks ?n)" using that fl by blast
    with ok show ?thesis by (auto simp: mux_ok_def)
  qed
  with ok set f have "mux_ok m'" unfolding mux_ok_def ids_def m' by simp
  moreover have "(\<Sum>e \<leftarrow> ls. mset (map pbuf (in_flight_queue (snd e))))
      = (\<Sum>e \<leftarrow> mlinks ?n. mset (map pbuf (in_flight_queue (snd e))))"
    using arg_cong [OF conjunct2 [OF f], of "\<lambda>qs. \<Sum>q \<leftarrow> qs. mset (map pbuf q)"] by (simp only: map_map o_def)
  then have "held m' = held ?n"
    using f sum_over_fst [of ls "mlinks ?n" "\<lambda>k. mset (assigned_packets ?n k)"]
    by (simp add: held_def m')
  ultimately have "conserves env ?n m'" by (intro conserves_same) (simp_all add: m')
  with c show ?thesis by (rule conserves_trans)
qed

lemma add_link_conserves:
  assumes "mux_ok m" "Multilink_add_link s name f m = Inr (i, m')"
  shows "conserves env m m'"
proof -
  from Link_init_law [of s] obtain l where l: "Link_init s = Inr l" "in_flight_queue l = []" by blast
  with assms(2) have m': "i = mnext m" "m' = mschedule (Task_link_recv_ready i) (mschedule (Task_link_send_ready i)
         (m\<lparr>mlinks := mlinks m @ [(i, l\<lparr>lname := name\<rparr>)], link_on_close := (link_on_close m)(i \<mapsto> f), mnext := i + 1\<rparr>))"
    by (auto simp: Multilink_add_link_def Let_def)
  have "mnext m \<notin> ids m" using assms(1) by (auto simp: mux_ok_def)
  moreover from this assms(1) have "assigned_packets m (mnext m) = []" by (simp add: mux_ok_def)
  ultimately show ?thesis using assms(1) l(2)
    by (intro conserves_same) (auto simp: m' mschedule_def mux_ok_def ids_def held_def less_Suc_eq)
qed

lemma multilink_step_law:
  assumes "env_ok env" "multilink_step env m rel m'" "mux_ok m"
  shows "mux_ok m' \<and> (\<exists>ds. client_run env (mclient m) ds (mclient m') \<and> held m' + mset rel = held m + mset ds)"
  using assms(2,3)
proof (cases rule: multilink_step.cases)
  case (step_link i l l')
  have d: "distinct (map fst (mlinks m))" using assms(3) by (simp add: mux_ok_def)
  have il: "(i, l) \<in> set (mlinks m)" using map_of_SomeD [OF step_link(2)] .
  have "held m' + mset rel = held m"
    using sum_update_link [OF d step_link(2), of "\<lambda>l. mset (map pbuf (in_flight_queue l))" l']
      sum_over_fst [of "update_link i l' (mlinks m)" "mlinks m" "\<lambda>k. mset (assigned_packets m k)"]
    by (simp add: held_def step_link(1) step_link(4) [THEN arg_cong, of mset, simplified] ac_simps)
  moreover have "mux_ok m'"
  proof -
    have "length (pbuf p) \<le> MULTILINK_MTU" if "e \<in> set (mlinks m')" "p \<in> set (in_flight_queue (snd e))" for e p
    proof -
      from that(1) consider "e = (i, l')" | "e \<in> set (mlinks m)"
        using in_set_update_link unfolding step_link(1) by fastforce
      then show ?thesis
      proof cases
        case 1
        with that(2) have "pbuf p \<in> set (map pbuf (in_flight_queue l))" unfolding step_link(4) by auto
        with assms(3) il show ?thesis by (fastforce simp: mux_ok_def)
      qed (use that(2) assms(3) in \<open>auto simp: mux_ok_def\<close>)
    qed
    with assms(3) show ?thesis unfolding mux_ok_def ids_def step_link(1) by simp
  qed
  moreover have "mclient m' = mclient m" by (simp add: step_link(1))
  ultimately show ?thesis using client_nil [of env "mclient m"] by (metis empty_neutral(2) mset.simps(1))
next
  case step_send_ready
  from link_send_ready_conserves [OF assms(1,3) step_send_ready(2)] step_send_ready(1) show ?thesis by (simp add: conserves_def)
next
  case step_some_ready
  from some_link_send_ready_conserves [OF assms(1,3) step_some_ready(2)] step_some_ready(1) show ?thesis by (simp add: conserves_def)
next
  case step_client
  from call_on_send_ready_law [OF assms(1,3)] step_client show ?thesis by auto
next
  case step_recv
  from recv_conserves [OF assms(1,3) step_recv(2)] step_recv(1) show ?thesis by (simp add: conserves_def)
next
  case step_add_link
  from add_link_conserves [OF assms(3) step_add_link(2), of env] step_add_link(1) show ?thesis by (simp add: conserves_def)
qed

lemma multilink_trace_law:
  assumes "env_ok env"
  shows "multilink_trace env m rel m' \<Longrightarrow> mux_ok m \<Longrightarrow>
     mux_ok m' \<and> (\<exists>ds. client_run env (mclient m) ds (mclient m') \<and> held m' + mset rel = held m + mset ds)"
proof (induction rule: multilink_trace.induct)
  case (mtrace_nil m)
  then show ?case using client_nil [of env "mclient m"] by (intro conjI exI [of _ "[]"]) simp_all
next
  case (mtrace_snoc m rs n r k)
  then obtain ds where ds: "mux_ok n" "client_run env (mclient m) ds (mclient n)" "held n + mset rs = held m + mset ds"
    by blast
  from multilink_step_law [OF assms mtrace_snoc.hyps(2) ds(1)] obtain es where
    es: "mux_ok k" "client_run env (mclient n) es (mclient k)" "held k + mset r = held n + mset es" by blast
  have "held k + mset (rs @ r) = (held k + mset r) + mset rs" by (simp only: mset_append ac_simps)
  also have "\<dots> = (held n + mset rs) + mset es" unfolding es(3) by (simp only: ac_simps)
  also have "\<dots> = held m + mset (ds @ es)" unfolding ds(3) by (simp only: mset_append ac_simps)
  finally show ?case using es(1) client_run_trans [OF ds(2) es(2)] by blast
qed

section \<open>The multilink as a network\<close>

definition link_arrived :: "'s link \<Rightarrow> bytes multiset" where
  "link_arrived l = (if timed_out l then {#} else mset (waiting_list l))"

definition arrived :: "('s, 'c) multilink \<Rightarrow> bytes multiset" where
  "arrived m = (\<Sum>e \<leftarrow> mlinks m. link_arrived (snd e))"

lemma Link_recv_waiting:
  assumes "Link_recv l = (r, l')"
  shows "link_arrived l = (case r of None \<Rightarrow> {#} | Some d \<Rightarrow> {#d#}) + link_arrived l'"
  using assms by (auto simp: link_arrived_def Link_recv_def Let_def lschedule_def waiting_list_def split: if_splits option.splits)

lemma recv_first_arrived:
  assumes "recv_first ls = (r, ls')"
  shows "(\<Sum>e \<leftarrow> ls. link_arrived (snd e))
    = (case r of None \<Rightarrow> {#} | Some d \<Rightarrow> {#d#}) + (\<Sum>e \<leftarrow> ls'. link_arrived (snd e))"
  using assms
proof (induction ls arbitrary: r ls')
  case (Cons e ls)
  obtain i l where e: "e = (i, l)" by (cases e)
  obtain q l' where q: "Link_recv l = (q, l')" by fastforce
  note k = Link_recv_waiting [OF q]
  show ?case
  proof (cases q)
    case None
    obtain r2 ls2 where r2: "recv_first ls = (r2, ls2)" by fastforce
    with Cons.prems e q None have "r = r2" "ls' = (i, l') # ls2" by auto
    with Cons.IH [OF r2] e k None show ?thesis by (simp add: ac_simps)
  next
    case (Some d)
    with Cons.prems e q have "r = Some d" "ls' = (i, l') # ls" by auto
    with e k Some show ?thesis by simp
  qed
qed simp

interpretation mux: packet_network "Multilink_ops env" "\<lambda>m. env_ok env" mqueue "\<lambda>d. [d]"
  "\<lambda>m. QUEUE_SIZE - length (mqueue m)" MULTILINK_MTU arrived for env
proof unfold_locales
  fix m :: "('a, 'b) multilink" and d :: bytes
  assume "pis_send_ready (Multilink_ops env) m" "length d \<le> MULTILINK_MTU" "env_ok env"
  then show "\<exists>m'. psend (Multilink_ops env) m d = Inr m' \<and> env_ok env \<and> mqueue m' = mqueue m @ [d]"
    by (simp add: Multilink_ops_def AbstractPacketStream_send_def send_with_offset_cases Multilink_is_send_ready_def)
next
  fix m m' :: "('a, 'b) multilink" and d :: bytes
  assume "pis_send_ready (Multilink_ops env) m" "psend (Multilink_ops env) m d = Inr m'"
  then show "QUEUE_SIZE - length (mqueue m') < QUEUE_SIZE - length (mqueue m)"
    by (auto simp: Multilink_ops_def AbstractPacketStream_send_def send_with_offset_cases Multilink_is_send_ready_def
        split: if_splits)
next
  fix m :: "('a, 'b) multilink" assume ok: "env_ok env"
  obtain r ls where r: "recv_first (random_shuffle env (mrand m) (mlinks m)) = (r, ls)" by fastforce
  have "mset (random_shuffle env (mrand m) (mlinks m)) = mset (mlinks m)" using ok by (simp add: env_ok_def)
  from sum_list_mset_eq [OF this, of "\<lambda>e. link_arrived (snd e)"] recv_first_arrived [OF r]
  show "\<exists>r m'. precv (Multilink_ops env) m = Inr (r, m') \<and> env_ok env
      \<and> arrived m = (case r of None \<Rightarrow> {#} | Some d \<Rightarrow> {#d#}) + arrived m'"
    using ok r by (auto simp: Multilink_ops_def Multilink_recv_def Multilink_shuffle_links_def Let_def arrived_def)
next
  fix m m' :: "('a, 'b) multilink" and r
  assume "precv (Multilink_ops env) m = Inr (r, m')"
  then show "mqueue m' = mqueue m"
    by (auto simp: Multilink_ops_def Multilink_recv_def Multilink_shuffle_links_def Let_def split: prod.splits)
qed

section \<open>Properties\<close>

text \<open>A client with a list of packets to send, over streams that do nothing.\<close>

definition example_env :: "(unit, bytes list) multilink_env" where
  "example_env = \<lparr>eops = \<lparr>sread = (\<lambda>s n. Inr ([], s)), swrite = (\<lambda>s d. Inr (0, s)), sclose = (\<lambda>s. s)\<rparr>,
     random_shuffle = (\<lambda>r ls. rev ls),
     on_send_ready = (\<lambda>c n. (take n (filter (\<lambda>d. length d \<le> MULTILINK_MTU) c),
       drop n (filter (\<lambda>d. length d \<le> MULTILINK_MTU) c)))\<rparr>"

lemma example_env_ok: "env_ok example_env"
  by (auto simp: env_ok_def example_env_def dest: in_set_takeD)

lemma Multilink_init_ok: "mux_ok (Multilink_init c)" "held (Multilink_init c) = {#}"
  by (simp_all add: Multilink_init_def mux_ok_def ids_def held_def)

lemma example_link_send_ready:
  "\<exists>m l. multilink_trace example_env (Multilink_init [[7], [8, 9]]) [] m \<and> mlinks m = [(0, l)]
     \<and> mqueue m = [] \<and> assigned_packets m = (\<lambda>_. []) \<and> mlast_seq m = 0 \<and> last_seq_sent l = 0 \<and> \<not> timed_out l
     \<and> in_flight_queue l = [] \<and> link_on_close m 0 = Some 5 \<and> mnext m = 1"
proof -
  let ?i = "Multilink_init [[7], [8, 9]] :: (unit, bytes list) multilink"
  from Link_init_law [of "()"] obtain l where l: "Link_init () = Inr l" "in_flight_queue l = []" "\<not> timed_out l"
    "last_seq_sent l = 0" by blast
  let ?l = "l\<lparr>lname := ''wifi''\<rparr>"
  let ?m = "?i\<lparr>mlinks := [(0, ?l)], link_on_close := [0 \<mapsto> 5], mtasks := [Task_link_send_ready 0, Task_link_recv_ready 0], mnext := 1\<rparr>"
  have "Multilink_add_link () ''wifi'' 5 ?i = Inr (0, ?m)"
    by (simp add: Multilink_add_link_def l(1) Multilink_init_def mschedule_def)
  from mtrace_snoc [OF mtrace_nil step_add_link [OF this]] have "multilink_trace example_env ?i [] ?m" by simp
  with l(2-4) show ?thesis
    by (intro exI [of _ ?m] exI [of _ ?l]) (simp add: Multilink_init_def)
qed

text \<open>C4: the multilink neither loses nor duplicates a packet. After any sequence of its handlers, of its
  links' handlers, of additions and removals of links, and of calls of its client, the packets it holds
  (queued, assigned to a link, or in flight on one) together with those released by acknowledgements are
  exactly the packets its client sent; a timed-out link's packets return to the queue.\<close>

theorem Multilink_conserves_packets:
  assumes "env_ok env" "multilink_trace env (Multilink_init c) released m"
  shows "\<exists>ds. client_run env c ds (mclient m) \<and> held m + mset released = mset ds"
  using multilink_trace_law [OF assms Multilink_init_ok(1)] Multilink_init_ok(2) [of c]
  by (auto simp: Multilink_init_def)

theorem Multilink_conserves_packets_witness:
  "\<exists>m. multilink_trace example_env (Multilink_init [[7], [8, 9]]) [] m \<and> held m = {#[7], [8, 9]#}
     \<and> (\<exists>ds. client_run example_env [[7], [8, 9]] ds (mclient m) \<and> held m + mset [] = mset ds)"
proof -
  let ?i = "Multilink_init [[7], [8, 9]] :: (unit, bytes list) multilink"
  let ?m = "?i\<lparr>mqueue := [[7], [8, 9]], mclient := [], mtasks := [Task_some_link_send_ready]\<rparr>"
  have "call_on_send_ready example_env ?i = Inr ?m"
    by (simp add: call_on_send_ready_def example_env_def Multilink_init_def Multilink_ops_def
        AbstractPacketStream_send_def send_with_offset_cases MULTILINK_MTU_def LINK_MTU_def HEADER_SIZE_def QUEUE_SIZE_def)
  from mtrace_snoc [OF mtrace_nil step_client [OF this]]
  have t: "multilink_trace example_env ?i [] ?m" by simp
  have "held ?m = {#[7], [8, 9]#}" by (simp add: held_def Multilink_init_def)
  with t Multilink_conserves_packets [OF example_env_ok t] show ?thesis by blast
qed

text \<open>C5: \<open>link_send_ready\<close> always returns. For a link the multilink owns, with the client sending only while
  \<open>is_send_ready\<close> holds, two units of fuel are enough, no assertion fails, and a timed-out link is removed with
  all its packets back in the queue; otherwise the loop stops only with nothing assigned to the link or a
  link that cannot take a packet.\<close>

theorem Multilink_link_send_ready_total:
  assumes "env_ok env" "mux_ok m" "seqs_ok m" "map_of (mlinks m) i = Some l" "2 \<le> fuel"
    and "unat (mlast_seq m) + fuel < 2 ^ 64"
  shows "\<exists>m'. Multilink_link_send_ready fuel env now i m = Inr m' \<and> mux_ok m' \<and> seqs_ok m'
     \<and> (if timed_out l
        then i \<notin> ids m' \<and> mqueue m' = mqueue m @ map pbuf (in_flight_queue l) @ assigned_packets m i
        else i \<in> ids m' \<and> link_settled i m')"
proof (cases "timed_out l")
  case True
  from remove_timed_out_law [OF assms(1,2,4) True, of fuel now] obtain m' where
    m': "Multilink_link_send_ready fuel env now i m = Inr m'" "conserves env m m'"
      "mqueue m' = mqueue m @ map pbuf (in_flight_queue l) @ assigned_packets m i" "ids m' = ids m - {i}"
      "mlast_seq m' = mlast_seq m" "mlinks m' = remove_link i (mlinks m)" by blast
  have "set (mlinks m') \<subseteq> set (mlinks m)"
    using assms(2) by (auto simp: m'(6) set_remove_link mux_ok_def)
  with assms(3) have "seqs_ok m'" by (auto simp: seqs_ok_def m'(5))
  with m' True show ?thesis by (auto simp: conserves_def)
next
  case False
  have "(if lsend_buffer_current l = [] then 2 else 1) \<le> fuel" using assms(5) by simp
  from send_ready_loop_total [OF assms(1-4,6) this, of now] obtain m' where
    m': "send_ready_loop fuel env now i m = Inr m'" "seqs_ok m'" "link_settled i m'" "i \<in> ids m'" by blast
  with send_ready_loop_conserves [OF assms(1,2) m'(1)] assms(4) False show ?thesis
    by (auto simp: Multilink_link_send_ready_def conserves_def)
qed

theorem Multilink_link_send_ready_total_witness:
  "\<exists>m m' :: (unit, bytes list) multilink. multilink_trace example_env (Multilink_init [[7], [8, 9]]) [] m
     \<and> Multilink_link_send_ready 2 example_env 9 0 m = Inr m' \<and> link_settled 0 m'"
proof -
  from example_link_send_ready obtain m l where m: "multilink_trace example_env (Multilink_init [[7], [8, 9]]) [] m"
    "mlinks m = [(0, l)]" "mlast_seq m = 0" "last_seq_sent l = 0" "\<not> timed_out l" by blast
  have "mux_ok m" using multilink_trace_law [OF example_env_ok m(1) Multilink_init_ok(1)] by blast
  moreover have "seqs_ok m" "map_of (mlinks m) 0 = Some l" using m by (simp_all add: seqs_ok_def)
  ultimately show ?thesis
    using Multilink_link_send_ready_total [OF example_env_ok, of m 0 l 2 9] m by auto
qed

text \<open>C6: the assignment of queued packets is greedy. Exactly the packets above the drain target leave the
  queue, from its front, and each goes to a link whose estimated completion time (\<open>key\<close>) is least among all
  links when it is assigned, ties aside; the heap is an implementation of this choice.\<close>

theorem Multilink_assign_links_greedy:
  assumes "mlinks m \<noteq> []"
  shows "\<exists>est'. greedy (mlinks m) (map (initial_estimate (assigned_packets m)) (mlinks m)) (assigned_packets m)
       (take (length (mqueue m) - drain_target (length (mqueue m))) (mqueue m)) est'
       (assigned_packets (Multilink_assign_links_until m))
     \<and> mqueue (Multilink_assign_links_until m)
         = drop (length (mqueue m) - drain_target (length (mqueue m))) (mqueue m)"
proof -
  let ?key = "link_key (mlinks m) (map (initial_estimate (assigned_packets m)) (mlinks m))"
  have "is_heap ?key (make_heap ?key [0..<length (mlinks m)])"
    "mset (make_heap ?key [0..<length (mlinks m)]) = mset [0..<length (mlinks m)]"
    using heap.make_law by blast+
  from assign_loop_greedy [OF this assms, of "drain_target (length (mqueue m))" "assigned_packets m" "mqueue m"]
  show ?thesis using assms by (auto simp: Multilink_assign_links_until_def Let_def)
qed

theorem Multilink_assign_links_greedy_witness:
  "\<exists>(m :: (unit, bytes list) multilink) est'. mlinks m \<noteq> [] \<and> mqueue m = [[7], [8, 9]]
     \<and> greedy (mlinks m) (map (initial_estimate (assigned_packets m)) (mlinks m)) (assigned_packets m) [[7], [8, 9]] est'
         (assigned_packets (Multilink_assign_links_until m))
     \<and> mqueue (Multilink_assign_links_until m) = []"
proof -
  from example_link_send_ready obtain m :: "(unit, bytes list) multilink" and l where "mlinks m = [(0, l)]" by blast
  with Multilink_assign_links_greedy [of "m\<lparr>mqueue := [[7], [8, 9]]\<rparr>"] show ?thesis
    by (intro exI [of _ "m\<lparr>mqueue := [[7], [8, 9]]\<rparr>"]) (simp add: drain_target_def QUEUE_SIZE_def)
qed

text \<open>A link that timed out is destroyed by the first \<open>link_send_ready\<close> that sees it; a second call that is
  still scheduled for it (its own \<open>on_send_ready\<close> and \<open>some_link_send_ready\<close> both reach it) uses a dangling
  pointer.\<close>

theorem Multilink_removed_link_dangles:
  assumes "env_ok env" "mux_ok m" "map_of (mlinks m) i = Some l" "timed_out l"
  shows "\<exists>m'. Multilink_link_send_ready fuel env now i m = Inr m'
     \<and> Task_some_link_send_ready \<in> set (mtasks m')
     \<and> Multilink_link_send_ready fuel env now i m' = Inl Undefined_behaviour"
proof -
  from remove_timed_out_law [OF assms, of fuel now] obtain m' where
    m': "Multilink_link_send_ready fuel env now i m = Inr m'" "ids m' = ids m - {i}"
      "mtasks m' = mtasks m @ [Task_some_link_send_ready]" by blast
  from m'(2) have "map_of (mlinks m') i = None" by (auto simp: ids_def map_of_eq_None_iff)
  with m' show ?thesis by (auto simp: Multilink_link_send_ready_def)
qed

theorem Multilink_removed_link_dangles_witness:
  "\<exists>(m :: (unit, bytes list) multilink) m'. Multilink_link_send_ready 2 example_env 9 0 m = Inr m'
     \<and> Multilink_link_send_ready 2 example_env 9 0 m' = Inl Undefined_behaviour"
proof -
  from example_link_send_ready obtain m :: "(unit, bytes list) multilink" and l where
    m: "mlinks m = [(0, l)]" "mqueue m = []" "assigned_packets m = (\<lambda>_. [])" "in_flight_queue l = []"
      "link_on_close m 0 = Some 5" "mnext m = 1" by blast
  let ?m = "m\<lparr>mlinks := [(0, l\<lparr>timed_out := True\<rparr>)]\<rparr>"
  have "mux_ok ?m" using m by (simp add: mux_ok_def ids_def)
  with Multilink_removed_link_dangles [OF example_env_ok, of ?m 0 "l\<lparr>timed_out := True\<rparr>" 2 9] show ?thesis by auto
qed

end
