(* ===== verification/Transport.thy ===== *)
theory Transport
  imports Multilink "HOL-Library.AList"
begin

text \<open>
  \<^verbatim>\<open>multilink/transport.cpp\<close>: channels over a packet network that may reorder and duplicate.

  A \<open>ChildStream\<close> is an object shared by the table \<open>children\<close> and by the callbacks of its target, so the
  model keeps a store of objects and lets both refer to them by number. The table is an association list:
  its order is the (unspecified) iteration order of the \<open>unordered_map\<close>. Targets that were closed are appended to \<open>closed_targets\<close>. A null target is \<open>None\<close>; an
  \<open>AllocBuffer\<close> slot of the reorder buffer is \<open>None\<close> while \<open>empty()\<close> holds of it. The target creator is a
  parameter that says, per channel id, whether its future is completed, failed or still pending; a pending
  one completes later through \<open>Transport_target_connected\<close> or \<open>Transport_target_error\<close>.

  The network and the targets are packet streams, used through their operations. The loops that wait for
  the network to become unready or empty take fuel.
\<close>

section \<open>State\<close>

definition MAX_BUFFER_PACKETS :: int where "MAX_BUFFER_PACKETS = 16 * 1024"
definition LAST_CHANNEL :: u64 where "LAST_CHANNEL = - 1"
definition CLOSE_CHANNEL :: u64 where "CLOSE_CHANNEL = LAST_CHANNEL - 2"
definition TRANSPORT_HEADER_SIZE :: nat where "TRANSPORT_HEADER_SIZE = 16"

record 't child_stream =
  cid :: u64
  ctarget :: "'t option"
  last_forwarded_packet :: u64
  last_sent_packet :: u64
  cbuffer :: "bytes option list"

datatype 't target_future = Completed 't | Failed | Pending

datatype transport_task = Task_network_send_ready | Task_network_recv_ready

record ('n, 't) transport =
  network_stream :: 'n
  objects :: "nat \<Rightarrow> 't child_stream"
  next_object :: nat
  children :: "(u64 \<times> nat) list"
  special_packet_queue :: "(u64 \<times> u64) list"
  tmtu :: nat
  ttasks :: "transport_task list"
  closed_targets :: "'t list"

definition new_child :: "u64 \<Rightarrow> 't child_stream" where
  "new_child chan = \<lparr>cid = chan, ctarget = None, last_forwarded_packet = 0, last_sent_packet = 0, cbuffer = []\<rparr>"

definition Transport_create :: "'n \<Rightarrow> nat \<Rightarrow> ('n, 't) transport" where
  "Transport_create net mtu =
     \<lparr>network_stream = net, objects = (\<lambda>_. new_child 0), next_object = 0, children = [], special_packet_queue = [],
      tmtu = mtu, ttasks = [Task_network_send_ready, Task_network_recv_ready], closed_targets = []\<rparr>"

definition put_object :: "nat \<Rightarrow> 't child_stream \<Rightarrow> ('n, 't) transport \<Rightarrow> ('n, 't) transport" where
  "put_object k c tr = tr\<lparr>objects := (objects tr)(k := c)\<rparr>"

text \<open>\<open>if(child->target) child->target->close(); child->target = nullptr;\<close>\<close>

definition drop_target :: "'t packet_ops \<Rightarrow> nat \<Rightarrow> ('n, 't) transport \<Rightarrow> ('n, 't) transport" where
  "drop_target tops k tr = (case ctarget (objects tr k) of
       None \<Rightarrow> tr
     | Some t \<Rightarrow> put_object k ((objects tr k)\<lparr>ctarget := None\<rparr>) (tr\<lparr>closed_targets := closed_targets tr @ [pclose tops t]\<rparr>))"

section \<open>From the network to a target\<close>

fun forward_loop :: "'t packet_ops \<Rightarrow> 't option \<Rightarrow> u64 \<Rightarrow> bytes option list \<Rightarrow>
    ('t option \<times> u64 \<times> bytes option list) result" where
  "forward_loop tops t lf [] = Inr (t, lf, [])"
| "forward_loop tops t lf (None # bs) = Inr (t, lf, None # bs)"
| "forward_loop tops None lf (Some d # bs) = Inr (None, lf, Some d # bs)"
| "forward_loop tops (Some t) lf (Some d # bs) =
     (if pis_send_ready tops t
      then bindR (psend tops t d) (\<lambda>t'. forward_loop tops (Some t') (lf + 1) bs)
      else Inr (Some t, lf, Some d # bs))"

definition child_send_ready :: "'t packet_ops \<Rightarrow> 't child_stream \<Rightarrow> 't child_stream result" where
  "child_send_ready tops c =
     bindR (forward_loop tops (ctarget c) (last_forwarded_packet c) (cbuffer c)) (\<lambda>(t, lf, bs).
       Inr (c\<lparr>ctarget := t, last_forwarded_packet := lf, cbuffer := bs\<rparr>))"

definition Transport_target_send_ready :: "'t packet_ops \<Rightarrow> nat \<Rightarrow> ('n, 't) transport \<Rightarrow> ('n, 't) transport result" where
  "Transport_target_send_ready tops k tr =
     bindR (child_send_ready tops (objects tr k)) (\<lambda>c. Inr (put_object k c tr))"

text \<open>
  \<open>place_packet\<close> after the lookup of the child. The difference of sequence numbers is taken in 64 bits and
  read as signed.
\<close>

definition child_place :: "'t packet_ops \<Rightarrow> u64 \<Rightarrow> bytes \<Rightarrow> 't child_stream \<Rightarrow> 't child_stream result" where
  "child_place tops seq data c =
     (let rel_seq_64 = sint (seq - last_forwarded_packet c) in
      if rel_seq_64 < 0 then Inr c
      else if rel_seq_64 \<ge> MAX_BUFFER_PACKETS then Inl Assert_failed
      else let rel_seq = nat rel_seq_64;
               buf = (if length (cbuffer c) < rel_seq + 1
                      then cbuffer c @ replicate (rel_seq + 1 - length (cbuffer c)) None else cbuffer c)
           in if buf ! rel_seq \<noteq> None then Inr (c\<lparr>cbuffer := buf\<rparr>)
              else let c' = c\<lparr>cbuffer := buf[rel_seq := Some data]\<rparr>
                   in if rel_seq = 0 then child_send_ready tops c' else Inr c')"

section \<open>From a target to the network\<close>

definition transport_packet :: "u64 \<Rightarrow> u64 \<Rightarrow> bytes \<Rightarrow> bytes" where
  "transport_packet chan seq data = put_u64 chan @ put_u64 seq @ data"

definition Transport_target_recv_ready_once ::
    "'n packet_ops \<Rightarrow> 't packet_ops \<Rightarrow> nat \<Rightarrow> ('n, 't) transport \<Rightarrow> (bool \<times> ('n, 't) transport) result" where
  "Transport_target_recv_ready_once nops tops k tr =
     (let c = objects tr k in
      case ctarget c of
        None \<Rightarrow> Inr (False, tr)
      | Some t \<Rightarrow> bindR (precv tops t) (\<lambda>(r, t').
          case r of
            None \<Rightarrow> Inr (False, put_object k (c\<lparr>ctarget := Some t'\<rparr>) tr)
          | Some d \<Rightarrow>
              bindR (psend nops (network_stream tr) (transport_packet (cid c) (last_sent_packet c) d)) (\<lambda>net.
                Inr (True, put_object k (c\<lparr>ctarget := Some t', last_sent_packet := last_sent_packet c + 1\<rparr>)
                       (tr\<lparr>network_stream := net\<rparr>)))))"

fun Transport_target_recv_ready ::
    "nat \<Rightarrow> 'n packet_ops \<Rightarrow> 't packet_ops \<Rightarrow> nat \<Rightarrow> ('n, 't) transport \<Rightarrow> ('n, 't) transport result" where
  "Transport_target_recv_ready 0 nops tops k tr = Inl Fuel_exhausted"
| "Transport_target_recv_ready (Suc fuel) nops tops k tr =
     (if \<not> pis_send_ready nops (network_stream tr) then Inr tr
      else bindR (Transport_target_recv_ready_once nops tops k tr) (\<lambda>r.
        if fst r then Transport_target_recv_ready fuel nops tops k (snd r) else Inr (snd r)))"

definition Transport_send_special_packet :: "'n packet_ops \<Rightarrow> ('n, 't) transport \<Rightarrow> ('n, 't) transport result" where
  "Transport_send_special_packet nops tr =
     (if \<not> pis_send_ready nops (network_stream tr) then Inr tr
      else case special_packet_queue tr of
             [] \<Rightarrow> Inr tr
           | p # ps \<Rightarrow>
               bindR (psend nops (network_stream tr) (transport_packet (fst p) (snd p) [])) (\<lambda>net.
                 Inr (tr\<lparr>special_packet_queue := ps, network_stream := net\<rparr>)))"

definition Transport_target_error ::
    "'n packet_ops \<Rightarrow> 't packet_ops \<Rightarrow> nat \<Rightarrow> ('n, 't) transport \<Rightarrow> ('n, 't) transport result" where
  "Transport_target_error nops tops k tr =
     bindR (Transport_send_special_packet nops
              (tr\<lparr>special_packet_queue := special_packet_queue tr @ [(CLOSE_CHANNEL, cid (objects tr k))]\<rparr>)) (\<lambda>tr'.
       Inr (drop_target tops k tr'))"

section \<open>Channels\<close>

text \<open>The continuation \<open>add_target\<close> attaches to the target's future.\<close>

definition Transport_target_connected ::
    "nat \<Rightarrow> 'n packet_ops \<Rightarrow> 't packet_ops \<Rightarrow> nat \<Rightarrow> 't \<Rightarrow> ('n, 't) transport \<Rightarrow> ('n, 't) transport result" where
  "Transport_target_connected fuel nops tops k t tr =
     bindR (Transport_target_send_ready tops k (put_object k ((objects tr k)\<lparr>ctarget := Some t\<rparr>) tr))
       (Transport_target_recv_ready fuel nops tops k)"

definition Transport_add_target ::
    "nat \<Rightarrow> 'n packet_ops \<Rightarrow> 't packet_ops \<Rightarrow> u64 \<Rightarrow> 't target_future \<Rightarrow> ('n, 't) transport \<Rightarrow> ('n, 't) transport result" where
  "Transport_add_target fuel nops tops chan target tr =
     (let k = next_object tr;
          tr1 = (put_object k (new_child chan) tr)\<lparr>next_object := k + 1, children := AList.update chan k (children tr)\<rparr>
      in case target of
           Completed t \<Rightarrow> Transport_target_connected fuel nops tops k t tr1
         | Failed \<Rightarrow> Transport_target_error nops tops k tr1
         | Pending \<Rightarrow> Inr tr1)"

definition Transport_get_child_stream ::
    "nat \<Rightarrow> 'n packet_ops \<Rightarrow> 't packet_ops \<Rightarrow> (u64 \<Rightarrow> 't target_future) \<Rightarrow> u64 \<Rightarrow> ('n, 't) transport \<Rightarrow>
       (nat \<times> ('n, 't) transport) result" where
  "Transport_get_child_stream fuel nops tops creator chan tr =
     (case map_of (children tr) chan of
        Some k \<Rightarrow> Inr (k, tr)
      | None \<Rightarrow> bindR (Transport_add_target fuel nops tops chan (creator chan) tr) (\<lambda>tr'.
          case map_of (children tr') chan of Some k \<Rightarrow> Inr (k, tr') | None \<Rightarrow> Inl Undefined_behaviour))"

text \<open>The target is closed and forgotten; the packets in the reorder buffer stay where they are.\<close>

definition Transport_close_channel ::
    "nat \<Rightarrow> 'n packet_ops \<Rightarrow> 't packet_ops \<Rightarrow> (u64 \<Rightarrow> 't target_future) \<Rightarrow> u64 \<Rightarrow> ('n, 't) transport \<Rightarrow>
       ('n, 't) transport result" where
  "Transport_close_channel fuel nops tops creator chan tr =
     bindR (Transport_get_child_stream fuel nops tops creator chan tr) (\<lambda>(k, tr').
       Inr (drop_target tops k tr'))"

definition Transport_place_packet ::
    "nat \<Rightarrow> 'n packet_ops \<Rightarrow> 't packet_ops \<Rightarrow> (u64 \<Rightarrow> 't target_future) \<Rightarrow> u64 \<Rightarrow> u64 \<Rightarrow> bytes \<Rightarrow> ('n, 't) transport \<Rightarrow>
       ('n, 't) transport result" where
  "Transport_place_packet fuel nops tops creator chan seq data tr =
     bindR (Transport_get_child_stream fuel nops tops creator chan tr) (\<lambda>(k, tr').
       bindR (child_place tops seq data (objects tr' k)) (\<lambda>c. Inr (put_object k c tr')))"

section \<open>The network callbacks\<close>

text \<open>In \<open>network_recv_ready\<close> the fuel \<open>inner\<close> is for the loops that a new channel starts.\<close>

definition Transport_network_packet ::
    "nat \<Rightarrow> 'n packet_ops \<Rightarrow> 't packet_ops \<Rightarrow> (u64 \<Rightarrow> 't target_future) \<Rightarrow> bytes \<Rightarrow> ('n, 't) transport \<Rightarrow>
       ('n, 't) transport result" where
  "Transport_network_packet fuel nops tops creator packet tr =
     bindR (read_at 0 8 packet) (\<lambda>chan. bindR (read_at 8 8 packet) (\<lambda>seq.
       if get_u64 chan = CLOSE_CHANNEL
       then Transport_close_channel fuel nops tops creator (get_u64 seq) tr
       else Transport_place_packet fuel nops tops creator (get_u64 chan) (get_u64 seq) (drop 16 packet) tr))"

fun Transport_network_recv_ready ::
    "nat \<Rightarrow> nat \<Rightarrow> 'n packet_ops \<Rightarrow> 't packet_ops \<Rightarrow> (u64 \<Rightarrow> 't target_future) \<Rightarrow> ('n, 't) transport \<Rightarrow> ('n, 't) transport result" where
  "Transport_network_recv_ready 0 inner nops tops creator tr = Inl Fuel_exhausted"
| "Transport_network_recv_ready (Suc fuel) inner nops tops creator tr =
     bindR (precv nops (network_stream tr)) (\<lambda>(r, net).
       case r of
         None \<Rightarrow> Inr (tr\<lparr>network_stream := net\<rparr>)
       | Some packet \<Rightarrow>
           bindR (Transport_network_packet inner nops tops creator packet (tr\<lparr>network_stream := net\<rparr>))
             (Transport_network_recv_ready fuel inner nops tops creator))"

text \<open>The pass over the children: the flags say whether the network stayed ready and whether anything was sent.\<close>

fun children_pass ::
    "'n packet_ops \<Rightarrow> 't packet_ops \<Rightarrow> nat list \<Rightarrow> bool \<Rightarrow> ('n, 't) transport \<Rightarrow> (bool \<times> bool \<times> ('n, 't) transport) result" where
  "children_pass nops tops [] anything tr = Inr (True, anything, tr)"
| "children_pass nops tops (k # ks) anything tr =
     (if \<not> pis_send_ready nops (network_stream tr) then Inr (False, anything, tr)
      else bindR (Transport_target_recv_ready_once nops tops k tr) (\<lambda>r.
        children_pass nops tops ks (anything \<or> fst r) (snd r)))"

fun Transport_network_send_ready ::
    "nat \<Rightarrow> 'n packet_ops \<Rightarrow> 't packet_ops \<Rightarrow> ('n, 't) transport \<Rightarrow> ('n, 't) transport result" where
  "Transport_network_send_ready 0 nops tops tr = Inl Fuel_exhausted"
| "Transport_network_send_ready (Suc fuel) nops tops tr =
     (if \<not> pis_send_ready nops (network_stream tr) then Inr tr
      else if special_packet_queue tr \<noteq> [] then
        bindR (Transport_send_special_packet nops tr) (Transport_network_send_ready fuel nops tops)
      else bindR (children_pass nops tops (map snd (children tr)) False tr) (\<lambda>r.
        if \<not> fst r then Inr (snd (snd r))
        else if \<not> fst (snd r) then Inr (snd (snd r))
        else Transport_network_send_ready fuel nops tops (snd (snd r))))"

section \<open>One channel\<close>

lemma sint_diff:
  assumes "s < 2 ^ 62" "unat lf < 2 ^ 62"
  shows "sint (of_nat s - lf :: u64) = int s - int (unat lf)"
proof -
  have e: "of_nat s - lf = (of_int (int s - int (unat lf)) :: u64)" by simp
  have "- (2 ^ 63) \<le> int s - int (unat lf)" "int s - int (unat lf) < 2 ^ 63" using assms by (simp_all del: of_nat_unat)
  then show ?thesis unfolding e by (simp only: signed_of_int) (simp add: signed_take_bit_int_eq_self)
qed

lemma unat_plus_of_nat: "unat lf + k < 2 ^ 64 \<Longrightarrow> unat (lf + of_nat k :: u64) = unat lf + k"
  by (simp add: unat_word_ariths unat_of_nat)

text \<open>
  The reorder buffer after the packets \<open>A\<close> of the message sequence \<open>msgs\<close> have arrived: every slot holds the
  message of its position, and every arrived message has been forwarded or waits in its slot.
\<close>

definition reorder_ok :: "bytes list \<Rightarrow> nat set \<Rightarrow> nat \<Rightarrow> bytes option list \<Rightarrow> bool" where
  "reorder_ok msgs A n bs \<longleftrightarrow> n \<le> length msgs
     \<and> (\<forall>j < length bs. \<forall>d. bs ! j = Some d \<longrightarrow> n + j < length msgs \<and> d = msgs ! (n + j))
     \<and> (\<forall>s \<in> A. s < n \<or> (s - n < length bs \<and> bs ! (s - n) \<noteq> None))"

lemma reorder_ok_pop:
  assumes "reorder_ok msgs A n (Some d # bs)"
  shows "reorder_ok msgs A (Suc n) bs" "d = msgs ! n" "n < length msgs"
proof -
  have h: "\<forall>j < length (Some d # bs). \<forall>e. (Some d # bs) ! j = Some e \<longrightarrow> n + j < length msgs \<and> e = msgs ! (n + j)"
    "\<forall>s \<in> A. s < n \<or> (s - n < length (Some d # bs) \<and> (Some d # bs) ! (s - n) \<noteq> None)"
    using assms by (simp_all add: reorder_ok_def)
  from h(1) [rule_format, of 0 d] show d: "d = msgs ! n" "n < length msgs" by simp_all
  have "Suc n + j < length msgs \<and> e = msgs ! (Suc n + j)" if "j < length bs" "bs ! j = Some e" for j e
    using h(1) [rule_format, of "Suc j" e] that by simp
  moreover have "s < Suc n \<or> (s - Suc n < length bs \<and> bs ! (s - Suc n) \<noteq> None)" if "s \<in> A" for s
  proof (cases "s < Suc n")
    case False
    then have "s - n = Suc (s - Suc n)" by simp
    with h(2) that False show ?thesis by (auto simp: less_Suc_eq)
  qed simp
  ultimately show "reorder_ok msgs A (Suc n) bs" using d(2) by (simp add: reorder_ok_def Suc_le_eq)
qed

text \<open>Everything that arrived without a gap has been forwarded once the front of the buffer is vacant.\<close>

lemma reorder_ok_complete:
  assumes "reorder_ok msgs A n bs" "bs = [] \<or> hd bs = None" "{0..<k} \<subseteq> A"
  shows "k \<le> n"
proof (rule ccontr)
  assume "\<not> k \<le> n"
  then have "n \<in> A" using assms(3) by auto
  with assms(1) have "0 < length bs \<and> bs ! 0 \<noteq> None" by (auto simp: reorder_ok_def)
  with assms(2) show False by (cases bs) auto
qed

lemma reorder_ok_place:
  assumes "reorder_ok msgs A n bs" "n \<le> s" "s < length msgs"
    and "buf = (if length bs < s - n + 1 then bs @ replicate (s - n + 1 - length bs) None else bs)"
  shows "reorder_ok msgs A n buf" "s - n < length buf" "reorder_ok msgs (insert s A) n (buf[s - n := Some (msgs ! s)])"
    "buf ! (s - n) \<noteq> None \<Longrightarrow> reorder_ok msgs (insert s A) n buf"
proof -
  have nth: "buf ! j = (if j < length bs then bs ! j else None)" if "j < length buf" for j
    using that by (auto simp: assms(4) nth_append split: if_splits)
  show len: "s - n < length buf" by (auto simp: assms(4))
  have le: "length bs \<le> length buf" by (simp add: assms(4))
  show ok: "reorder_ok msgs A n buf"
    using assms(1) le by (auto simp: reorder_ok_def nth split: if_splits)
  show "buf ! (s - n) \<noteq> None \<Longrightarrow> reorder_ok msgs (insert s A) n buf"
    using ok len by (simp add: reorder_ok_def)
  show "reorder_ok msgs (insert s A) n (buf[s - n := Some (msgs ! s)])"
    using ok len assms(2,3) by (auto simp: reorder_ok_def nth_list_update split: if_splits)
qed

lemma child_place_in_window:
  assumes "sint (seq - last_forwarded_packet c) = int r" "int r < MAX_BUFFER_PACKETS"
    and "buf = (if length (cbuffer c) < r + 1 then cbuffer c @ replicate (r + 1 - length (cbuffer c)) None else cbuffer c)"
  shows "child_place tops seq data c =
      (if buf ! r \<noteq> None then Inr (c\<lparr>cbuffer := buf\<rparr>)
       else if r = 0 then child_send_ready tops (c\<lparr>cbuffer := buf[r := Some data]\<rparr>)
       else Inr (c\<lparr>cbuffer := buf[r := Some data]\<rparr>))"
proof -
  have "\<not> int r < 0" "\<not> MAX_BUFFER_PACKETS \<le> int r" using assms(2) by simp_all
  then show ?thesis unfolding child_place_def assms(1) Let_def nat_int assms(3) [symmetric] by (simp only: if_False)
qed

context packet_sink
begin

lemma forward_loop_law:
  assumes "pinv t" "emitted t = base @ concat (map enc (take (unat lf) msgs))" "reorder_ok msgs A (unat lf) bs"
    and "length msgs < 2 ^ 62" "\<forall>d \<in> set msgs. length d \<le> mtu"
  shows "\<exists>t' lf' bs'. forward_loop pops (Some t) lf bs = Inr (Some t', lf', bs') \<and> pinv t'
     \<and> emitted t' = base @ concat (map enc (take (unat lf') msgs)) \<and> reorder_ok msgs A (unat lf') bs'
     \<and> unat lf \<le> unat lf' \<and> (bs' = [] \<or> hd bs' = None \<or> \<not> pis_send_ready pops t')"
  using assms(1-3)
proof (induction bs arbitrary: t lf)
  case (Cons b bs)
  show ?case
  proof (cases b)
    case None
    with Cons.prems show ?thesis by auto
  next
    case (Some d)
    note pop = reorder_ok_pop [OF Cons.prems(3) [unfolded Some]]
    show ?thesis
    proof (cases "pis_send_ready pops t")
      case False
      with Some Cons.prems show ?thesis by auto
    next
      case True
      have "length d \<le> mtu" using pop(2,3) assms(5) by auto
      from psend_law [OF Cons.prems(1) True this] obtain t1 where
        t1: "psend pops t d = Inr t1" "pinv t1" "emitted t1 = emitted t @ enc d" by blast
      have lf: "unat (lf + 1) = Suc (unat lf)"
        using unat_plus_of_nat [of lf 1] pop(3) assms(4) by simp
      have "emitted t1 = base @ concat (map enc (take (unat (lf + 1)) msgs))"
        using t1(3) Cons.prems(2) pop(2,3) by (simp add: lf take_Suc_conv_app_nth)
      from Cons.IH [OF t1(2) this] pop(1) lf obtain t' lf' bs' where
        "forward_loop pops (Some t1) (lf + 1) bs = Inr (Some t', lf', bs')" "pinv t'"
        "emitted t' = base @ concat (map enc (take (unat lf') msgs))" "reorder_ok msgs A (unat lf') bs'"
        "Suc (unat lf) \<le> unat lf'" "bs' = [] \<or> hd bs' = None \<or> \<not> pis_send_ready pops t'" by auto
      with Some True t1(1) show ?thesis by auto
    qed
  qed
qed simp

definition chan_ok :: "'o list \<Rightarrow> bytes list \<Rightarrow> nat set \<Rightarrow> 'p child_stream \<Rightarrow> bool" where
  "chan_ok base msgs A c \<longleftrightarrow> length msgs < 2 ^ 62 \<and> (\<forall>d \<in> set msgs. length d \<le> mtu)
     \<and> reorder_ok msgs A (unat (last_forwarded_packet c)) (cbuffer c)
     \<and> (case ctarget c of None \<Rightarrow> True
        | Some t \<Rightarrow> pinv t \<and> emitted t = base @ concat (map enc (take (unat (last_forwarded_packet c)) msgs)))"

lemma chan_ok_buffer:
  "chan_ok base msgs A c \<Longrightarrow> reorder_ok msgs A' (unat (last_forwarded_packet c)) bs \<Longrightarrow>
     chan_ok base msgs A' (c\<lparr>cbuffer := bs\<rparr>)"
  by (simp add: chan_ok_def split: option.splits)

lemma child_send_ready_law:
  assumes "chan_ok base msgs A c"
  shows "\<exists>c'. child_send_ready pops c = Inr c' \<and> chan_ok base msgs A c'
     \<and> cid c' = cid c \<and> last_sent_packet c' = last_sent_packet c \<and> (ctarget c' = None \<longleftrightarrow> ctarget c = None)
     \<and> unat (last_forwarded_packet c) \<le> unat (last_forwarded_packet c')
     \<and> (ctarget c' = None \<longrightarrow> last_forwarded_packet c' = last_forwarded_packet c)
     \<and> (\<forall>t. ctarget c' = Some t \<longrightarrow> cbuffer c' = [] \<or> hd (cbuffer c') = None \<or> \<not> pis_send_ready pops t)"
proof (cases "ctarget c")
  case None
  have "forward_loop pops None lf bs = Inr (None, lf, bs)" for lf bs
    by (cases "(pops, None :: 'p option, lf, bs)" rule: forward_loop.cases) auto
  with None assms show ?thesis by (simp add: child_send_ready_def chan_ok_def)
next
  case (Some t)
  from assms Some have "pinv t" "emitted t = base @ concat (map enc (take (unat (last_forwarded_packet c)) msgs))"
    "reorder_ok msgs A (unat (last_forwarded_packet c)) (cbuffer c)" "length msgs < 2 ^ 62" "\<forall>d \<in> set msgs. length d \<le> mtu"
    by (simp_all add: chan_ok_def)
  from forward_loop_law [OF this] Some assms show ?thesis
    by (auto simp: child_send_ready_def chan_ok_def)
qed

lemma child_place_law:
  assumes "chan_ok base msgs A c" "s < length msgs"
  shows "if MAX_BUFFER_PACKETS \<le> int s - int (unat (last_forwarded_packet c))
    then child_place pops (of_nat s) (msgs ! s) c = Inl Assert_failed
    else \<exists>c'. child_place pops (of_nat s) (msgs ! s) c = Inr c' \<and> chan_ok base msgs (insert s A) c'
      \<and> cid c' = cid c \<and> last_sent_packet c' = last_sent_packet c \<and> (ctarget c' = None \<longleftrightarrow> ctarget c = None)
      \<and> unat (last_forwarded_packet c) \<le> unat (last_forwarded_packet c')
      \<and> (ctarget c' = None \<longrightarrow> last_forwarded_packet c' = last_forwarded_packet c)"
proof -
  let ?n = "unat (last_forwarded_packet c)"
  from assms(1) have len: "length msgs < 2 ^ 62" and ro: "reorder_ok msgs A ?n (cbuffer c)"
    by (simp_all add: chan_ok_def)
  then have n: "?n < 2 ^ 62" "s < 2 ^ 62" using assms(2) by (auto simp: reorder_ok_def)
  note d = sint_diff [OF n(2,1)]
  consider "s < ?n" | "MAX_BUFFER_PACKETS \<le> int s - int ?n" | "?n \<le> s" "int s - int ?n < MAX_BUFFER_PACKETS" by linarith
  then show ?thesis
  proof cases
    case 1
    then have "chan_ok base msgs (insert s A) c" using assms(1) by (simp add: chan_ok_def reorder_ok_def)
    moreover have "sint (of_nat s - last_forwarded_packet c :: u64) < 0" using d 1 by linarith
    then have "child_place pops (of_nat s) (msgs ! s) c = Inr c" by (simp add: child_place_def Let_def)
    moreover have "\<not> MAX_BUFFER_PACKETS \<le> int s - int ?n" using 1 unfolding MAX_BUFFER_PACKETS_def by linarith
    ultimately show ?thesis by (simp only: if_False) blast
  next
    case 2
    then have "MAX_BUFFER_PACKETS \<le> sint (of_nat s - last_forwarded_packet c :: u64)" unfolding d .
    then have "child_place pops (of_nat s) (msgs ! s) c = Inl Assert_failed"
      by (simp add: child_place_def Let_def MAX_BUFFER_PACKETS_def)
    with 2 show ?thesis by simp
  next
    case 3
    let ?r = "s - ?n"
    define buf where "buf = (if length (cbuffer c) < ?r + 1
      then cbuffer c @ replicate (?r + 1 - length (cbuffer c)) None else cbuffer c)"
    have r: "sint (of_nat s - last_forwarded_packet c :: u64) = int ?r" "int ?r < MAX_BUFFER_PACKETS"
      using d 3 by linarith+
    note pl = reorder_ok_place [OF ro 3(1) assms(2) buf_def]
    note eq = child_place_in_window [OF r buf_def, of pops "msgs ! s"]
    note ok = chan_ok_buffer [OF assms(1) pl(3)] chan_ok_buffer [OF assms(1) pl(4)]
    have w: "\<not> MAX_BUFFER_PACKETS \<le> int s - int ?n" using 3(2) by linarith
    consider "buf ! ?r \<noteq> None" | "buf ! ?r = None" "?r = 0" | "buf ! ?r = None" "?r \<noteq> 0" by blast
    then show ?thesis
    proof cases
      case 1
      then have "child_place pops (of_nat s) (msgs ! s) c = Inr (c\<lparr>cbuffer := buf\<rparr>)" unfolding eq by simp
      with w ok(2) [OF 1] show ?thesis by (simp only: if_False) fastforce
    next
      case 2
      let ?c = "c\<lparr>cbuffer := buf[?r := Some (msgs ! s)]\<rparr>"
      have f: "cid ?c = cid c" "last_sent_packet ?c = last_sent_packet c" "ctarget ?c = ctarget c"
        "last_forwarded_packet ?c = last_forwarded_packet c" by simp_all
      have e: "child_place pops (of_nat s) (msgs ! s) c = child_send_ready pops ?c" unfolding eq using 2 by simp
      from child_send_ready_law [OF ok(1), unfolded f] w show ?thesis unfolding e
        by (simp only: if_False) (elim exE conjE, intro exI conjI, assumption+)
    next
      case 3
      then have "child_place pops (of_nat s) (msgs ! s) c = Inr (c\<lparr>cbuffer := buf[?r := Some (msgs ! s)]\<rparr>)"
        unfolding eq by simp
      with w ok(1) show ?thesis by (simp only: if_False) fastforce
    qed
  qed
qed

lemma chan_ok_target:
  "chan_ok base msgs A c \<Longrightarrow> ctarget c = Some t \<Longrightarrow> pinv t' \<Longrightarrow> emitted t' = emitted t \<Longrightarrow>
     chan_ok base msgs A (c\<lparr>ctarget := Some t'\<rparr>)"
  by (simp add: chan_ok_def)

lemma chan_ok_no_target: "chan_ok base msgs A c \<Longrightarrow> chan_ok base msgs A (c\<lparr>ctarget := None\<rparr>)"
  by (simp add: chan_ok_def)

lemma chan_ok_mono: "chan_ok base msgs A c \<Longrightarrow> B \<subseteq> A \<Longrightarrow> chan_ok base msgs B c"
  by (auto simp: chan_ok_def reorder_ok_def)

lemma chan_ok_new:
  "length msgs < 2 ^ 62 \<Longrightarrow> \<forall>d \<in> set msgs. length d \<le> mtu \<Longrightarrow> chan_ok base msgs {} (new_child chan)"
  by (simp add: chan_ok_def new_child_def reorder_ok_def)

end

text \<open>
  The life of a channel: packets of the message sequence arrive in any order and any number of times, the
  target reports readiness, changes by itself (as \<open>mv\<close> allows), or is closed.
\<close>

inductive channel_step :: "'t packet_ops \<Rightarrow> ('t \<Rightarrow> 't \<Rightarrow> bool) \<Rightarrow> bytes list \<Rightarrow> 't child_stream \<Rightarrow> nat set \<Rightarrow>
    't child_stream \<Rightarrow> bool" for tops :: "'t packet_ops" and mv :: "'t \<Rightarrow> 't \<Rightarrow> bool" and msgs :: "bytes list" where
  chan_arrive: "s < length msgs \<Longrightarrow> child_place tops (of_nat s) (msgs ! s) c = Inr c' \<Longrightarrow> channel_step tops mv msgs c {s} c'"
| chan_ready: "child_send_ready tops c = Inr c' \<Longrightarrow> channel_step tops mv msgs c {} c'"
| chan_moves: "ctarget c = Some t \<Longrightarrow> mv t t' \<Longrightarrow> channel_step tops mv msgs c {} (c\<lparr>ctarget := Some t'\<rparr>)"
| chan_close: "channel_step tops mv msgs c {} (c\<lparr>ctarget := None\<rparr>)"

inductive channel_trace :: "'t packet_ops \<Rightarrow> ('t \<Rightarrow> 't \<Rightarrow> bool) \<Rightarrow> bytes list \<Rightarrow> 't child_stream \<Rightarrow> nat set \<Rightarrow>
    't child_stream \<Rightarrow> bool" for tops :: "'t packet_ops" and mv :: "'t \<Rightarrow> 't \<Rightarrow> bool" and msgs :: "bytes list" where
  channel_trace_nil: "channel_trace tops mv msgs c {} c"
| channel_trace_snoc: "channel_trace tops mv msgs c A d \<Longrightarrow> channel_step tops mv msgs d B e \<Longrightarrow>
    channel_trace tops mv msgs c (A \<union> B) e"

text \<open>A channel without a target keeps everything.\<close>

lemma child_send_ready_unconnected: "ctarget c = None \<Longrightarrow> child_send_ready tops c = Inr c"
proof -
  have "forward_loop tops None lf bs = Inr (None, lf, bs)" for lf bs
    by (cases "(tops, None :: 'a option, lf, bs)" rule: forward_loop.cases) auto
  then show "ctarget c = None \<Longrightarrow> child_send_ready tops c = Inr c" by (simp add: child_send_ready_def)
qed

lemma child_place_unconnected:
  "ctarget c = None \<Longrightarrow> child_place tops seq d c = Inr c' \<Longrightarrow>
     ctarget c' = None \<and> last_forwarded_packet c' = last_forwarded_packet c"
  by (auto simp: child_place_def Let_def child_send_ready_unconnected split: if_splits)

lemma channel_step_unconnected:
  "channel_step tops mv msgs c B c' \<Longrightarrow> ctarget c = None \<Longrightarrow>
     ctarget c' = None \<and> last_forwarded_packet c' = last_forwarded_packet c"
  by (erule channel_step.cases) (auto simp: child_send_ready_unconnected dest: child_place_unconnected)

lemma channel_trace_unconnected:
  "channel_trace tops mv msgs c A c' \<Longrightarrow> ctarget c = None \<Longrightarrow>
     ctarget c' = None \<and> last_forwarded_packet c' = last_forwarded_packet c"
  by (induction rule: channel_trace.induct) (auto dest: channel_step_unconnected)

context packet_sink
begin

lemma channel_step_law:
  assumes "channel_step pops mv msgs c B c'" "chan_ok base msgs A c"
    and mv: "\<And>t t'. pinv t \<Longrightarrow> mv t t' \<Longrightarrow> pinv t' \<and> emitted t' = emitted t"
  shows "chan_ok base msgs (A \<union> B) c'"
  using assms(1)
proof cases
  case (chan_arrive s)
  from child_place_law [OF assms(2) chan_arrive(2)] chan_arrive show ?thesis
    by (auto simp del: of_nat_unat split: if_splits)
next
  case chan_ready
  with child_send_ready_law [OF assms(2)] show ?thesis by auto
next
  case (chan_moves t t')
  moreover have "pinv t" using assms(2) chan_moves(3) by (simp add: chan_ok_def)
  ultimately show ?thesis using chan_ok_target [OF assms(2)] mv by simp
next
  case chan_close
  then show ?thesis using chan_ok_no_target [OF assms(2)] by simp
qed

lemma channel_trace_law:
  assumes "channel_trace pops mv msgs c A c'" "chan_ok base msgs B c"
    and mv: "\<And>t t'. pinv t \<Longrightarrow> mv t t' \<Longrightarrow> pinv t' \<and> emitted t' = emitted t"
  shows "chan_ok base msgs (B \<union> A) c'"
  using assms(1,2)
proof (induction rule: channel_trace.induct)
  case (channel_trace_snoc c A d A' e)
  then show ?case using channel_step_law [OF channel_trace_snoc.hyps(2) channel_trace_snoc.IH mv]
    by (simp add: Un_assoc)
qed simp

text \<open>From the creation of the channel through the connection of its target.\<close>

lemma channel_life:
  assumes "channel_trace pops mv msgs (new_child chan) A c" "pinv t"
    and "channel_trace pops mv msgs (c\<lparr>ctarget := Some t\<rparr>) B c'"
    and "length msgs < 2 ^ 62" "\<forall>d \<in> set msgs. length d \<le> mtu"
    and mv: "\<And>t t'. pinv t \<Longrightarrow> mv t t' \<Longrightarrow> pinv t' \<and> emitted t' = emitted t"
  shows "chan_ok (emitted t) msgs (A \<union> B) c'"
proof -
  have new: "chan_ok (emitted t) msgs {} (new_child chan)" by (rule chan_ok_new [OF assms(4,5)])
  have "ctarget (new_child chan) = None" by (simp add: new_child_def)
  from channel_trace_unconnected [OF assms(1) this]
  have "last_forwarded_packet c = 0" by (simp add: new_child_def)
  with channel_trace_law [OF assms(1) new mv] assms(2)
  have "chan_ok (emitted t) msgs A (c\<lparr>ctarget := Some t\<rparr>)" by (simp add: chan_ok_def)
  from channel_trace_law [OF assms(3) this mv] show ?thesis .
qed

end

section \<open>What a transport sends\<close>

text \<open>
  \<open>stamped chans f lg ps g\<close>: the packets \<open>ps\<close> carry the data of \<open>lg\<close> (object and data, in order), each stamped with
  the channel of its object and that object's next sequence number; \<open>f\<close> and \<open>g\<close> are the counters before and after.
\<close>

inductive stamped :: "(nat \<Rightarrow> u64) \<Rightarrow> (nat \<Rightarrow> u64) \<Rightarrow> (nat \<times> bytes) list \<Rightarrow> bytes list \<Rightarrow> (nat \<Rightarrow> u64) \<Rightarrow> bool"
  for chans :: "nat \<Rightarrow> u64" where
  stamped_nil: "stamped chans f [] [] f"
| stamped_snoc: "stamped chans f lg ps g \<Longrightarrow>
    stamped chans f (lg @ [(k, d)]) (ps @ [transport_packet (chans k) (g k) d]) (g(k := g k + 1))"

definition chan_log :: "nat \<Rightarrow> (nat \<times> bytes) list \<Rightarrow> bytes list" where
  "chan_log k lg = map snd (filter (\<lambda>e. fst e = k) lg)"

lemma chan_log_simps [simp]:
  "chan_log k [] = []" "chan_log k (lg @ lg') = chan_log k lg @ chan_log k lg'"
  "chan_log k [(j, d)] = (if j = k then [d] else [])"
  by (simp_all add: chan_log_def)

lemma stamped_trans: "stamped chans g lg' ps' h \<Longrightarrow> stamped chans f lg ps g \<Longrightarrow> stamped chans f (lg @ lg') (ps @ ps') h"
proof (induction rule: stamped.induct)
  case (stamped_snoc g lg' ps' h k d)
  from stamped.stamped_snoc [OF stamped_snoc.IH [OF stamped_snoc.prems], of k d] show ?case by (simp only: append_assoc)
qed simp

lemma stamped_counter:
  "stamped chans f lg ps g \<Longrightarrow> g k = f k + of_nat (length (chan_log k lg))"
  by (induction rule: stamped.induct) auto

fun numbered :: "u64 \<Rightarrow> u64 \<Rightarrow> bytes list \<Rightarrow> bytes list" where
  "numbered chan n [] = []"
| "numbered chan n (d # ds) = transport_packet chan n d # numbered chan (n + 1) ds"

lemma numbered_snoc:
  "numbered chan n (ds @ [d]) = numbered chan n ds @ [transport_packet chan (n + of_nat (length ds)) d]"
  by (induction ds arbitrary: n) (simp_all add: ac_simps)

definition packet_channel :: "bytes \<Rightarrow> u64" where
  "packet_channel p = get_u64 (take 8 p)"

lemma transport_packet_parts [simp]:
  "packet_channel (transport_packet chan seq d) = chan"
  "read_at 0 8 (transport_packet chan seq d) = Inr (put_u64 chan)"
  "read_at 8 8 (transport_packet chan seq d) = Inr (put_u64 seq)"
  "drop 16 (transport_packet chan seq d) = d"
  "length (transport_packet chan seq d) = 16 + length d"
  using get_put_u64 [of chan "[]"]
  by (simp_all add: packet_channel_def transport_packet_def read_at_def)

lemma get_u64_put [simp]: "get_u64 (put_u64 w) = w"
  using get_put_u64 [of w "[]"] by simp

text \<open>On the wire, the packets of one channel are its data numbered consecutively.\<close>

lemma stamped_numbered:
  assumes "stamped chans f lg ps g" "\<And>j. j \<in> fst ` set lg \<Longrightarrow> chans j = chans k \<Longrightarrow> j = k"
  shows "filter (\<lambda>p. packet_channel p = chans k) ps = numbered (chans k) (f k) (chan_log k lg)"
  using assms
proof (induction rule: stamped.induct)
  case (stamped_snoc f lg ps g j d)
  have "filter (\<lambda>p. packet_channel p = chans k) ps = numbered (chans k) (f k) (chan_log k lg)"
    using stamped_snoc.IH stamped_snoc.prems by auto
  moreover have "chans j = chans k \<longleftrightarrow> j = k" using stamped_snoc.prems [of j] by auto
  ultimately show ?case
    using stamped_counter [OF stamped_snoc.hyps, of k] by (simp add: numbered_snoc)
qed simp

locale transport_io =
  net: packet_network nops ninv nemitted nenc nroom nmtu narrived +
  tgt: packet_duplex tops tinv temitted tenc troom tgtmtu tinbox
  for nops :: "'n packet_ops" and ninv :: "'n \<Rightarrow> bool" and nemitted :: "'n \<Rightarrow> 'o list"
    and nenc :: "bytes \<Rightarrow> 'o list" and nroom :: "'n \<Rightarrow> nat" and nmtu :: nat and narrived :: "'n \<Rightarrow> bytes multiset"
    and tops :: "'t packet_ops" and tinv :: "'t \<Rightarrow> bool" and temitted :: "'t \<Rightarrow> 'e list"
    and tenc :: "bytes \<Rightarrow> 'e list" and troom :: "'t \<Rightarrow> nat" and tgtmtu :: nat and tinbox :: "'t \<Rightarrow> bytes list" +
  assumes special_fits: "16 \<le> nmtu"
begin

definition target_ok :: "'t child_stream \<Rightarrow> bool" where
  "target_ok c \<longleftrightarrow> (case ctarget c of None \<Rightarrow> True | Some t \<Rightarrow> tinv t \<and> (\<forall>d \<in> set (tinbox t). length d + 16 \<le> nmtu))"

definition io_ok :: "('n, 't) transport \<Rightarrow> bool" where
  "io_ok tr \<longleftrightarrow> ninv (network_stream tr) \<and> (\<forall>k. target_ok (objects tr k))"

definition inbox_of :: "'t child_stream \<Rightarrow> bytes list" where
  "inbox_of c = (case ctarget c of None \<Rightarrow> [] | Some t \<Rightarrow> tinbox t)"

text \<open>Receiving from a target leaves everything but the target's input and the send counter alone.\<close>

definition drained :: "'t child_stream \<Rightarrow> 't child_stream \<Rightarrow> bool" where
  "drained c c' \<longleftrightarrow> cid c' = cid c \<and> last_forwarded_packet c' = last_forwarded_packet c \<and> cbuffer c' = cbuffer c
     \<and> rel_option (\<lambda>t t'. temitted t' = temitted t) (ctarget c) (ctarget c')"

lemma drained_refl: "drained c c"
  by (simp add: drained_def option.rel_refl)

lemma drained_trans: "drained a b \<Longrightarrow> drained b c \<Longrightarrow> drained a c"
  by (cases "ctarget a"; cases "ctarget b"; cases "ctarget c") (auto simp: drained_def)

definition sends :: "('n, 't) transport \<Rightarrow> (u64 \<times> u64) list \<Rightarrow> (nat \<times> bytes) list \<Rightarrow> bytes list \<Rightarrow> ('n, 't) transport \<Rightarrow> bool" where
  "sends tr sp lg ps tr' \<longleftrightarrow> io_ok tr'
     \<and> nemitted (network_stream tr') = nemitted (network_stream tr)
         @ concat (map nenc (map (\<lambda>p. transport_packet (fst p) (snd p) []) sp @ ps))
     \<and> special_packet_queue tr = sp @ special_packet_queue tr'
     \<and> stamped (\<lambda>k. cid (objects tr k)) (\<lambda>k. last_sent_packet (objects tr k)) lg ps (\<lambda>k. last_sent_packet (objects tr' k))
     \<and> (\<forall>k. inbox_of (objects tr k) = chan_log k lg @ inbox_of (objects tr' k) \<and> drained (objects tr k) (objects tr' k))
     \<and> children tr' = children tr \<and> next_object tr' = next_object tr \<and> closed_targets tr' = closed_targets tr"

lemma sends_refl: "io_ok tr \<Longrightarrow> sends tr [] [] [] tr"
  by (simp add: sends_def stamped_nil drained_refl)

lemma sends_trans:
  assumes "sends a sp lg ps b" "sends b sp' lg' ps' c" "ps = [] \<or> sp' = []"
  shows "sends a (sp @ sp') (lg @ lg') (ps @ ps') c"
proof -
  from assms(1) have "\<forall>k. cid (objects b k) = cid (objects a k)" by (simp add: sends_def drained_def)
  then have chans: "(\<lambda>k. cid (objects b k)) = (\<lambda>k. cid (objects a k))" by auto
  have "stamped (\<lambda>k. cid (objects a k)) (\<lambda>k. last_sent_packet (objects a k)) (lg @ lg') (ps @ ps')
      (\<lambda>k. last_sent_packet (objects c k))"
    using assms(1,2) stamped_trans unfolding sends_def chans by blast
  moreover have "nemitted (network_stream c) = nemitted (network_stream a)
      @ concat (map nenc (map (\<lambda>p. transport_packet (fst p) (snd p) []) (sp @ sp') @ ps @ ps'))"
    using assms by (auto simp: sends_def)
  moreover have "\<forall>k. drained (objects a k) (objects c k)"
    using assms(1,2) drained_trans unfolding sends_def by blast
  ultimately show ?thesis using assms(1,2) unfolding sends_def by simp
qed

lemma once_law:
  assumes "io_ok tr" "pis_send_ready nops (network_stream tr)"
  shows "\<exists>b tr' lg ps. Transport_target_recv_ready_once nops tops k tr = Inr (b, tr') \<and> sends tr [] lg ps tr'
     \<and> (if b then nroom (network_stream tr') < nroom (network_stream tr)
        else lg = [] \<and> ps = [] \<and> network_stream tr' = network_stream tr)"
proof (cases "ctarget (objects tr k)")
  case None
  with sends_refl [OF assms(1)] show ?thesis
    by (intro exI [of _ False] exI [of _ tr] exI [of _ "[]"]) (simp add: Transport_target_recv_ready_once_def)
next
  case (Some t)
  let ?c = "objects tr k" and ?n = "network_stream tr"
  have "target_ok ?c" using assms(1) by (simp add: io_ok_def)
  with Some have t: "tinv t" "\<forall>d \<in> set (tinbox t). length d + 16 \<le> nmtu" by (simp_all add: target_ok_def)
  from tgt.precv_law [OF t(1)] obtain r t' where
    r: "precv tops t = Inr (r, t')" "tinv t'" "tinbox t = (case r of None \<Rightarrow> [] | Some d \<Rightarrow> [d]) @ tinbox t'" by blast
  have em: "temitted t' = temitted t" by (rule tgt.recv_keeps_emitted [OF t(1) r(1)])
  have n: "ninv ?n" using assms(1) by (simp add: io_ok_def)
  show ?thesis
  proof (cases r)
    case None
    let ?tr = "put_object k (?c\<lparr>ctarget := Some t'\<rparr>) tr"
    have "Transport_target_recv_ready_once nops tops k tr = Inr (False, ?tr)"
      using Some r None by (simp add: Transport_target_recv_ready_once_def)
    moreover have "io_ok ?tr" using assms(1) t r None by (simp add: io_ok_def target_ok_def put_object_def)
    moreover have "(\<lambda>j. last_sent_packet (objects ?tr j)) = (\<lambda>j. last_sent_packet (objects tr j))"
      by (auto simp: put_object_def)
    ultimately show ?thesis using Some r None em
      by (intro exI [of _ False] exI [of _ ?tr] exI [of _ "[]"])
        (auto simp: sends_def stamped_nil inbox_of_def drained_def put_object_def option.rel_refl)
  next
    case (Some d)
    let ?p = "transport_packet (cid ?c) (last_sent_packet ?c) d"
    have "length ?p \<le> nmtu" using t(2) r(3) Some by simp
    from net.psend_law [OF n assms(2) this] obtain net' where
      net': "psend nops ?n ?p = Inr net'" "ninv net'" "nemitted net' = nemitted ?n @ nenc ?p" by blast
    have "?p \<noteq> []" by (metis transport_packet_parts(5) list.size(3) add_is_0 zero_neq_numeral)
    from net.room_law [OF n assms(2) this net'(1)] have room: "nroom net' < nroom ?n" .
    let ?tr = "put_object k (?c\<lparr>ctarget := Some t', last_sent_packet := last_sent_packet ?c + 1\<rparr>) (tr\<lparr>network_stream := net'\<rparr>)"
    have once: "Transport_target_recv_ready_once nops tops k tr = Inr (True, ?tr)"
      using \<open>ctarget ?c = Some t\<close> r Some net'(1) by (simp add: Transport_target_recv_ready_once_def Let_def)
    have io: "io_ok ?tr" using assms(1) t r Some net'(2) by (simp add: io_ok_def target_ok_def put_object_def)
    have "(\<lambda>j. last_sent_packet (objects ?tr j)) = (\<lambda>j. last_sent_packet (objects tr j))(k := last_sent_packet ?c + 1)"
      by (auto simp: put_object_def)
    with stamped_snoc [OF stamped_nil, of "\<lambda>j. cid (objects tr j)" "\<lambda>j. last_sent_packet (objects tr j)" k d]
    have st: "stamped (\<lambda>j. cid (objects tr j)) (\<lambda>j. last_sent_packet (objects tr j)) [(k, d)] [?p]
        (\<lambda>j. last_sent_packet (objects ?tr j))" by simp
    have "sends tr [] [(k, d)] [?p] ?tr"
      unfolding sends_def using io st net'(3) \<open>ctarget ?c = Some t\<close> r Some em
      by (auto simp: inbox_of_def drained_def put_object_def option.rel_refl)
    with once room show ?thesis
      by (intro exI [of _ True] exI [of _ ?tr] exI [of _ "[(k, d)]"] exI [of _ "[?p]"]) (simp add: put_object_def)
  qed
qed

text \<open>
  The three loops that send: each ends with the network unready or with nothing left to take, and what they
  put on the network is stamped.
\<close>

lemma io_ok_sends: "sends a sp lg ps b \<Longrightarrow> io_ok b"
  by (simp add: sends_def)

lemma target_recv_ready_law:
  assumes "io_ok tr" "nroom (network_stream tr) < fuel"
  shows "\<exists>tr' lg ps. Transport_target_recv_ready fuel nops tops k tr = Inr tr' \<and> sends tr [] lg ps tr'
     \<and> nroom (network_stream tr') \<le> nroom (network_stream tr)"
  using assms
proof (induction fuel arbitrary: tr)
  case (Suc fuel)
  show ?case
  proof (cases "pis_send_ready nops (network_stream tr)")
    case False
    with sends_refl [OF Suc.prems(1)] show ?thesis by auto
  next
    case True
    from once_law [OF Suc.prems(1) True] obtain b t1 lg ps where
      o: "Transport_target_recv_ready_once nops tops k tr = Inr (b, t1)" "sends tr [] lg ps t1"
      "if b then nroom (network_stream t1) < nroom (network_stream tr)
        else lg = [] \<and> ps = [] \<and> network_stream t1 = network_stream tr" by blast
    show ?thesis
    proof (cases b)
      case False
      with o True show ?thesis by auto
    next
      case b: True
      with o(3) Suc.prems(2) have "nroom (network_stream t1) < fuel" by simp
      from Suc.IH [OF io_ok_sends [OF o(2)] this] obtain tr' lg' ps' where
        r: "Transport_target_recv_ready fuel nops tops k t1 = Inr tr'" "sends t1 [] lg' ps' tr'"
        "nroom (network_stream tr') \<le> nroom (network_stream t1)" by blast
      from sends_trans [OF o(2) r(2)] have "sends tr [] (lg @ lg') (ps @ ps') tr'" by simp
      with o(1,3) b True r show ?thesis by auto
    qed
  qed
qed simp

lemma children_pass_law:
  assumes "io_ok tr"
  shows "\<exists>f a tr' lg ps. children_pass nops tops ks a0 tr = Inr (f, a, tr') \<and> sends tr [] lg ps tr'
     \<and> nroom (network_stream tr') \<le> nroom (network_stream tr)
     \<and> (a \<and> \<not> a0 \<longrightarrow> nroom (network_stream tr') < nroom (network_stream tr))
     \<and> (f \<or> \<not> pis_send_ready nops (network_stream tr'))"
  using assms
proof (induction ks arbitrary: a0 tr)
  case Nil
  with sends_refl [OF Nil] show ?case by auto
next
  case (Cons k ks)
  show ?case
  proof (cases "pis_send_ready nops (network_stream tr)")
    case False
    with sends_refl [OF Cons.prems] show ?thesis by auto
  next
    case True
    from once_law [OF Cons.prems True] obtain b t1 lg ps where
      o: "Transport_target_recv_ready_once nops tops k tr = Inr (b, t1)" "sends tr [] lg ps t1"
      "if b then nroom (network_stream t1) < nroom (network_stream tr)
        else lg = [] \<and> ps = [] \<and> network_stream t1 = network_stream tr" by blast
    from Cons.IH [OF io_ok_sends [OF o(2)], of "a0 \<or> b"] obtain f a tr' lg' ps' where
      r: "children_pass nops tops ks (a0 \<or> b) t1 = Inr (f, a, tr')" "sends t1 [] lg' ps' tr'"
      "nroom (network_stream tr') \<le> nroom (network_stream t1)"
      "a \<and> \<not> (a0 \<or> b) \<longrightarrow> nroom (network_stream tr') < nroom (network_stream t1)"
      "f \<or> \<not> pis_send_ready nops (network_stream tr')" by blast
    have s: "sends tr [] (lg @ lg') (ps @ ps') tr'" using sends_trans [OF o(2) r(2)] by simp
    have e: "children_pass nops tops (k # ks) a0 tr = Inr (f, a, tr')" using True o(1) r(1) by simp
    have le: "nroom (network_stream tr') \<le> nroom (network_stream tr)"
      "a \<and> \<not> a0 \<longrightarrow> nroom (network_stream tr') < nroom (network_stream tr)"
      using o(3) r(3,4) by (cases b; auto)+
    show ?thesis using e s le r(5) by blast
  qed
qed

lemma send_special_law:
  assumes "io_ok tr" "pis_send_ready nops (network_stream tr)" "special_packet_queue tr \<noteq> []"
  shows "\<exists>p tr'. Transport_send_special_packet nops tr = Inr tr' \<and> sends tr [p] [] [] tr'
     \<and> special_packet_queue tr = p # special_packet_queue tr'
     \<and> nroom (network_stream tr') < nroom (network_stream tr)"
proof -
  let ?n = "network_stream tr"
  from assms(3) obtain p sp where q: "special_packet_queue tr = p # sp" by (cases "special_packet_queue tr") auto
  let ?d = "transport_packet (fst p) (snd p) []"
  have n: "ninv ?n" using assms(1) by (simp add: io_ok_def)
  have l: "length ?d \<le> nmtu" using special_fits by simp
  have ne: "?d \<noteq> []" by (metis transport_packet_parts(5) list.size(3) add_is_0 zero_neq_numeral)
  from net.psend_law [OF n assms(2) l] obtain net' where
    s: "psend nops ?n ?d = Inr net'" "ninv net'" "nemitted net' = nemitted ?n @ nenc ?d" by blast
  let ?tr = "tr\<lparr>special_packet_queue := sp, network_stream := net'\<rparr>"
  have "Transport_send_special_packet nops tr = Inr ?tr" using assms(2) q s(1)
    by (simp add: Transport_send_special_packet_def)
  moreover have "sends tr [p] [] [] ?tr"
    using assms(1) s(2,3) q by (simp add: sends_def io_ok_def stamped_nil drained_refl)
  ultimately show ?thesis using q net.room_law [OF n assms(2) ne s(1)]
    by (intro exI [of _ p] exI [of _ ?tr]) simp
qed

lemma network_send_ready_law:
  assumes "io_ok tr" "nroom (network_stream tr) < fuel"
  shows "\<exists>tr' sp lg ps. Transport_network_send_ready fuel nops tops tr = Inr tr' \<and> sends tr sp lg ps tr'
     \<and> (special_packet_queue tr' = [] \<or> \<not> pis_send_ready nops (network_stream tr'))"
  using assms
proof (induction fuel arbitrary: tr)
  case (Suc fuel)
  show ?case
  proof (cases "pis_send_ready nops (network_stream tr)")
    case False
    with sends_refl [OF Suc.prems(1)] show ?thesis by auto
  next
    case True
    show ?thesis
    proof (cases "special_packet_queue tr = []")
      case False
      from send_special_law [OF Suc.prems(1) True False] obtain p t1 where
        p: "Transport_send_special_packet nops tr = Inr t1" "sends tr [p] [] [] t1"
        "nroom (network_stream t1) < nroom (network_stream tr)" by blast
      then have "nroom (network_stream t1) < fuel" using Suc.prems(2) by simp
      from Suc.IH [OF io_ok_sends [OF p(2)] this] obtain tr' sp lg ps where
        r: "Transport_network_send_ready fuel nops tops t1 = Inr tr'" "sends t1 sp lg ps tr'"
        "special_packet_queue tr' = [] \<or> \<not> pis_send_ready nops (network_stream tr')" by blast
      have e: "Transport_network_send_ready (Suc fuel) nops tops tr = Inr tr'" using True False p(1) r(1) by simp
      show ?thesis using e sends_trans [OF p(2) r(2)] r(3) by blast
    next
      case empty: True
      from children_pass_law [OF Suc.prems(1), of "map snd (children tr)" False] obtain f a t1 lg ps where
        c: "children_pass nops tops (map snd (children tr)) False tr = Inr (f, a, t1)" "sends tr [] lg ps t1"
        "a \<and> \<not> False \<longrightarrow> nroom (network_stream t1) < nroom (network_stream tr)" by blast
      have q: "special_packet_queue t1 = []" using c(2) empty by (simp add: sends_def)
      show ?thesis
      proof (cases "f \<and> a")
        case False
        then have "Transport_network_send_ready (Suc fuel) nops tops tr = Inr t1" using True empty c(1) by auto
        with c(2) q show ?thesis by blast
      next
        case fa: True
        then have "nroom (network_stream t1) < fuel" using c(3) Suc.prems(2) by simp
        from Suc.IH [OF io_ok_sends [OF c(2)] this] obtain tr' sp lg' ps' where
          r: "Transport_network_send_ready fuel nops tops t1 = Inr tr'" "sends t1 sp lg' ps' tr'"
          "special_packet_queue tr' = [] \<or> \<not> pis_send_ready nops (network_stream tr')" by blast
        have sp: "sp = []" using r(2) q by (simp add: sends_def)
        have e: "Transport_network_send_ready (Suc fuel) nops tops tr = Inr tr'" using True empty fa c(1) r(1) by simp
        show ?thesis using e sends_trans [OF c(2) r(2)] sp r(3) by auto
      qed
    qed
  qed
qed simp

end

section \<open>Properties\<close>

lemma transport_over_mux:
  assumes "packet_duplex tops tinv temitted tenc troom tgtmtu tinbox"
  shows "transport_io (Multilink_ops env) (\<lambda>m. env_ok env) mqueue (\<lambda>d. [d]) (\<lambda>m. QUEUE_SIZE - length (mqueue m))
    MULTILINK_MTU arrived tops tinv temitted tenc troom tgtmtu tinbox"
  using assms mux.packet_network_axioms
  by (auto simp: transport_io_def transport_io_axioms_def MULTILINK_MTU_def LINK_MTU_def HEADER_SIZE_def)

interpretation over_mux: transport_io "Multilink_ops env" "\<lambda>m. env_ok env" mqueue "\<lambda>d. [d]"
  "\<lambda>m. QUEUE_SIZE - length (mqueue m)" MULTILINK_MTU arrived
  "LengthPacketStream_ops (FD_ops sock_kernel 0 :: (nat, sock) reactor stream_ops)" sock.fd_stream.length_inv
  sock.fd_stream.writer_sent length_frame "\<lambda>p. if send_buffer_current p = [] then 1 else 0" "PACKET_MTU - 4"
  sock.fd_stream.length_inbox for env
  by (rule transport_over_mux [OF sock.fd_stream.length_stream.packet_duplex_axioms])

text \<open>A length-framed socket as a target, and a channel to which two packets arrive in the wrong order.\<close>

abbreviation example_target :: "(nat, sock) reactor length_packet_stream" where
  "example_target \<equiv> LengthPacketStream_create (sock_reactor \<lparr>rx = [], wx = [], tx = []\<rparr>)"

abbreviation example_tops :: "(nat, sock) reactor length_packet_stream packet_ops" where
  "example_tops \<equiv> LengthPacketStream_ops (FD_ops sock_kernel 0)"

lemma example_target_ok:
  "sock.fd_stream.length_inv example_target \<and> sock.fd_stream.length_inbox example_target = []"
  by (rule sock.fd_stream.length_invI)
    (simp_all add: LengthPacketStream_create_def sock_reactor_def sock.fd_inv_def length_wire_def)

lemma example_waiting:
  "channel_trace example_tops (\<lambda>t t'. False) [[7], [8]] (new_child 5) {0, 1}
     (new_child 5\<lparr>cbuffer := [Some [7], Some [8]]\<rparr>)"
proof -
  let ?c1 = "new_child 5\<lparr>cbuffer := [None, Some [8]]\<rparr> :: (nat, sock) reactor length_packet_stream child_stream"
  have "child_place example_tops (of_nat 1) ([[7], [8]] ! 1) (new_child 5) = Inr ?c1"
    by (simp add: child_place_def new_child_def MAX_BUFFER_PACKETS_def)
  from channel_trace_snoc [OF channel_trace_nil chan_arrive [OF _ this]]
  have t: "channel_trace example_tops (\<lambda>t t'. False) [[7], [8]] (new_child 5) {1} ?c1" by simp
  have "child_place example_tops (of_nat 0) ([[7], [8]] ! 0) ?c1 = Inr (new_child 5\<lparr>cbuffer := [Some [7], Some [8]]\<rparr>)"
    by (simp add: child_place_def new_child_def MAX_BUFFER_PACKETS_def child_send_ready_def)
  from channel_trace_snoc [OF t chan_arrive [OF _ this]] show ?thesis by (simp add: insert_commute)
qed

text \<open>C7: a channel delivers in order and without duplicates. Packets of a message sequence arrive in any order
  and any number of times, before and after the target connects, the target changes its readiness and may be closed:
  what the target has been sent is always the first \<open>last_forwarded_packet\<close> messages, each exactly once.\<close>

theorem Transport_channel_delivers_in_order:
  assumes "packet_sink tops tinv emitted enc room mtu"
    and "\<And>t t'. tinv t \<Longrightarrow> mv t t' \<Longrightarrow> tinv t' \<and> emitted t' = emitted t"
    and "length msgs < 2 ^ 62" "\<forall>d \<in> set msgs. length d \<le> mtu" "tinv t"
    and "channel_trace tops mv msgs (new_child chan) A c"
    and "channel_trace tops mv msgs (c\<lparr>ctarget := Some t\<rparr>) B c'" "ctarget c' = Some t'"
  shows "unat (last_forwarded_packet c') \<le> length msgs
     \<and> emitted t' = emitted t @ concat (map enc (take (unat (last_forwarded_packet c')) msgs))"
  using packet_sink.channel_life [OF assms(1,6,5,7,3,4,2)] assms(8)
  by (simp add: packet_sink.chan_ok_def [OF assms(1)] reorder_ok_def)

theorem Transport_channel_delivers_in_order_witness:
  "\<exists>c' t'. child_send_ready example_tops (new_child 5\<lparr>cbuffer := [Some [7], Some [8]], ctarget := Some example_target\<rparr>) = Inr c'
     \<and> ctarget c' = Some t' \<and> last_forwarded_packet c' = 1
     \<and> sock.fd_stream.writer_sent t' = sock.fd_stream.writer_sent example_target @ length_frame [7]"
proof -
  let ?c = "new_child 5\<lparr>cbuffer := [Some [7], Some [8]], ctarget := Some example_target\<rparr>"
  let ?t' = "schedule Run_write_ready (example_target\<lparr>send_buffer_current := length_frame [7]\<rparr>)"
  let ?c' = "?c\<lparr>cbuffer := [Some [8]], ctarget := Some ?t', last_forwarded_packet := 1\<rparr>"
  have r: "child_send_ready example_tops ?c = Inr ?c'"
    by (simp add: child_send_ready_def new_child_def LengthPacketStream_ops_def LengthPacketStream_send_def
        LengthPacketStream_create_def FreeWriterPacketStream_is_send_ready_def FreeWriterPacketStream_send_with_offset_def
        AbstractPacketStream_send_def schedule_def length_frame_def PACKET_MTU_def)
  from channel_trace_snoc [OF channel_trace_nil chan_ready [OF this]]
  have t: "channel_trace example_tops (\<lambda>t t'. False) [[7], [8]] ?c {} ?c'" by simp
  have "sock.fd_stream.writer_sent ?t' = sock.fd_stream.writer_sent example_target @ concat (map length_frame (take 1 [[7], [8]]))"
    using Transport_channel_delivers_in_order [OF sock.fd_stream.length_stream.packet_sink_axioms _ _ _ _ example_waiting,
        of example_target "{}" ?c' ?t'] t example_target_ok
    by (simp add: PACKET_MTU_def)
  with r show ?thesis by (intro exI [of _ ?c'] exI [of _ ?t']) simp
qed

text \<open>C8: a channel delivers everything. Once the first \<open>k\<close> messages have all arrived, in whatever order, the next
  \<open>target_send_ready\<close> of a connected target returns, and unless the target has become unready again all \<open>k\<close> have
  been forwarded.\<close>

theorem Transport_channel_delivers_everything:
  assumes "packet_sink tops tinv emitted enc room mtu"
    and "\<And>t t'. tinv t \<Longrightarrow> mv t t' \<Longrightarrow> tinv t' \<and> emitted t' = emitted t"
    and "length msgs < 2 ^ 62" "\<forall>d \<in> set msgs. length d \<le> mtu" "tinv t"
    and "channel_trace tops mv msgs (new_child chan) A c"
    and "channel_trace tops mv msgs (c\<lparr>ctarget := Some t\<rparr>) B c'" "ctarget c' = Some t'" "{0..<k} \<subseteq> A \<union> B"
  shows "\<exists>c'' t''. child_send_ready tops c' = Inr c'' \<and> ctarget c'' = Some t''
     \<and> (pis_send_ready tops t'' \<longrightarrow> k \<le> unat (last_forwarded_packet c''))"
proof -
  note ok = packet_sink.channel_life [OF assms(1,6,5,7,3,4,2)]
  from packet_sink.child_send_ready_law [OF assms(1) ok] assms(8) obtain c'' t'' where
    c: "child_send_ready tops c' = Inr c''" "packet_sink.chan_ok tinv emitted enc mtu (emitted t) msgs (A \<union> B) c''"
    "ctarget c'' = Some t''" "cbuffer c'' = [] \<or> hd (cbuffer c'') = None \<or> \<not> pis_send_ready tops t''" by force
  then have "reorder_ok msgs (A \<union> B) (unat (last_forwarded_packet c'')) (cbuffer c'')"
    by (simp add: packet_sink.chan_ok_def [OF assms(1)])
  from reorder_ok_complete [OF this] assms(9) c show ?thesis by blast
qed

theorem Transport_channel_delivers_everything_witness:
  "\<exists>c'' t''. child_send_ready example_tops (new_child 5\<lparr>cbuffer := [Some [7], Some [8]], ctarget := Some example_target\<rparr>)
       = Inr c'' \<and> ctarget c'' = Some t'' \<and> (pis_send_ready example_tops t'' \<longrightarrow> 2 \<le> unat (last_forwarded_packet c''))"
proof -
  have k: "{0..<2} \<subseteq> {0, 1} \<union> ({} :: nat set)" by auto
  show ?thesis
    using Transport_channel_delivers_everything [OF sock.fd_stream.length_stream.packet_sink_axioms _ _ _ _ example_waiting
        channel_trace_nil _ k, of example_target] example_target_ok by (simp add: PACKET_MTU_def)
qed

lemma sint_diff_behind:
  assumes "lf - w = (of_nat n :: u64)" "0 < n" "n \<le> 2 ^ 63"
  shows "sint (w - lf) < 0"
proof -
  have "w - lf = (of_int (- int n) :: u64)" using assms(1) by (simp add: algebra_simps)
  moreover have "signed_take_bit 63 (- int n) = - int n" by (rule signed_take_bit_int_eq_self) (use assms in simp_all)
  ultimately show ?thesis using assms(2) by (simp only: signed_of_int) simp
qed

lemma sint_diff_ahead:
  assumes "w - lf = (of_nat n :: u64)" "n < 2 ^ 63"
  shows "sint (w - lf) = int n"
proof -
  have "signed_take_bit 63 (int n) = int n" by (rule signed_take_bit_int_eq_self) (use assms in simp_all)
  moreover have "w - lf = (of_int (int n) :: u64)" using assms(1) by simp
  ultimately show ?thesis by (simp only: signed_of_int) simp
qed

text \<open>C39: the window test works on the wrapping 64-bit difference. A packet at most half the number space behind
  the next expected one is dropped, one within \<open>MAX_BUFFER_PACKETS\<close> ahead is stored or is a duplicate, and every
  packet further ahead, whatever the peer put in its header, fails an assertion and takes the process down.\<close>

theorem Transport_place_window:
  assumes "n < 2 ^ 63" "0 < n"
  shows "child_place tops (last_forwarded_packet c - of_nat n) data c = Inr c
     \<and> (child_place tops (last_forwarded_packet c + of_nat n) data c = Inl Assert_failed
          \<longleftrightarrow> 16384 \<le> n)"
proof -
  let ?lf = "last_forwarded_packet c"
  have "sint ((?lf - of_nat n) - ?lf) < 0" by (rule sint_diff_behind [of _ _ n]) (use assms in simp_all)
  then have behind: "child_place tops (?lf - of_nat n) data c = Inr c" by (simp add: child_place_def Let_def)
  have a: "sint ((?lf + of_nat n) - ?lf) = int n" by (rule sint_diff_ahead) (use assms in simp_all)
  show ?thesis
  proof (cases "16384 \<le> n")
    case True
    then have "MAX_BUFFER_PACKETS \<le> sint ((?lf + of_nat n) - ?lf)" unfolding a by (simp add: MAX_BUFFER_PACKETS_def)
    then have "child_place tops (?lf + of_nat n) data c = Inl Assert_failed"
      unfolding child_place_def Let_def by (simp add: MAX_BUFFER_PACKETS_def)
    with True behind show ?thesis by simp
  next
    case False
    then have "int n < MAX_BUFFER_PACKETS" by (simp add: MAX_BUFFER_PACKETS_def)
    from child_place_in_window [OF a this refl] assms(2) have "child_place tops (?lf + of_nat n) data c \<noteq> Inl Assert_failed"
      by simp
    with False behind show ?thesis by blast
  qed
qed

theorem Transport_place_window_witness:
  "child_place example_tops 16384 [1] (new_child 5) = Inl Assert_failed"
  using Transport_place_window [of 16384 example_tops "new_child 5" "[1]"] by (simp add: new_child_def)

text \<open>C16: the header is read back as it was written. A packet that the sender stamped with a channel and a number is
  placed by the receiver in that channel at that number with the same data; a close packet closes the channel it names;
  and a packet shorter than the header fails an assertion.\<close>

theorem Transport_network_packet_dispatch:
  assumes "map_of (children tr) chan = Some k"
  shows "(chan \<noteq> CLOSE_CHANNEL \<longrightarrow> Transport_network_packet fuel nops tops creator (transport_packet chan seq d) tr
            = bindR (child_place tops seq d (objects tr k)) (\<lambda>c. Inr (put_object k c tr)))
     \<and> Transport_network_packet fuel nops tops creator (transport_packet CLOSE_CHANNEL chan []) tr = Inr (drop_target tops k tr)
     \<and> (length p < TRANSPORT_HEADER_SIZE \<longrightarrow> Transport_network_packet fuel nops tops creator p tr = Inl Assert_failed)"
  using assms
  by (auto simp: Transport_network_packet_def Transport_place_packet_def Transport_close_channel_def
      Transport_get_child_stream_def read_at_def [of _ _ p] assertR_def TRANSPORT_HEADER_SIZE_def)

definition example_transport :: "((unit, bytes list) multilink, (nat, sock) reactor length_packet_stream) transport" where
  "example_transport = (Transport_create (Multilink_init []) 1000)\<lparr>objects := (\<lambda>_. new_child 0)(0 := new_child 5\<lparr>ctarget := Some example_target\<rparr>),
     next_object := 1, children := [(5, 0)]\<rparr>"

theorem Transport_network_packet_dispatch_witness:
  "Transport_network_packet 0 (Multilink_ops example_env) example_tops (\<lambda>_. Pending) (transport_packet 5 2 [9]) example_transport
     = bindR (child_place example_tops 2 [9] (objects example_transport 0)) (\<lambda>c. Inr (put_object 0 c example_transport))"
  using Transport_network_packet_dispatch [of example_transport 5 0 0 "Multilink_ops example_env" example_tops "\<lambda>_. Pending" 2 "[9]" "[]"]
  by (simp add: example_transport_def CLOSE_CHANNEL_def LAST_CHANNEL_def)


text \<open>C15: the sending side numbers consecutively. Over a multilink, \<open>network_send_ready\<close> returns; it sends the pending
  special packets first, in order, then packets of the targets; the packets of each channel are the data taken from its
  target, in order, numbered from the channel's counter without a gap; everything taken is sent; and it stops
  with special packets pending only if the network is no longer ready.\<close>

theorem Transport_network_send_ready_numbers:
  fixes tr :: "(('a, 'b) multilink, 't) transport"
  assumes "env_ok env" "packet_duplex tops tinv temitted tenc troom tgtmtu tinbox" "QUEUE_SIZE < fuel"
    and "\<And>k t. ctarget (objects tr k) = Some t \<Longrightarrow> tinv t \<and> (\<forall>d \<in> set (tinbox t). length d + 16 \<le> MULTILINK_MTU)"
    and "\<And>j k. ctarget (objects tr j) \<noteq> None \<Longrightarrow> k < next_object tr \<Longrightarrow> cid (objects tr j) = cid (objects tr k) \<Longrightarrow> j = k"
  shows "\<exists>tr' sp ps taken. Transport_network_send_ready fuel (Multilink_ops env) tops tr = Inr tr'
     \<and> mqueue (network_stream tr') = mqueue (network_stream tr) @ map (\<lambda>p. transport_packet (fst p) (snd p) []) sp @ ps
     \<and> special_packet_queue tr = sp @ special_packet_queue tr'
     \<and> (\<forall>k < next_object tr. filter (\<lambda>p. packet_channel p = cid (objects tr k)) ps = numbered (cid (objects tr k)) (last_sent_packet (objects tr k)) (taken k)
          \<and> last_sent_packet (objects tr' k) = last_sent_packet (objects tr k) + of_nat (length (taken k))
          \<and> (case ctarget (objects tr k) of None \<Rightarrow> taken k = []
             | Some t \<Rightarrow> (\<exists>t'. ctarget (objects tr' k) = Some t' \<and> tinbox t = taken k @ tinbox t' \<and> temitted t' = temitted t)))
     \<and> (special_packet_queue tr' = [] \<or> \<not> Multilink_is_send_ready (network_stream tr'))"
proof -
  note io = transport_over_mux [OF assms(2), of env]
  note inbox_of_def = transport_io.inbox_of_def [OF io]
  have ok: "transport_io.io_ok (\<lambda>m :: ('a, 'b) multilink. env_ok env) MULTILINK_MTU tinv tinbox tr"
    unfolding transport_io.io_ok_def [OF io] transport_io.target_ok_def [OF io]
    using assms(1,4) by (auto split: option.splits)
  have "QUEUE_SIZE - length (mqueue (network_stream tr)) < fuel" using assms(3) by simp
  from transport_io.network_send_ready_law [OF io ok this] obtain tr' sp lg ps where
    r: "Transport_network_send_ready fuel (Multilink_ops env) tops tr = Inr tr'"
      "transport_io.sends (\<lambda>m :: ('a, 'b) multilink. env_ok env) mqueue (\<lambda>d. [d]) MULTILINK_MTU tinv temitted tinbox tr sp lg ps tr'"
      "special_packet_queue tr' = [] \<or> \<not> pis_send_ready (Multilink_ops env) (network_stream tr')" by blast
  from r(2) have s: "mqueue (network_stream tr') = mqueue (network_stream tr) @ map (\<lambda>p. transport_packet (fst p) (snd p) []) sp @ ps"
      "special_packet_queue tr = sp @ special_packet_queue tr'"
    and st: "stamped (\<lambda>k. cid (objects tr k)) (\<lambda>k. last_sent_packet (objects tr k)) lg ps (\<lambda>k. last_sent_packet (objects tr' k))"
    and ib: "\<And>k. transport_io.inbox_of tinbox (objects tr k) = chan_log k lg @ transport_io.inbox_of tinbox (objects tr' k)"
    and dr: "\<And>k. transport_io.drained temitted (objects tr k) (objects tr' k)"
    by (simp_all add: transport_io.sends_def [OF io] o_def)
  have live: "ctarget (objects tr j) \<noteq> None" if j: "j \<in> fst ` set lg" for j
  proof
    assume "ctarget (objects tr j) = None"
    with ib [of j] have "chan_log j lg = []" by (simp add: inbox_of_def)
    with j show False by (auto simp: chan_log_def filter_empty_conv)
  qed
  have num: "filter (\<lambda>p. packet_channel p = cid (objects tr k)) ps
      = numbered (cid (objects tr k)) (last_sent_packet (objects tr k)) (chan_log k lg)" if "k < next_object tr" for k
    by (rule stamped_numbered [OF st]) (use live assms(5) that in blast)
  have tk: "case ctarget (objects tr k) of None \<Rightarrow> chan_log k lg = []
      | Some t \<Rightarrow> (\<exists>t'. ctarget (objects tr' k) = Some t' \<and> tinbox t = chan_log k lg @ tinbox t' \<and> temitted t' = temitted t)" for k
    using ib [of k] dr [of k]
    by (auto simp: inbox_of_def transport_io.drained_def [OF io] option_rel_Some1 split: option.splits)
  show ?thesis
    using r(1,3) s num tk stamped_counter [OF st]
    by (intro exI [of _ tr'] exI [of _ sp] exI [of _ ps] exI [of _ "\<lambda>k. chan_log k lg"]) (simp add: Multilink_ops_def)
qed

theorem Transport_network_send_ready_numbers_witness:
  "\<exists>tr' sp ps. Transport_network_send_ready 41 (Multilink_ops example_env) example_tops
        (example_transport\<lparr>special_packet_queue := [(CLOSE_CHANNEL, 3)]\<rparr>) = Inr tr'
     \<and> mqueue (network_stream tr') = map (\<lambda>p. transport_packet (fst p) (snd p) []) sp @ ps
     \<and> [(CLOSE_CHANNEL, 3)] = sp @ special_packet_queue tr'"
proof -
  let ?tr = "example_transport\<lparr>special_packet_queue := [(CLOSE_CHANNEL, 3)]\<rparr>"
  have ok: "sock.fd_stream.length_inv t \<and> (\<forall>d \<in> set (sock.fd_stream.length_inbox t). length d + 16 \<le> MULTILINK_MTU)"
    if "ctarget (objects ?tr k) = Some t" for k t
    using that example_target_ok by (auto simp: example_transport_def new_child_def split: if_splits)
  have un: "ctarget (objects ?tr j) \<noteq> None \<Longrightarrow> k < next_object ?tr \<Longrightarrow> cid (objects ?tr j) = cid (objects ?tr k) \<Longrightarrow> j = k" for j k
    by (auto simp: example_transport_def new_child_def split: if_splits)
  have q: "QUEUE_SIZE < 41" by (simp add: QUEUE_SIZE_def)
  from Transport_network_send_ready_numbers [OF example_env_ok sock.fd_stream.length_stream.packet_duplex_axioms q, of ?tr] ok un
  obtain tr' sp ps where r: "Transport_network_send_ready 41 (Multilink_ops example_env) example_tops ?tr = Inr tr'"
    "mqueue (network_stream tr') = mqueue (network_stream ?tr) @ map (\<lambda>p. transport_packet (fst p) (snd p) []) sp @ ps"
    "special_packet_queue ?tr = sp @ special_packet_queue tr'"
    by blast
  have e: "mqueue (network_stream ?tr) = []" by (simp add: example_transport_def Transport_create_def Multilink_init_def)
  with r show ?thesis by auto
qed

text \<open>Closing is not ordered with the data. When the close packet of a channel is processed, the packets that are
  still waiting in its reorder buffer are kept but can never be forwarded: whatever arrives on the channel afterwards,
  no target gets it.\<close>

theorem Transport_close_loses_buffered:
  assumes "map_of (children tr) chan = Some k" "ctarget (objects tr k) = Some t"
    and "Transport_network_packet fuel nops tops creator (transport_packet CLOSE_CHANNEL chan []) tr = Inr tr'"
    and "channel_trace tops mv msgs (objects tr' k) A c"
  shows "cbuffer (objects tr' k) = cbuffer (objects tr k) \<and> closed_targets tr' = closed_targets tr @ [pclose tops t]
     \<and> ctarget c = None \<and> last_forwarded_packet c = last_forwarded_packet (objects tr k)"
proof -
  have "tr' = drop_target tops k tr"
    using assms(1,3) by (simp add: Transport_network_packet_def Transport_close_channel_def Transport_get_child_stream_def)
  then have t: "ctarget (objects tr' k) = None" "cbuffer (objects tr' k) = cbuffer (objects tr k)"
    "last_forwarded_packet (objects tr' k) = last_forwarded_packet (objects tr k)"
    "closed_targets tr' = closed_targets tr @ [pclose tops t]"
    using assms(2) by (simp_all add: drop_target_def put_object_def)
  with channel_trace_unconnected [OF assms(4) t(1)] show ?thesis by simp
qed

theorem Transport_close_loses_buffered_witness:
  "\<exists>tr'. Transport_network_packet 0 (Multilink_ops example_env) example_tops (\<lambda>_. Pending) (transport_packet CLOSE_CHANNEL 5 [])
        (put_object 0 (new_child 5\<lparr>ctarget := Some example_target, cbuffer := [None, Some [8]]\<rparr>) example_transport) = Inr tr'
     \<and> cbuffer (objects tr' 0) = [None, Some [8]] \<and> ctarget (objects tr' 0) = None"
proof -
  let ?tr = "put_object 0 (new_child 5\<lparr>ctarget := Some example_target, cbuffer := [None, Some [8]]\<rparr>) example_transport"
  have m: "map_of (children ?tr) 5 = Some 0" "ctarget (objects ?tr 0) = Some example_target"
    "cbuffer (objects ?tr 0) = [None, Some [8]]"
    by (simp_all add: put_object_def example_transport_def)
  have r: "Transport_network_packet 0 (Multilink_ops example_env) example_tops (\<lambda>_. Pending) (transport_packet CLOSE_CHANNEL 5 []) ?tr
      = Inr (drop_target example_tops 0 ?tr)"
    using m(1) by (simp add: Transport_network_packet_def Transport_close_channel_def Transport_get_child_stream_def)
  from Transport_close_loses_buffered [OF m(1,2) r channel_trace_nil] r m(3) show ?thesis by auto
qed

end
