(* ===== verification/Tunnel.thy ===== *)
theory Tunnel
  imports Transport
begin

text \<open>
  Two ends of a tunnel: transports over multilinks.

  A node runs every handler of \<^verbatim>\<open>multilink/transport.cpp\<close> in any order, while its multilink works on its own. The packets its
  targets will supply are a parameter, one sequence per channel. The invariant of a node speaks about both directions: what a
  node puts on the network are packets of its targets under their position, and what it has given to a target is an initial part of
  the sequence its peer sends on that channel.
\<close>

section \<open>Packets on the network\<close>

definition wire_packet :: "(u64 \<Rightarrow> bytes list) \<Rightarrow> bytes \<Rightarrow> bool" where
  "wire_packet src p \<longleftrightarrow> (\<exists>chan. chan \<noteq> CLOSE_CHANNEL
     \<and> (p = transport_packet CLOSE_CHANNEL chan []
        \<or> (\<exists>s < length (src chan). p = transport_packet chan (of_nat s) (src chan ! s))))"

lemma mux_send:
  assumes "psend (Multilink_ops env) m d = Inr m'"
  shows "mqueue m' = mqueue m @ [d]" "arrived m' = arrived m"
  using assms
  by (auto simp: Multilink_ops_def AbstractPacketStream_send_def send_with_offset_cases arrived_def split: if_splits)

lemma mux_recv:
  assumes "precv (Multilink_ops env) m = Inr (r, m')" "env_ok env"
  shows "mqueue m' = mqueue m" "arrived m = (case r of None \<Rightarrow> {#} | Some d \<Rightarrow> {#d#}) + arrived m'"
proof -
  show "mqueue m' = mqueue m" by (rule mux.bag_keeps_emitted [OF assms(2,1)])
  show "arrived m = (case r of None \<Rightarrow> {#} | Some d \<Rightarrow> {#d#}) + arrived m'"
    using mux.precv_bag [OF assms(2), of m] assms(1) by auto
qed

lemma in_set_update: "e \<in> set (AList.update k v al) \<Longrightarrow> e = (k, v) \<or> e \<in> set al"
  by (induction al) (auto split: if_splits)

section \<open>The invariant of a node\<close>

text \<open>A target both sides of which are independent: sending to it does not touch what it will supply.\<close>

locale packet_pair =
  packet_duplex pops pinv emitted enc room mtu inbox
  for pops :: "'p packet_ops" and pinv :: "'p \<Rightarrow> bool" and emitted :: "'p \<Rightarrow> 'o list"
    and enc :: "bytes \<Rightarrow> 'o list" and room :: "'p \<Rightarrow> nat" and mtu :: nat and inbox :: "'p \<Rightarrow> bytes list" +
  assumes send_keeps_inbox: "psend pops p d = Inr p' \<Longrightarrow> inbox p' = inbox p"

sublocale byte_stream \<subseteq> length_pair: packet_pair "LengthPacketStream_ops sops" length_inv
  writer_sent length_frame "\<lambda>p. if send_buffer_current p = [] then 1 else 0" "PACKET_MTU - 4" length_inbox
  by unfold_locales
    (auto simp: LengthPacketStream_ops_def LengthPacketStream_send_def writer_defs result_simps length_inbox_def)

context packet_pair
begin

definition obj_ok :: "(u64 \<Rightarrow> bytes list) \<Rightarrow> (u64 \<Rightarrow> bytes list) \<Rightarrow> 'p child_stream \<Rightarrow> bool" where
  "obj_ok src msgs c \<longleftrightarrow> cid c \<noteq> CLOSE_CHANNEL \<and> chan_ok [] (msgs (cid c)) {} c
     \<and> (\<exists>n \<le> length (src (cid c)). last_sent_packet c = of_nat n
          \<and> (\<forall>t. ctarget c = Some t \<longrightarrow> inbox t = drop n (src (cid c))))"

definition node_inv :: "(u64 \<Rightarrow> bytes list) \<Rightarrow> (u64 \<Rightarrow> bytes list) \<Rightarrow> ('n, 'p) transport \<Rightarrow> bool" where
  "node_inv src msgs tr \<longleftrightarrow> (\<forall>k < next_object tr. obj_ok src msgs (objects tr k))
     \<and> (\<forall>e \<in> set (children tr). snd e < next_object tr \<and> cid (objects tr (snd e)) = fst e)
     \<and> (\<forall>e \<in> set (special_packet_queue tr). fst e = CLOSE_CHANNEL \<and> snd e \<noteq> CLOSE_CHANNEL)"

lemma node_inv_network: "node_inv src msgs (a\<lparr>network_stream := n\<rparr>) \<longleftrightarrow> node_inv src msgs a"
  by (simp add: node_inv_def)

lemma node_inv_create: "node_inv src msgs (Transport_create m n)"
  by (simp add: node_inv_def Transport_create_def)

text \<open>Replacing one object by a good one with the same channel.\<close>

lemma node_inv_put:
  assumes "node_inv src msgs a" "obj_ok src msgs c" "cid c = cid (objects a k)"
  shows "node_inv src msgs (put_object k c a)"
  using assms by (auto simp: node_inv_def put_object_def)

lemma obj_ok_target:
  assumes "obj_ok src msgs c" "ctarget c = Some t" "pinv t'" "emitted t' = emitted t" "inbox t' = inbox t"
  shows "obj_ok src msgs (c\<lparr>ctarget := Some t'\<rparr>)"
  using assms chan_ok_target [of "[]" _ "{}" c t t'] by (auto simp: obj_ok_def)

lemma obj_ok_no_target: "obj_ok src msgs c \<Longrightarrow> obj_ok src msgs (c\<lparr>ctarget := None\<rparr>)"
  using chan_ok_no_target [of "[]" _ "{}" c] by (auto simp: obj_ok_def)

lemma obj_ok_chan:
  assumes "obj_ok src msgs c" "chan_ok [] (msgs (cid c)) {} c'" "cid c' = cid c" "last_sent_packet c' = last_sent_packet c"
    and "\<And>t'. ctarget c' = Some t' \<Longrightarrow> \<exists>t. ctarget c = Some t \<and> inbox t' = inbox t"
  shows "obj_ok src msgs c'"
proof -
  from assms(1) obtain n where n: "cid c \<noteq> CLOSE_CHANNEL" "n \<le> length (src (cid c))" "last_sent_packet c = of_nat n"
    "\<forall>t. ctarget c = Some t \<longrightarrow> inbox t = drop n (src (cid c))" by (auto simp: obj_ok_def)
  moreover from n(4) assms(5) have "\<forall>t. ctarget c' = Some t \<longrightarrow> inbox t = drop n (src (cid c))" by fastforce
  ultimately show ?thesis using assms(2-4) by (auto simp: obj_ok_def)
qed

lemma forward_keeps_inbox:
  "forward_loop pops t lf bs = Inr (t', lf', bs') \<Longrightarrow> map_option inbox t' = map_option inbox t"
proof (induction bs arbitrary: t lf)
  case (Cons b bs)
  then show ?case using send_keeps_inbox by (cases b; cases t) (fastforce simp: result_simps split: if_splits)+
qed simp

lemma child_send_ready_ok:
  assumes "obj_ok src msgs c" "child_send_ready pops c = Inr c'"
  shows "obj_ok src msgs c' \<and> cid c' = cid c"
proof -
  from assms(1) have "chan_ok [] (msgs (cid c)) {} c" by (simp add: obj_ok_def)
  from child_send_ready_law [OF this] assms(2) have l: "chan_ok [] (msgs (cid c)) {} c'" "cid c' = cid c"
    "last_sent_packet c' = last_sent_packet c" by auto
  from assms(2) have "map_option inbox (ctarget c') = map_option inbox (ctarget c)"
    by (auto simp: child_send_ready_def result_simps dest: forward_keeps_inbox)
  then have "\<exists>t. ctarget c = Some t \<and> inbox t' = inbox t" if "ctarget c' = Some t'" for t'
    using that by (cases "ctarget c") auto
  from obj_ok_chan [OF assms(1) l this] l(2) show ?thesis by simp
qed

lemma child_place_ok:
  assumes "obj_ok src msgs c" "s < length (msgs (cid c))" "child_place pops (of_nat s) (msgs (cid c) ! s) c = Inr c'"
  shows "obj_ok src msgs c' \<and> cid c' = cid c"
proof -
  from assms(1) have ok: "chan_ok [] (msgs (cid c)) {} c" by (simp add: obj_ok_def)
  from child_place_law [OF ok assms(2)] assms(3) have l: "chan_ok [] (msgs (cid c)) {} c'" "cid c' = cid c"
    "last_sent_packet c' = last_sent_packet c"
    by (auto simp del: of_nat_unat split: if_splits intro: chan_ok_mono)
  have k: "map_option inbox (ctarget d') = map_option inbox (ctarget d)" if "child_send_ready pops d = Inr d'" for d d'
    using that by (auto simp: child_send_ready_def result_simps dest: forward_keeps_inbox)
  have "map_option inbox (ctarget c') = map_option inbox (ctarget c)"
    using assms(3) by (auto simp: child_place_def Let_def split: if_splits dest: k)
  then have "\<exists>t. ctarget c = Some t \<and> inbox t' = inbox t" if "ctarget c' = Some t'" for t'
    using that by (cases "ctarget c") auto
  from obj_ok_chan [OF assms(1) l this] l(2) show ?thesis by simp
qed

lemma obj_ok_take:
  assumes "obj_ok src msgs c" "ctarget c = Some t" "precv pops t = Inr (Some d, t')"
  shows "obj_ok src msgs (c\<lparr>ctarget := Some t', last_sent_packet := last_sent_packet c + 1\<rparr>)"
    "wire_packet src (transport_packet (cid c) (last_sent_packet c) d)"
proof -
  from assms(1) obtain n where n: "cid c \<noteq> CLOSE_CHANNEL" "chan_ok [] (msgs (cid c)) {} c" "n \<le> length (src (cid c))"
    "last_sent_packet c = of_nat n" "inbox t = drop n (src (cid c))" using assms(2) by (auto simp: obj_ok_def)
  have t: "pinv t" using n(2) assms(2) by (simp add: chan_ok_def)
  with precv_law [OF t] assms(3) have t': "pinv t'" "inbox t = d # inbox t'" by auto
  have em: "emitted t' = emitted t" by (rule recv_keeps_emitted [OF t assms(3)])
  have lt: "n < length (src (cid c))" using n(5) t'(2) by (metis drop_all leI list.distinct(1))
  then have d: "src (cid c) ! n = d" "inbox t' = drop (Suc n) (src (cid c))"
    using n(5) t'(2) by (simp_all add: Cons_nth_drop_Suc [symmetric])
  have "chan_ok [] (msgs (cid c)) {} (c\<lparr>ctarget := Some t', last_sent_packet := last_sent_packet c + 1\<rparr>)"
    using n(2) assms(2) t'(1) em by (simp add: chan_ok_def)
  with n lt d(2) show "obj_ok src msgs (c\<lparr>ctarget := Some t', last_sent_packet := last_sent_packet c + 1\<rparr>)"
    by (auto simp: obj_ok_def intro!: exI [of _ "Suc n"])
  show "wire_packet src (transport_packet (cid c) (last_sent_packet c) d)"
    unfolding wire_packet_def using n(1,4) lt d(1) by auto
qed

text \<open>A target that has just been made for a channel.\<close>

definition fresh_target :: "(u64 \<Rightarrow> bytes list) \<Rightarrow> u64 \<Rightarrow> 'p \<Rightarrow> bool" where
  "fresh_target src chan t \<longleftrightarrow> pinv t \<and> emitted t = [] \<and> inbox t = src chan"

definition good_future :: "(u64 \<Rightarrow> bytes list) \<Rightarrow> u64 \<Rightarrow> 'p target_future \<Rightarrow> bool" where
  "good_future src chan f \<longleftrightarrow> (\<forall>t. f = Completed t \<longrightarrow> fresh_target src chan t)"

definition peer_ok :: "(u64 \<Rightarrow> bytes list) \<Rightarrow> bool" where
  "peer_ok msgs \<longleftrightarrow> (\<forall>chan. length (msgs chan) < 2 ^ 62 \<and> (\<forall>d \<in> set (msgs chan). length d \<le> mtu))"

lemma obj_ok_connect:
  assumes "obj_ok src msgs c" "fresh_target src (cid c) t" "last_forwarded_packet c = 0" "last_sent_packet c = 0"
  shows "obj_ok src msgs (c\<lparr>ctarget := Some t\<rparr>)"
  using assms by (auto simp: obj_ok_def chan_ok_def fresh_target_def intro!: exI [of _ 0])

lemma obj_ok_new:
  assumes "peer_ok msgs" "chan \<noteq> CLOSE_CHANNEL"
  shows "obj_ok src msgs (new_child chan)"
proof -
  have "chan_ok [] (msgs chan) {} (new_child chan)" using assms(1) by (intro chan_ok_new) (auto simp: peer_ok_def)
  with assms(2) show ?thesis by (auto simp: obj_ok_def new_child_def intro!: exI [of _ 0])
qed

end

section \<open>Handlers that send\<close>

text \<open>
  The network is known to a node only through an invariant \<open>NI\<close> that sending a packet of the node keeps. \<open>goes a b\<close>: from \<open>a\<close> to \<open>b\<close> the
  invariants of the node and of its network are kept.
\<close>

locale packet_sender =
  packet_pair pops pinv emitted enc room mtu inbox
  for pops :: "'p packet_ops" and pinv :: "'p \<Rightarrow> bool" and emitted :: "'p \<Rightarrow> 'o list"
    and enc :: "bytes \<Rightarrow> 'o list" and room :: "'p \<Rightarrow> nat" and mtu :: nat and inbox :: "'p \<Rightarrow> bytes list" +
  fixes nops :: "'n packet_ops" and NI :: "'n \<Rightarrow> bool" and src :: "u64 \<Rightarrow> bytes list" and msgs :: "u64 \<Rightarrow> bytes list"
  assumes net_send: "NI n \<Longrightarrow> wire_packet src p \<Longrightarrow> psend nops n p = Inr n' \<Longrightarrow> NI n'"
begin

definition good :: "('n, 'p) transport \<Rightarrow> bool" where
  "good a \<longleftrightarrow> node_inv src msgs a \<and> NI (network_stream a)"

definition goes :: "('n, 'p) transport \<Rightarrow> ('n, 'p) transport \<Rightarrow> bool" where
  "goes a b \<longleftrightarrow> good b \<and> next_object a \<le> next_object b"

lemma goes_refl: "good a \<Longrightarrow> goes a a"
  by (simp add: goes_def)

lemma goes_trans: "goes a b \<Longrightarrow> goes b c \<Longrightarrow> goes a c"
  by (auto simp: goes_def)

lemma goes_good: "goes a b \<Longrightarrow> good b \<and> next_object a \<le> next_object b"
  by (simp add: goes_def)

lemma good_obj: "good a \<Longrightarrow> k < next_object a \<Longrightarrow> obj_ok src msgs (objects a k)"
  by (simp add: good_def node_inv_def)

lemma goes_put: "good a \<Longrightarrow> obj_ok src msgs c \<Longrightarrow> cid c = cid (objects a k) \<Longrightarrow> goes a (put_object k c a)"
  by (simp add: goes_def good_def node_inv_put) (simp add: put_object_def)

lemma goes_send: "good a \<Longrightarrow> psend nops (network_stream a) p = Inr n \<Longrightarrow> wire_packet src p \<Longrightarrow> goes a (a\<lparr>network_stream := n\<rparr>)"
  using net_send [of "network_stream a" p n] by (simp add: goes_def good_def node_inv_network)

lemma once_goes:
  assumes "good a" "k < next_object a" "Transport_target_recv_ready_once nops pops k a = Inr (b, a')"
  shows "goes a a'"
proof (cases "ctarget (objects a k)")
  case None
  with assms goes_refl show ?thesis by (auto simp: Transport_target_recv_ready_once_def)
next
  case (Some t)
  let ?c = "objects a k"
  note ok = good_obj [OF assms(1,2)]
  then have t: "pinv t" using Some by (simp add: obj_ok_def chan_ok_def)
  from precv_law [OF t] obtain r t' where r: "precv pops t = Inr (r, t')" "pinv t'"
    "inbox t = (case r of None \<Rightarrow> [] | Some d \<Rightarrow> [d]) @ inbox t'" by blast
  show ?thesis
  proof (cases r)
    case None
    with assms(3) Some r have "a' = put_object k (?c\<lparr>ctarget := Some t'\<rparr>) a"
      by (simp add: Transport_target_recv_ready_once_def)
    moreover have "obj_ok src msgs (?c\<lparr>ctarget := Some t'\<rparr>)"
      using obj_ok_target [OF ok Some r(2) recv_keeps_emitted [OF t r(1)]] r(3) None by simp
    ultimately show ?thesis using goes_put [OF assms(1)] by simp
  next
    case (Some d)
    with assms(3) \<open>ctarget ?c = Some t\<close> r(1) obtain m where
      m: "psend nops (network_stream a) (transport_packet (cid ?c) (last_sent_packet ?c) d) = Inr m"
      "a' = put_object k (?c\<lparr>ctarget := Some t', last_sent_packet := last_sent_packet ?c + 1\<rparr>) (a\<lparr>network_stream := m\<rparr>)"
      by (auto simp: Transport_target_recv_ready_once_def Let_def result_simps)
    note take = obj_ok_take [OF ok \<open>ctarget ?c = Some t\<close> r(1) [unfolded Some]]
    note send = goes_send [OF assms(1) m(1) take(2)]
    from goes_put [OF conjunct1 [OF goes_good [OF send]] take(1), of k] have "goes (a\<lparr>network_stream := m\<rparr>) a'" by (simp add: m(2))
    with goes_trans [OF send] show ?thesis by blast
  qed
qed

lemma target_recv_ready_goes:
  assumes "good a" "k < next_object a" "Transport_target_recv_ready fuel nops pops k a = Inr b"
  shows "goes a b"
  using assms
proof (induction fuel arbitrary: a)
  case (Suc fuel)
  show ?case
  proof (cases "pis_send_ready nops (network_stream a)")
    case False
    with Suc.prems goes_refl show ?thesis by auto
  next
    case True
    with Suc.prems(3) obtain f a' where
      o: "Transport_target_recv_ready_once nops pops k a = Inr (f, a')"
      "if f then Transport_target_recv_ready fuel nops pops k a' = Inr b else b = a'"
      by (auto simp: result_simps split: if_splits)
    from once_goes [OF Suc.prems(1,2) o(1)] have g: "goes a a'" .
    from goes_good [OF g] Suc.prems(2) have "good a'" "k < next_object a'" by auto
    with Suc.IH [of a'] o(2) g show ?thesis by (cases f) (auto dest: goes_trans)
  qed
qed simp

lemma children_pass_goes:
  assumes "good a" "\<forall>k \<in> set ks. k < next_object a" "children_pass nops pops ks x a = Inr (f, y, b)"
  shows "goes a b"
  using assms
proof (induction ks arbitrary: a x)
  case Nil
  with goes_refl show ?case by auto
next
  case (Cons k ks)
  show ?case
  proof (cases "pis_send_ready nops (network_stream a)")
    case False
    with Cons.prems goes_refl show ?thesis by auto
  next
    case True
    with Cons.prems(3) obtain g a' where
      o: "Transport_target_recv_ready_once nops pops k a = Inr (g, a')" "children_pass nops pops ks (x \<or> g) a' = Inr (f, y, b)"
      by (auto simp: result_simps)
    from once_goes [OF Cons.prems(1) _ o(1)] Cons.prems(2) have g: "goes a a'" by auto
    from goes_good [OF g] Cons.prems(2) have "good a'" "\<forall>k \<in> set ks. k < next_object a'" by auto
    from Cons.IH [OF this o(2)] g show ?thesis by (auto dest: goes_trans)
  qed
qed

lemma send_special_goes:
  assumes "good a" "Transport_send_special_packet nops a = Inr b"
  shows "goes a b"
proof (cases "\<not> pis_send_ready nops (network_stream a) \<or> special_packet_queue a = []")
  case True
  with assms goes_refl show ?thesis by (auto simp: Transport_send_special_packet_def split: if_splits)
next
  case False
  then obtain p q where q: "special_packet_queue a = p # q" by (cases "special_packet_queue a") auto
  with False assms(2) obtain m where
    m: "psend nops (network_stream a) (transport_packet (fst p) (snd p) []) = Inr m"
      "b = a\<lparr>special_packet_queue := q, network_stream := m\<rparr>"
    by (auto simp: Transport_send_special_packet_def result_simps)
  have "fst p = CLOSE_CHANNEL" "snd p \<noteq> CLOSE_CHANNEL" using assms(1) q by (simp_all add: good_def node_inv_def)
  then have "wire_packet src (transport_packet (fst p) (snd p) [])" by (auto simp: wire_packet_def)
  from goes_send [OF assms(1) m(1) this] q show ?thesis by (simp add: goes_def good_def node_inv_def m(2))
qed

lemma network_send_ready_goes:
  assumes "good a" "Transport_network_send_ready fuel nops pops a = Inr b"
  shows "goes a b"
  using assms
proof (induction fuel arbitrary: a)
  case (Suc fuel)
  show ?case
  proof (cases "pis_send_ready nops (network_stream a)")
    case False
    with Suc.prems goes_refl show ?thesis by auto
  next
    case ready: True
    show ?thesis
    proof (cases "special_packet_queue a = []")
      case False
      with ready Suc.prems(2) obtain a' where a': "Transport_send_special_packet nops a = Inr a'"
        "Transport_network_send_ready fuel nops pops a' = Inr b" by (auto simp: result_simps)
      from send_special_goes [OF Suc.prems(1) a'(1)] have g: "goes a a'" .
      from Suc.IH [OF _ a'(2)] g show ?thesis by (auto dest: goes_trans goes_good)
    next
      case True
      with ready Suc.prems(2) obtain f y a' where
        a': "children_pass nops pops (map snd (children a)) False a = Inr (f, y, a')"
        "if f \<and> y then Transport_network_send_ready fuel nops pops a' = Inr b else b = a'"
        by (auto simp: result_simps split: if_splits)
      have "\<forall>k \<in> set (map snd (children a)). k < next_object a" using Suc.prems(1) by (auto simp: good_def node_inv_def)
      from children_pass_goes [OF Suc.prems(1) this a'(1)] have g: "goes a a'" .
      with Suc.IH [of a'] a'(2) show ?thesis by (auto split: if_splits dest: goes_trans goes_good)
    qed
  qed
qed simp

section \<open>Channels\<close>

lemma drop_target_goes:
  assumes "good a" "k < next_object a"
  shows "goes a (drop_target pops k a)"
proof (cases "ctarget (objects a k)")
  case None
  with assms(1) show ?thesis by (simp add: drop_target_def goes_refl)
next
  case (Some t)
  from goes_put [OF assms(1) obj_ok_no_target [OF good_obj [OF assms]], of k] Some show ?thesis
    by (simp add: drop_target_def goes_def good_def node_inv_def put_object_def)
qed

lemma target_error_goes:
  assumes "good a" "k < next_object a" "Transport_target_error nops pops k a = Inr b"
  shows "goes a b"
proof -
  let ?a = "a\<lparr>special_packet_queue := special_packet_queue a @ [(CLOSE_CHANNEL, cid (objects a k))]\<rparr>"
  have "cid (objects a k) \<noteq> CLOSE_CHANNEL" using good_obj [OF assms(1,2)] by (simp add: obj_ok_def)
  then have a: "goes a ?a" using assms(1) by (auto simp: goes_def good_def node_inv_def)
  from assms(3) obtain c where c: "Transport_send_special_packet nops ?a = Inr c" "b = drop_target pops k c"
    by (auto simp: Transport_target_error_def result_simps)
  from goes_trans [OF a send_special_goes [OF _ c(1)]] goes_good [OF a] have g: "goes a c" by blast
  from goes_good [OF g] assms(2) have "goes c b" unfolding c(2) by (intro drop_target_goes) auto
  with g show ?thesis by (rule goes_trans)
qed

lemma target_send_ready_goes:
  assumes "good a" "k < next_object a" "Transport_target_send_ready pops k a = Inr b"
  shows "goes a b"
proof -
  note ok = child_send_ready_ok [OF good_obj [OF assms(1,2)]]
  from assms(3) obtain c where c: "child_send_ready pops (objects a k) = Inr c" "b = put_object k c a"
    by (auto simp: Transport_target_send_ready_def result_simps)
  from goes_put [OF assms(1)] ok [OF c(1)] show ?thesis by (simp add: c(2))
qed

lemma target_connected_goes:
  assumes "good a" "k < next_object a" "fresh_target src (cid (objects a k)) t"
    and "last_forwarded_packet (objects a k) = 0" "last_sent_packet (objects a k) = 0"
    and "Transport_target_connected fuel nops pops k t a = Inr b"
  shows "goes a b"
proof -
  let ?c = "(objects a k)\<lparr>ctarget := Some t\<rparr>"
  from assms(6) obtain c where c: "Transport_target_send_ready pops k (put_object k ?c a) = Inr c"
    "Transport_target_recv_ready fuel nops pops k c = Inr b"
    by (auto simp: Transport_target_connected_def result_simps)
  from goes_put [OF assms(1) obj_ok_connect [OF good_obj [OF assms(1,2)] assms(3-5)]]
  have p: "goes a (put_object k ?c a)" by simp
  from goes_good [OF p] assms(2) target_send_ready_goes [OF _ _ c(1)] have "goes (put_object k ?c a) c" by auto
  with p have ac: "goes a c" by (rule goes_trans)
  from goes_good [OF ac] assms(2) target_recv_ready_goes [OF _ _ c(2)] have "goes c b" by auto
  with ac show ?thesis by (rule goes_trans)
qed

lemma add_target_goes:
  assumes "good a" "peer_ok msgs" "chan \<noteq> CLOSE_CHANNEL" "good_future src chan f"
    and "Transport_add_target fuel nops pops chan f a = Inr b"
  shows "goes a b"
proof -
  let ?k = "next_object a"
  let ?a = "(put_object ?k (new_child chan) a)\<lparr>next_object := ?k + 1, children := AList.update chan ?k (children a)\<rparr>"
  have a: "goes a ?a" using assms(1) obj_ok_new [OF assms(2,3), of src]
    by (auto simp: goes_def good_def node_inv_def put_object_def less_Suc_eq new_child_def dest!: in_set_update)
  have k: "?k < next_object ?a" "cid (objects ?a ?k) = chan" "last_forwarded_packet (objects ?a ?k) = 0"
    "last_sent_packet (objects ?a ?k) = 0" by (simp_all add: put_object_def new_child_def)
  note g = goes_good [OF a, THEN conjunct1]
  have "goes ?a b"
  proof (cases f)
    case (Completed t)
    with assms(4,5) k target_connected_goes [OF g k(1) _ k(3,4)] show ?thesis
      by (simp add: Transport_add_target_def Let_def good_future_def)
  next
    case Failed
    with assms(5) target_error_goes [OF g k(1)] show ?thesis by (simp add: Transport_add_target_def Let_def)
  next
    case Pending
    with assms(5) goes_refl [OF g] show ?thesis by (auto simp: Transport_add_target_def Let_def)
  qed
  with a show ?thesis by (rule goes_trans)
qed

lemma get_child_stream_goes:
  assumes "good a" "peer_ok msgs" "chan \<noteq> CLOSE_CHANNEL" "good_future src chan (creator chan)"
    and "Transport_get_child_stream fuel nops pops creator chan a = Inr (k, b)"
  shows "goes a b \<and> k < next_object b \<and> cid (objects b k) = chan"
proof -
  have g: "goes a b \<and> (chan, k) \<in> set (children b)"
  proof (cases "map_of (children a) chan")
    case None
    with assms(5) have "Transport_add_target fuel nops pops chan (creator chan) a = Inr b" "map_of (children b) chan = Some k"
      by (auto simp: Transport_get_child_stream_def result_simps split: option.splits)
    with add_target_goes [OF assms(1-4)] show ?thesis by (auto dest: map_of_SomeD)
  next
    case (Some j)
    with assms(5) goes_refl [OF assms(1)] show ?thesis by (auto simp: Transport_get_child_stream_def dest: map_of_SomeD)
  qed
  then show ?thesis by (auto simp: goes_def good_def node_inv_def)
qed

lemma network_packet_goes:
  assumes "good a" "peer_ok msgs" "\<And>chan. good_future src chan (creator chan)" "wire_packet msgs p"
    and "Transport_network_packet fuel nops pops creator p a = Inr b"
  shows "goes a b"
proof -
  from assms(4) obtain chan where chan: "chan \<noteq> CLOSE_CHANNEL" and
    "p = transport_packet CLOSE_CHANNEL chan [] \<or> (\<exists>s < length (msgs chan). p = transport_packet chan (of_nat s) (msgs chan ! s))"
    by (auto simp: wire_packet_def)
  then consider (close) "p = transport_packet CLOSE_CHANNEL chan []"
    | (place) s where "s < length (msgs chan)" "p = transport_packet chan (of_nat s) (msgs chan ! s)" by blast
  then show ?thesis
  proof cases
    case close
    with assms(5) obtain k c where c: "Transport_get_child_stream fuel nops pops creator chan a = Inr (k, c)"
      "b = drop_target pops k c"
      by (auto simp: Transport_network_packet_def Transport_close_channel_def result_simps)
    from get_child_stream_goes [OF assms(1,2) chan assms(3) c(1)] have g: "goes a c" "k < next_object c" by blast+
    with drop_target_goes [of c k] show ?thesis by (auto simp: c(2) dest: goes_good goes_trans)
  next
    case (place s)
    with chan assms(5) obtain k c d where
      c: "Transport_get_child_stream fuel nops pops creator chan a = Inr (k, c)"
      "child_place pops (of_nat s) (msgs chan ! s) (objects c k) = Inr d" "b = put_object k d c"
      by (auto simp: Transport_network_packet_def Transport_place_packet_def result_simps)
    from get_child_stream_goes [OF assms(1,2) chan assms(3) c(1)] have k: "goes a c" "k < next_object c" "cid (objects c k) = chan"
      by blast+
    from goes_good [OF k(1)] k(2) have ok: "good c" "obj_ok src msgs (objects c k)" using good_obj by auto
    from child_place_ok [OF ok(2), of s d] place(1) c(2) k(3) have "obj_ok src msgs d" "cid d = cid (objects c k)" by auto
    from goes_put [OF ok(1) this] k(1) show ?thesis by (auto simp: c(3) dest: goes_trans)
  qed
qed

end

section \<open>Handlers that receive\<close>

locale packet_node =
  packet_sender pops pinv emitted enc room mtu inbox nops NI src msgs
  for pops :: "'p packet_ops" and pinv :: "'p \<Rightarrow> bool" and emitted :: "'p \<Rightarrow> 'o list"
    and enc :: "bytes \<Rightarrow> 'o list" and room :: "'p \<Rightarrow> nat" and mtu :: nat and inbox :: "'p \<Rightarrow> bytes list"
    and nops :: "'n packet_ops" and NI :: "'n \<Rightarrow> bool" and src :: "u64 \<Rightarrow> bytes list" and msgs :: "u64 \<Rightarrow> bytes list" +
  assumes net_recv: "NI n \<Longrightarrow> precv nops n = Inr (r, n') \<Longrightarrow> NI n' \<and> (\<forall>p. r = Some p \<longrightarrow> wire_packet msgs p)"
begin

lemma network_recv_ready_goes:
  assumes "good a" "peer_ok msgs" "\<And>chan. good_future src chan (creator chan)"
    and "Transport_network_recv_ready fuel inner nops pops creator a = Inr b"
  shows "goes a b"
  using assms(1,4)
proof (induction fuel arbitrary: a)
  case (Suc fuel)
  from Suc.prems(2) obtain r m where r: "precv nops (network_stream a) = Inr (r, m)" by (auto simp: result_simps)
  let ?a = "a\<lparr>network_stream := m\<rparr>"
  from net_recv [OF _ r] Suc.prems(1) have a: "goes a ?a" "\<forall>p. r = Some p \<longrightarrow> wire_packet msgs p"
    by (auto simp: goes_def good_def node_inv_network)
  show ?case
  proof (cases r)
    case None
    with Suc.prems(2) r a show ?thesis by auto
  next
    case (Some p)
    with Suc.prems(2) r obtain c where
      c: "Transport_network_packet inner nops pops creator p ?a = Inr c"
      "Transport_network_recv_ready fuel inner nops pops creator c = Inr b" by (auto simp: result_simps)
    from network_packet_goes [OF _ assms(2,3) _ c(1)] goes_good [OF a(1)] a(2) Some have "goes ?a c" by blast
    with a(1) have ac: "goes a c" by (rule goes_trans)
    from Suc.IH [OF _ c(2)] goes_good [OF ac] have "goes c b" by blast
    with ac show ?thesis by (rule goes_trans)
  qed
qed simp

end

section \<open>Nodes and tunnels\<close>

text \<open>
  The surroundings of a transport: the operations of its targets, the target creator, which targets may be connected to a
  channel, and how a target may change on its own. A node has a multilink as its network.
\<close>

record 't target_env =
  n_tops :: "'t packet_ops"
  n_creator :: "u64 \<Rightarrow> 't target_future"
  n_fresh :: "u64 \<Rightarrow> 't \<Rightarrow> bool"
  n_moves :: "'t \<Rightarrow> 't \<Rightarrow> bool"

record ('s, 'c, 't) node_env = "'t target_env" +
  n_mux :: "('s, 'c) multilink_env"

text \<open>
  \<open>transport_step E nops recvs a b\<close>: a handler takes the transport over the network \<open>nops\<close> from \<open>a\<close> to \<open>b\<close>; \<open>recvs\<close> if it receives from the network. In
  \<open>step_connected\<close> a pending target is connected, which happens once per channel, before anything was forwarded or taken.
\<close>

inductive transport_step :: "('t, 'z) target_env_scheme \<Rightarrow> 'n packet_ops \<Rightarrow> bool \<Rightarrow> ('n, 't) transport \<Rightarrow> ('n, 't) transport \<Rightarrow> bool"
  for E :: "('t, 'z) target_env_scheme" and nops :: "'n packet_ops" where
  step_send: "Transport_network_send_ready fuel nops (n_tops E) a = Inr b \<Longrightarrow> transport_step E nops False a b"
| step_recv: "Transport_network_recv_ready fuel inner nops (n_tops E) (n_creator E) a = Inr b \<Longrightarrow> transport_step E nops True a b"
| step_target_recv: "k < next_object a \<Longrightarrow> Transport_target_recv_ready fuel nops (n_tops E) k a = Inr b \<Longrightarrow>
    transport_step E nops False a b"
| step_target_send: "k < next_object a \<Longrightarrow> Transport_target_send_ready (n_tops E) k a = Inr b \<Longrightarrow> transport_step E nops False a b"
| step_error: "k < next_object a \<Longrightarrow> Transport_target_error nops (n_tops E) k a = Inr b \<Longrightarrow> transport_step E nops False a b"
| step_connected: "k < next_object a \<Longrightarrow> n_fresh E (cid (objects a k)) t \<Longrightarrow> last_forwarded_packet (objects a k) = 0 \<Longrightarrow>
    last_sent_packet (objects a k) = 0 \<Longrightarrow> Transport_target_connected fuel nops (n_tops E) k t a = Inr b \<Longrightarrow>
    transport_step E nops False a b"
| step_open: "chan \<noteq> CLOSE_CHANNEL \<Longrightarrow> (\<And>t. f = Completed t \<Longrightarrow> n_fresh E chan t) \<Longrightarrow>
    Transport_add_target fuel nops (n_tops E) chan f a = Inr b \<Longrightarrow> transport_step E nops False a b"
| step_target: "k < next_object a \<Longrightarrow> ctarget (objects a k) = Some t \<Longrightarrow> n_moves E t t' \<Longrightarrow>
    transport_step E nops False a (put_object k ((objects a k)\<lparr>ctarget := Some t'\<rparr>) a)"

definition target_laws :: "('t, 'z) target_env_scheme \<Rightarrow> ('t \<Rightarrow> bool) \<Rightarrow> ('t \<Rightarrow> 'o list) \<Rightarrow> ('t \<Rightarrow> bytes list) \<Rightarrow> (u64 \<Rightarrow> bytes list) \<Rightarrow> bool" where
  "target_laws E tinv temitted tinbox src \<longleftrightarrow>
     (\<forall>chan t. n_fresh E chan t \<longrightarrow> tinv t \<and> temitted t = [] \<and> tinbox t = src chan)
     \<and> (\<forall>chan t. n_creator E chan = Completed t \<longrightarrow> n_fresh E chan t)
     \<and> (\<forall>t t'. tinv t \<longrightarrow> n_moves E t t' \<longrightarrow> tinv t' \<and> temitted t' = temitted t \<and> tinbox t' = tinbox t)"

context packet_sender
begin

lemma sender_step_law:
  assumes "transport_step E nops recvs a b" "\<not> recvs" "n_tops E = pops" "target_laws E pinv emitted inbox src" "good a" "peer_ok msgs"
  shows "good b"
proof -
  have fresh: "n_fresh E chan t \<Longrightarrow> fresh_target src chan t" for chan t
    using assms(4) by (auto simp: target_laws_def fresh_target_def)
  from assms(1) have "goes a b"
  proof cases
    case (step_open chan f fuel)
    then have "good_future src chan f" using fresh by (auto simp: good_future_def)
    with step_open add_target_goes [OF assms(5,6)] assms(3) show ?thesis by blast
  next
    case (step_target k t t')
    note ok = good_obj [OF assms(5) step_target(3)]
    then have "pinv t" using step_target(4) by (simp add: obj_ok_def chan_ok_def)
    with step_target(5) assms(4) have "pinv t'" "emitted t' = emitted t" "inbox t' = inbox t" unfolding target_laws_def by blast+
    from goes_put [OF assms(5) obj_ok_target [OF ok step_target(4) this], of k] step_target(2) show ?thesis by simp
  qed (use assms(2,3,5) network_send_ready_goes target_recv_ready_goes target_send_ready_goes target_error_goes
      target_connected_goes fresh in blast)+
  then show ?thesis by (simp add: goes_def)
qed

end

context packet_node
begin

lemma transport_step_law:
  assumes "transport_step E nops recvs a b" "n_tops E = pops" "target_laws E pinv emitted inbox src" "good a" "peer_ok msgs"
  shows "good b"
proof (cases recvs)
  case True
  with assms(1) obtain fuel inner where "Transport_network_recv_ready fuel inner nops pops (n_creator E) a = Inr b"
    by cases (auto simp: assms(2))
  moreover have "good_future src chan (n_creator E chan)" for chan
    using assms(3) by (auto simp: target_laws_def good_future_def fresh_target_def)
  ultimately show ?thesis using network_recv_ready_goes [OF assms(4,5)] goes_good by blast
qed (rule sender_step_law [OF assms(1) _ assms(2-5)])

end

text \<open>
  \<open>node_step E W a ps b\<close>: a handler takes the node from \<open>a\<close> to \<open>b\<close> and puts \<open>ps\<close> on the network, and a handler that receives runs while the
  network holds only packets of \<open>W\<close>; or the multilink works on its own.
\<close>

abbreviation sends_on :: "(('s, 'c) multilink, 't) transport \<Rightarrow> bytes list \<Rightarrow> (('s, 'c) multilink, 't) transport \<Rightarrow> bool" where
  "sends_on a ps b \<equiv> mqueue (network_stream b) = mqueue (network_stream a) @ ps"

inductive node_step :: "('s, 'c, 't) node_env \<Rightarrow> bytes set \<Rightarrow> (('s, 'c) multilink, 't) transport \<Rightarrow> bytes list \<Rightarrow>
    (('s, 'c) multilink, 't) transport \<Rightarrow> bool" for E :: "('s, 'c, 't) node_env" and W :: "bytes set" where
  node_handler: "transport_step E (Multilink_ops (n_mux E)) recvs a b \<Longrightarrow> (recvs \<Longrightarrow> set_mset (arrived (network_stream a)) \<subseteq> W) \<Longrightarrow>
    sends_on a ps b \<Longrightarrow> node_step E W a ps b"
| node_network: "node_step E W a [] (a\<lparr>network_stream := m\<rparr>)"

definition node_laws :: "('s, 'c, 't) node_env \<Rightarrow> ('t \<Rightarrow> bool) \<Rightarrow> ('t \<Rightarrow> 'o list) \<Rightarrow> ('t \<Rightarrow> bytes list) \<Rightarrow> (u64 \<Rightarrow> bytes list) \<Rightarrow> bool" where
  "node_laws E tinv temitted tinbox src \<longleftrightarrow> env_ok (n_mux E) \<and> target_laws E tinv temitted tinbox src"

context packet_pair
begin

text \<open>To a node the multilink is a queue that grows by what it sends, and a bag of packets that have arrived.\<close>

definition queued_after :: "(u64 \<Rightarrow> bytes list) \<Rightarrow> bytes list \<Rightarrow> ('s, 'c) multilink \<Rightarrow> bool" where
  "queued_after src q m \<longleftrightarrow> (\<exists>ps. mqueue m = q @ ps \<and> (\<forall>p \<in> set ps. wire_packet src p))"

lemma queue_sender: "packet_sender pops pinv emitted enc room mtu inbox (Multilink_ops env) (queued_after src q) src"
  by unfold_locales (auto simp: queued_after_def dest!: mux_send(1))

lemma queue_node:
  assumes "env_ok env"
  shows "packet_node pops pinv emitted enc room mtu inbox (Multilink_ops env)
    (\<lambda>m. queued_after src q m \<and> (\<forall>p \<in># arrived m. wire_packet msgs p)) src msgs"
proof unfold_locales
  fix n p and n' :: "('a, 'b) multilink"
  assume n: "queued_after src q n \<and> (\<forall>p \<in># arrived n. wire_packet msgs p)" "wire_packet src p" "psend (Multilink_ops env) n p = Inr n'"
  from n(1,2) mux_send [OF n(3)] show "queued_after src q n' \<and> (\<forall>p \<in># arrived n'. wire_packet msgs p)"
    by (auto simp: queued_after_def)
next
  fix n r and n' :: "('a, 'b) multilink"
  assume n: "queued_after src q n \<and> (\<forall>p \<in># arrived n. wire_packet msgs p)" "precv (Multilink_ops env) n = Inr (r, n')"
  from mux_recv [OF n(2) assms] n(1)
  show "(queued_after src q n' \<and> (\<forall>p \<in># arrived n'. wire_packet msgs p)) \<and> (\<forall>p. r = Some p \<longrightarrow> wire_packet msgs p)"
    by (auto simp: queued_after_def split: option.splits)
qed

lemma node_step_law:
  assumes "node_step E W a ps b" "n_tops E = pops" "node_laws E pinv emitted inbox src" "node_inv src msgs a" "peer_ok msgs"
    and "\<forall>p \<in> W. wire_packet msgs p"
  shows "node_inv src msgs b \<and> (\<forall>p \<in> set ps. wire_packet src p)"
  using assms(1)
proof cases
  case (node_handler recvs)
  let ?q = "mqueue (network_stream a)"
  note laws = assms(3) [unfolded node_laws_def, THEN conjunct2]
  have "node_inv src msgs b \<and> queued_after src ?q (network_stream b)"
  proof (cases recvs)
    case True
    with node_handler(2) assms(6) have "\<forall>p \<in># arrived (network_stream a). wire_packet msgs p" by blast
    moreover have "env_ok (n_mux E)" using assms(3) by (simp add: node_laws_def)
    note n = queue_node [OF this, of src ?q msgs]
    ultimately show ?thesis
      using packet_node.transport_step_law [OF n node_handler(1) assms(2) laws _ assms(5)] assms(4)
      unfolding packet_sender.good_def [OF packet_node.axioms(1) [OF n]] by (simp add: queued_after_def)
  next
    case False
    note n = queue_sender [of "n_mux E" src ?q]
    from packet_sender.sender_step_law [OF n node_handler(1) False assms(2) laws _ assms(5)] assms(4) show ?thesis
      unfolding packet_sender.good_def [OF n] by (simp add: queued_after_def)
  qed
  with node_handler(3) show ?thesis by (simp add: queued_after_def)
next
  case (node_network m)
  with assms(4) show ?thesis by (simp add: node_inv_network)
qed

end

text \<open>
  Two nodes, each of which receives only packets the other has put on the network before, in any order and any number of times.
  \<open>ps\<close> and \<open>qs\<close> are the packets put on the network so far.
\<close>

inductive tunnel :: "('s, 'c, 't) node_env \<Rightarrow> ('r, 'd, 'u) node_env \<Rightarrow> (('s, 'c) multilink, 't) transport \<Rightarrow>
    (('r, 'd) multilink, 'u) transport \<Rightarrow> bytes list \<Rightarrow> bytes list \<Rightarrow> bool"
  for A :: "('s, 'c, 't) node_env" and B :: "('r, 'd, 'u) node_env" where
  tunnel_start: "tunnel A B (Transport_create m i) (Transport_create n j) [] []"
| tunnel_left: "tunnel A B a b ps qs \<Longrightarrow> node_step A (set qs) a rs a' \<Longrightarrow> tunnel A B a' b (ps @ rs) qs"
| tunnel_right: "tunnel A B a b ps qs \<Longrightarrow> node_step B (set ps) b rs b' \<Longrightarrow> tunnel A B a b' ps (qs @ rs)"

lemma tunnel_law:
  assumes "tunnel A B a b ps qs"
    and A: "packet_pair (n_tops A) ainv aemitted aenc aroom amtu ainbox" "node_laws A ainv aemitted ainbox asrc"
      "packet_pair.peer_ok amtu bsrc"
    and B: "packet_pair (n_tops B) binv bemitted benc broom bmtu binbox" "node_laws B binv bemitted binbox bsrc"
      "packet_pair.peer_ok bmtu asrc"
  shows "packet_pair.node_inv ainv aemitted aenc amtu ainbox asrc bsrc a \<and> (\<forall>p \<in> set ps. wire_packet asrc p)
     \<and> packet_pair.node_inv binv bemitted benc bmtu binbox bsrc asrc b \<and> (\<forall>p \<in> set qs. wire_packet bsrc p)"
  using assms(1)
proof induction
  case (tunnel_start m i n j)
  show ?case by (simp add: packet_pair.node_inv_create [OF A(1)] packet_pair.node_inv_create [OF B(1)])
next
  case (tunnel_left a b ps qs rs a')
  with packet_pair.node_step_law [OF A(1) tunnel_left.hyps(2) refl A(2) _ A(3)] show ?case by auto
next
  case (tunnel_right a b ps qs rs b')
  with packet_pair.node_step_law [OF B(1) tunnel_right.hyps(2) refl B(2) _ B(3)] show ?case by auto
qed

section \<open>Two links\<close>

context byte_stream
begin

text \<open>From its creation a link sends whole frames whose data is what it accepted, and delivers what its peer framed.\<close>

lemma link_from_start:
  assumes "Link_init s = Inr l" "sinv s" "link_wire (incoming s) fs" "link_trace sops l es l'"
  shows "\<exists>gs fs'. written (lstream l') @ lsend_buffer_current l' = written s @ link_bytes gs \<and> (\<forall>g \<in> set gs. frame_ok g)
     \<and> data_of gs = map snd (accepted es) \<and> link_wire (lrecv_buffer l' @ incoming (lstream l')) fs'
     \<and> data_of fs = delivered es @ waiting_list l' @ data_of fs'"
proof -
  from Link_init_law [of s] assms(1) have l: "lstream l = s" "lrecv_buffer l = []" "waiting_recv_packet l = None"
    "lsend_buffer_current l = []" "link_ok l" by auto
  then have "link_inv l fs" using assms(2,3) by (simp add: link_inv_def)
  from link_trace_law [OF assms(4) this] obtain fs' gs used where
    "link_sent l' = link_sent l @ link_bytes gs" "\<forall>g \<in> set gs. frame_ok g" "data_of gs = map snd (accepted es)"
    "fs = used @ fs'" "waiting_list l @ data_of used = delivered es @ waiting_list l'" "link_inv l' fs'"
    unfolding link_moves_def by blast
  with l show ?thesis
    by (intro exI [of _ gs] exI [of _ fs']) (simp add: link_sent_def waiting_list_def link_inv_def)
qed

end

section \<open>Properties\<close>

text \<open>The tunnel delivers every channel in order. Two transports over multilinks run all their handlers in any
  order, open and close channels, connect targets early or late, while the network reorders, duplicates and withholds
  packets: a target that one side has connected to a channel has been sent exactly the first \<open>last_forwarded_packet\<close> packets that the
  target at the other side of the channel supplies, in order, once each, and unchanged.\<close>

theorem Tunnel_delivers_in_order:
  assumes "packet_pair (n_tops A) ainv aemitted aenc aroom amtu ainbox" "node_laws A ainv aemitted ainbox asrc"
    and "packet_pair (n_tops B) binv bemitted benc broom bmtu binbox" "node_laws B binv bemitted binbox bsrc"
    and "\<And>chan. length (asrc chan) < 2 ^ 62 \<and> (\<forall>d \<in> set (asrc chan). length d \<le> bmtu)"
    and "\<And>chan. length (bsrc chan) < 2 ^ 62 \<and> (\<forall>d \<in> set (bsrc chan). length d \<le> amtu)"
    and "tunnel A B a b ps qs" "map_of (children b) chan = Some k" "ctarget (objects b k) = Some t"
  shows "unat (last_forwarded_packet (objects b k)) \<le> length (asrc chan)
     \<and> bemitted t = concat (map benc (take (unat (last_forwarded_packet (objects b k))) (asrc chan)))"
proof -
  have "packet_pair.peer_ok amtu bsrc" "packet_pair.peer_ok bmtu asrc"
    using assms(5,6) by (auto simp: packet_pair.peer_ok_def [OF assms(1)] packet_pair.peer_ok_def [OF assms(3)])
  with tunnel_law [OF assms(7,1,2) _ assms(3,4)]
  have inv: "packet_pair.node_inv binv bemitted benc bmtu binbox bsrc asrc b" by blast
  have k: "(chan, k) \<in> set (children b)" using assms(8) by (rule map_of_SomeD)
  with inv have "packet_pair.obj_ok binv bemitted benc bmtu binbox bsrc asrc (objects b k)" "cid (objects b k) = chan"
    unfolding packet_pair.node_inv_def [OF assms(3)] by auto
  moreover have "packet_sink (n_tops B) binv bemitted benc broom bmtu"
    using assms(3) by (simp add: packet_pair_def packet_duplex_def)
  ultimately show ?thesis using assms(9)
    by (simp add: packet_pair.obj_ok_def [OF assms(3)] packet_sink.chan_ok_def reorder_ok_def)
qed

text \<open>A tunnel with one packet: the left side has a target that supplies it, the right side creates targets on demand.\<close>

abbreviation "supplying \<equiv> example_target\<lparr>recv_buffer := length_frame [7]\<rparr>"

definition left_node :: "(unit, bytes list, (nat, sock) reactor length_packet_stream) node_env" where
  "left_node = \<lparr>n_tops = example_tops, n_creator = (\<lambda>_. Pending), n_fresh = (\<lambda>chan t. chan = 5 \<and> t = supplying),
     n_moves = (\<lambda>t t'. False), n_mux = example_env\<rparr>"

definition right_node :: "(unit, bytes list, (nat, sock) reactor length_packet_stream) node_env" where
  "right_node = \<lparr>n_tops = example_tops, n_creator = (\<lambda>_. Completed example_target), n_fresh = (\<lambda>chan t. t = example_target),
     n_moves = (\<lambda>t t'. False), n_mux = example_env\<rparr>"

lemma supplying_ok:
  "sock.fd_stream.length_inv supplying \<and> sock.fd_stream.length_inbox supplying = [[7]]"
  by (rule sock.fd_stream.length_invI)
    (simp_all add: LengthPacketStream_create_def sock_reactor_def sock.fd_inv_def length_wire_def length_frame_def PACKET_MTU_def)

lemma example_node_laws:
  "node_laws left_node sock.fd_stream.length_inv sock.fd_stream.writer_sent sock.fd_stream.length_inbox (\<lambda>chan. if chan = 5 then [[7]] else [])"
  "node_laws right_node sock.fd_stream.length_inv sock.fd_stream.writer_sent sock.fd_stream.length_inbox (\<lambda>chan. [])"
  using supplying_ok example_target_ok example_env_ok
  by (simp_all add: node_laws_def target_laws_def left_node_def right_node_def sock.fd_stream.writer_sent_def LengthPacketStream_create_def sock_reactor_def)

lemmas stream_eval = LengthPacketStream_ops_def LengthPacketStream_send_def LengthPacketStream_recv_def LengthPacketStream_create_def
  FreeWriterPacketStream_is_send_ready_def FreeWriterPacketStream_send_with_offset_def
  AbstractPacketStream_send_def schedule_def length_frame_def PACKET_MTU_def

lemma supplying_recv:
  "\<exists>t'. precv example_tops supplying = Inr (Some [7], t') \<and> precv example_tops t' = Inr (None, t')"
  by (simp add: stream_eval packet_complete_def get_put_u32 call_def)

lemma example_left:
  "\<exists>a. node_step left_node W (Transport_create (Multilink_init []) 1000) [transport_packet 5 0 [7]] a"
proof -
  let ?a = "Transport_create (Multilink_init []) 1000 :: ((unit, bytes list) multilink, (nat, sock) reactor length_packet_stream) transport"
  from supplying_recv obtain t' where t': "precv example_tops supplying = Inr (Some [7], t')" "precv example_tops t' = Inr (None, t')" by blast
  let ?m = "(Multilink_init [] :: (unit, bytes list) multilink)\<lparr>mqueue := [transport_packet 5 0 [7]], mtasks := [Task_some_link_send_ready]\<rparr>"
  have send: "psend (Multilink_ops example_env) (Multilink_init []) (transport_packet 5 0 [7]) = Inr ?m"
    by (simp add: Multilink_ops_def AbstractPacketStream_send_def send_with_offset_cases Multilink_init_def
        MULTILINK_MTU_def LINK_MTU_def HEADER_SIZE_def QUEUE_SIZE_def)
  have ready: "pis_send_ready (Multilink_ops example_env) (Multilink_init [])" "pis_send_ready (Multilink_ops example_env) ?m"
    by (simp_all add: Multilink_ops_def Multilink_is_send_ready_def Multilink_init_def QUEUE_SIZE_def)
  have "\<exists>b. Transport_add_target 3 (Multilink_ops example_env) example_tops 5 (Completed supplying) ?a = Inr b
      \<and> sends_on ?a [transport_packet 5 0 [7]] b"
    using t' send ready
    by (simp add: Transport_add_target_def Transport_target_connected_def Transport_target_send_ready_def child_send_ready_def
        Let_def put_object_def new_child_def Transport_create_def numeral_3_eq_3 Transport_target_recv_ready_once_def Multilink_init_def)
  then obtain b where b: "Transport_add_target 3 (Multilink_ops example_env) example_tops 5 (Completed supplying) ?a = Inr b"
      "sends_on ?a [transport_packet 5 0 [7]] b" by blast
  have "transport_step left_node (Multilink_ops (n_mux left_node)) False ?a b"
    using b(1) by (intro step_open) (simp_all add: left_node_def CLOSE_CHANNEL_def LAST_CHANNEL_def)
  from node_handler [OF this _ b(2)] show ?thesis by blast
qed

lemma example_mux_recv:
  "\<exists>m m1 m2 :: (unit, bytes list) multilink. arrived m = {#p#} \<and> precv (Multilink_ops example_env) m = Inr (Some p, m1) \<and> mqueue m = []
     \<and> precv (Multilink_ops example_env) m1 = Inr (None, m2) \<and> mqueue m1 = [] \<and> mqueue m2 = []"
proof -
  from Link_init_law [of "()"] obtain l :: "unit link" where l: "\<not> timed_out l" by blast
  let ?m = "(Multilink_init [] :: (unit, bytes list) multilink)\<lparr>mlinks := [(0, l\<lparr>waiting_recv_packet := Some p\<rparr>)]\<rparr>"
  have "arrived ?m = {#p#} \<and> mqueue ?m = []"
    using l by (simp add: arrived_def link_arrived_def waiting_list_def Multilink_init_def)
  moreover have "\<exists>m1 m2. precv (Multilink_ops example_env) ?m = Inr (Some p, m1) \<and> precv (Multilink_ops example_env) m1 = Inr (None, m2)
      \<and> mqueue m1 = [] \<and> mqueue m2 = []"
    using l by (simp add: Multilink_ops_def Multilink_recv_def Multilink_shuffle_links_def example_env_def Link_recv_def lschedule_def
        Multilink_init_def)
  ultimately show ?thesis by blast
qed

lemma example_right:
  "\<exists>b b' t. node_step right_node {transport_packet 5 0 [7]} (Transport_create (Multilink_init []) 1000) [] b
     \<and> node_step right_node {transport_packet 5 0 [7]} b [] b' \<and> map_of (children b') 5 = Some 0 \<and> ctarget (objects b' 0) = Some t
     \<and> last_forwarded_packet (objects b' 0) = 1"
proof -
  let ?b = "Transport_create (Multilink_init []) 1000 :: ((unit, bytes list) multilink, (nat, sock) reactor length_packet_stream) transport"
  from example_mux_recv [of "transport_packet 5 0 [7]"] obtain m m1 m2 :: "(unit, bytes list) multilink" where
    m: "arrived m = {#transport_packet 5 0 [7]#}" "precv (Multilink_ops example_env) m = Inr (Some (transport_packet 5 0 [7]), m1)"
      "precv (Multilink_ops example_env) m1 = Inr (None, m2)" "mqueue m = []" "mqueue m1 = []" "mqueue m2 = []" by blast
  let ?t = "schedule Run_write_ready (example_target\<lparr>send_buffer_current := length_frame [7]\<rparr>)"
  have t: "precv example_tops example_target = Inr (None, example_target)" "psend example_tops example_target [7] = Inr ?t"
    "pis_send_ready example_tops example_target"
    by (simp_all add: stream_eval packet_complete_def)
  have ready: "pis_send_ready (Multilink_ops example_env) m1"
    by (simp add: Multilink_ops_def Multilink_is_send_ready_def m(5) QUEUE_SIZE_def)
  have chan: "5 \<noteq> CLOSE_CHANNEL" by (simp add: CLOSE_CHANNEL_def LAST_CHANNEL_def)
  have "\<exists>b'. Transport_network_recv_ready 2 1 (Multilink_ops example_env) example_tops (\<lambda>_. Completed example_target)
        (?b\<lparr>network_stream := m\<rparr>) = Inr b' \<and> mqueue (network_stream b') = [] \<and> map_of (children b') 5 = Some 0
      \<and> ctarget (objects b' 0) = Some ?t \<and> last_forwarded_packet (objects b' 0) = 1"
    using m(2,3,6) t ready chan
    by (simp add: numeral_2_eq_2 Transport_network_packet_def Transport_place_packet_def Transport_get_child_stream_def
        Transport_create_def Transport_add_target_def Transport_target_connected_def Transport_target_send_ready_def
        child_send_ready_def Let_def put_object_def new_child_def Transport_target_recv_ready_once_def
        child_place_def MAX_BUFFER_PACKETS_def)
  then obtain b' where b': "Transport_network_recv_ready 2 1 (Multilink_ops example_env) example_tops (\<lambda>_. Completed example_target)
        (?b\<lparr>network_stream := m\<rparr>) = Inr b'" "mqueue (network_stream b') = []" "map_of (children b') 5 = Some 0"
      "ctarget (objects b' 0) = Some ?t" "last_forwarded_packet (objects b' 0) = 1" by blast
  have "node_step right_node {transport_packet 5 0 [7]} (?b\<lparr>network_stream := m\<rparr>) [] b'"
    by (rule node_handler [where recvs = True], rule step_recv [where fuel = 2 and inner = 1])
      (use b' m in \<open>simp_all add: right_node_def\<close>)
  with node_network [of right_node _ ?b m] b' show ?thesis by blast
qed

theorem Tunnel_delivers_in_order_witness:
  "\<exists>a b t. tunnel left_node right_node a b [transport_packet 5 0 [7]] [] \<and> map_of (children b) 5 = Some 0
     \<and> ctarget (objects b 0) = Some t \<and> sock.fd_stream.writer_sent t = length_frame [7]"
proof -
  let ?p = "transport_packet 5 0 [7]"
  from example_left obtain a where "node_step left_node {} (Transport_create (Multilink_init []) 1000) [?p] a" by blast
  from tunnel_left [OF tunnel_start, of left_node _ _ _ a right_node] this
  have a: "tunnel left_node right_node a (Transport_create (Multilink_init []) 1000) [?p] []" by simp
  from example_right obtain b b' t where b: "node_step right_node {?p} (Transport_create (Multilink_init []) 1000) [] b"
    "node_step right_node {?p} b [] b'" "map_of (children b') 5 = Some 0" "ctarget (objects b' 0) = Some t"
    "last_forwarded_packet (objects b' 0) = 1" by blast
  from tunnel_right [OF a] b(1) have "tunnel left_node right_node a b [?p] []" by fastforce
  from tunnel_right [OF this] b(2) have ab: "tunnel left_node right_node a b' [?p] []" by fastforce
  have ops: "n_tops left_node = example_tops" "n_tops right_node = example_tops" by (simp_all add: left_node_def right_node_def)
  note pair = sock.fd_stream.length_pair.packet_pair_axioms
  note left = pair [where 'a = nat, folded ops(1)] and right = pair [where 'a = nat, folded ops(2)]
  from Tunnel_delivers_in_order [OF left example_node_laws(1) right example_node_laws(2) _ _ ab b(3,4)] b(5)
  have "sock.fd_stream.writer_sent t = length_frame [7]" by (simp add: PACKET_MTU_def)
  with ab b show ?thesis by blast
qed

text \<open>C2: two links in a row lose, reorder and change nothing. A link at one end of a connection accepts packets and a link
  at the other end receives the bytes, each over a byte stream of its own and with its handlers in any order. The bytes the
  receiver has in its buffer or has not read yet (they are on the way, or still in the sender's buffer) are whole frames, and
  the packets delivered so far, the one that waits to be fetched and the data of those frames are, in this order, exactly
  the packets accepted. So once nothing is left to read and none waits, all of them have been delivered.\<close>

theorem Link_pair_in_order:
  assumes "byte_stream sops sinv written incoming" "byte_stream rops rinv rwritten rincoming"
    and "Link_init s = Inr l" "sinv s" "link_wire (incoming s) fs" "link_trace sops l es l'"
    and "Link_init r = Inr k" "rinv r" "link_trace rops k ds k'"
    and "written (lstream l') @ lsend_buffer_current l' = written s @ rincoming r"
  shows "\<exists>fs'. link_wire (lrecv_buffer k' @ rincoming (lstream k')) fs'
           \<and> map snd (accepted es) = delivered ds @ waiting_list k' @ data_of fs'
           \<and> (lrecv_buffer k' @ rincoming (lstream k') = [] \<longrightarrow> map snd (accepted es) = delivered ds @ waiting_list k')"
proof -
  from byte_stream.link_from_start [OF assms(1,3,4,5,6)] obtain gs where
    gs: "written (lstream l') @ lsend_buffer_current l' = written s @ link_bytes gs" "\<forall>g \<in> set gs. frame_ok g"
      "data_of gs = map snd (accepted es)" by blast
  with assms(10) have "link_wire (rincoming r) gs" by (simp add: link_wire_def)
  from byte_stream.link_from_start [OF assms(2,7,8) this assms(9)] gs(3) obtain fs' where
    fs': "link_wire (lrecv_buffer k' @ rincoming (lstream k')) fs'"
      "map snd (accepted es) = delivered ds @ waiting_list k' @ data_of fs'" by auto
  moreover from fs'(1) have "fs' = []" if "lrecv_buffer k' @ rincoming (lstream k') = []"
    using that by (cases fs') (auto simp: link_wire_def link_frame_def)
  ultimately show ?thesis by auto
qed

theorem Link_pair_in_order_witness:
  "\<exists>l l' k k'. Link_init (sock_reactor \<lparr>rx = [], wx = [], tx = []\<rparr>) = Inr l
     \<and> link_trace (FD_ops sock_kernel 0) l [Accepted 1 [9]] l'
     \<and> Link_init (sock_reactor \<lparr>rx = [link_frame 0 [9]], wx = [], tx = []\<rparr>) = Inr k
     \<and> link_trace (FD_ops sock_kernel 0) k [Quiet, Delivered [9]] k' \<and> lrecv_buffer k' = []
     \<and> map snd (accepted [Accepted 1 [9]]) = delivered [Quiet, Delivered [9]] @ waiting_list k'"
proof -
  let ?s = "sock_reactor \<lparr>rx = [], wx = [], tx = []\<rparr> :: (nat, sock) reactor"
  let ?r = "sock_reactor \<lparr>rx = [link_frame 0 [9]], wx = [], tx = []\<rparr> :: (nat, sock) reactor"
  from Link_init_law [of ?s] obtain l where l: "Link_init ?s = Inr l" "lstream l = ?s"
    "\<not> timed_out l" "\<not> bufferbloat_avoidance l" "lsend_buffer_current l = []"
    "last_pong_request_time l = 0" "last_ping_sent l = 0" "last_seq_sent l = 0" by blast
  have "\<exists>l'. Link_send 5 1 [9] l = Inr (True, l') \<and> lstream l' = ?s \<and> lsend_buffer_current l' = link_frame 0 [9]"
    using l by (simp add: Link_send_def Link_send_aux_def Link_should_ping_def PING_INTERVAL_def
        Link_raw_send_packet_def Link_format_send_packet_def LINK_MTU_def HEADER_SIZE_def lschedule_def)
  then obtain l' where l': "Link_send 5 1 [9] l = Inr (True, l')" "lstream l' = ?s" "lsend_buffer_current l' = link_frame 0 [9]" by blast
  from l'(1) have t: "link_trace (FD_ops sock_kernel 0) l [Accepted 1 [9]] l'"
    by (intro link_trace_cons [OF _ link_trace_nil] link_step.intros)
  from Link_init_law [of ?r] obtain k where k: "Link_init ?r = Inr k" "lstream k = ?r" "lrecv_buffer k = []"
    "waiting_recv_packet k = None" "\<not> timed_out k" by blast
  let ?m = "lschedule Task_on_recv_ready (k\<lparr>lstream := ?s, lrecv_buffer := link_frame 0 [9], waiting_recv_packet := Some [9]\<rparr>)"
  have "Link_parse_recv_packet 6 (link_frame 0 [9]) (k\<lparr>lstream := ?s, lrecv_buffer := link_frame 0 [9]\<rparr>) = Inr ?m"
    by (simp add: Link_parse_recv_packet_def read_at_frame(3,4) k(4))
  from read_one_frame [OF _ k(4,3,5,2) this, of 0]
  have rd: "Link_transport_read_ready 2 (FD_ops sock_kernel 0) 6 k = Inr (?m\<lparr>lrecv_buffer := []\<rparr>)"
    by (simp add: lschedule_def HEADER_SIZE_def LINK_MTU_def numeral_2_eq_2)
  let ?k' = "lschedule Task_transport_read_ready (?m\<lparr>lrecv_buffer := [], waiting_recv_packet := None\<rparr>)"
  have "Link_recv (?m\<lparr>lrecv_buffer := []\<rparr>) = (Some [9], ?k')"
    by (simp add: Link_recv_def lschedule_def k(5))
  with rd have d: "link_trace (FD_ops sock_kernel 0) k [Quiet, Delivered [9]] ?k'"
    by (meson link_step.intros(1,7) link_trace_cons link_trace_nil)
  have s: "sock.fd_inv ?s" "sock.fd_inv ?r" by (simp_all add: sock_reactor_def sock.fd_inv_def)
  have w: "link_wire (concat (rx (kernel ?s))) []" by (simp add: link_wire_def sock_reactor_def)
  have e: "tx (kernel (lstream l')) @ lsend_buffer_current l' = tx (kernel ?s) @ concat (rx (kernel ?r))"
    by (simp add: l'(2,3) sock_reactor_def)
  note bs = sock.fd_stream.byte_stream_axioms
  have "lrecv_buffer ?k' @ concat (rx (kernel (lstream ?k'))) = []" by (simp add: lschedule_def sock_reactor_def)
  with Link_pair_in_order [OF bs bs l(1) s(1) w t k(1) s(2) d e] l(1) t k(1) d show ?thesis by blast
qed

end
