(* ===== verification/Ip.thy ===== *)
theory Ip
  imports Buffers
begin

text \<open>
  \<^verbatim>\<open>terminate/ippacket.cpp\<close>, \<^verbatim>\<open>terminate/address.h\<close>: raw IP packets between a tun device and a channel.

  Packets are byte strings, read and written through the checked accessors of \<open>Buffers\<close>. A tun descriptor that has
  gone away is \<open>tun_alive = False\<close>; \<open>tun_out\<close> are the packets given to \<open>Tun::send\<close>. \<open>recv_calls\<close> counts the calls of
  \<open>on_recv_ready\<close>. Integers have the width of the source; addresses are in network byte order as \<open>inet_addr\<close> yields them.
\<close>

section \<open>Addresses\<close>

datatype ip_type = v4 | v6

record IpAddress =
  ip_type :: ip_type
  addr4 :: u32
  addr6 :: "u32 list"

definition IpAddress_make4 :: "u32 \<Rightarrow> IpAddress" where
  "IpAddress_make4 a = \<lparr>ip_type = v4, addr4 = a, addr6 = [a, 0, 0, 0]\<rparr>"

text \<open>\<open>addr4\<close> and \<open>addr6\<close> share their storage (the words \<open>make4\<close> leaves uninitialised are 0 here); \<open>make6\<close> sets the type to \<open>v4\<close> as well.\<close>

definition IpAddress_make6 :: "u32 list \<Rightarrow> IpAddress" where
  "IpAddress_make6 a = \<lparr>ip_type = v4, addr4 = hd a, addr6 = a\<rparr>"

definition decimal :: "nat \<Rightarrow> bytes" where
  "decimal n = (if n < 10 then [of_nat (48 + n)]
     else if n < 100 then [of_nat (48 + n div 10), of_nat (48 + n mod 10)]
     else [of_nat (48 + n div 100), of_nat (48 + n div 10 mod 10), of_nat (48 + n mod 10)])"

definition octet :: "nat \<Rightarrow> u32 \<Rightarrow> nat" where
  "octet k a = unat (drop_bit (8 * k) a AND 0xFF)"

definition IpAddress_to_string :: "IpAddress \<Rightarrow> bytes result" where
  "IpAddress_to_string ip = (case ip_type ip of
       v4 \<Rightarrow> Inr (decimal (octet 0 (addr4 ip)) @ [46] @ decimal (octet 1 (addr4 ip)) @ [46]
                @ decimal (octet 2 (addr4 ip)) @ [46] @ decimal (octet 3 (addr4 ip)))
     | v6 \<Rightarrow> Inl Aborted)"

section \<open>Checksums\<close>

definition ICMP :: nat where "ICMP = 1"
definition TCP :: nat where "TCP = 6"
definition UDP :: nat where "UDP = 17"
definition ICMP6 :: nat where "ICMP6 = 58"

definition is_valid_protocol :: "nat \<Rightarrow> bool" where
  "is_valid_protocol p \<longleftrightarrow> p = ICMP \<or> p = UDP \<or> p = ICMP6"

definition checksum_carry :: "u32 \<Rightarrow> u32" where
  "checksum_carry c = (c AND 0xffff) + drop_bit 16 c"

text \<open>\<open>ip4_checksum\<close> reads two bytes at a time; on a packet of odd length the last access fails its assertion.\<close>

fun ip4_sum :: "bytes \<Rightarrow> u32 \<Rightarrow> u32 result" where
  "ip4_sum [] c = Inr c"
| "ip4_sum [b] c = Inl Assert_failed"
| "ip4_sum (a # b # bs) c = ip4_sum bs (checksum_carry (c + ucast (ntohs (get_u16 [a, b]))))"

definition ip4_checksum :: "bytes \<Rightarrow> u16 result" where
  "ip4_checksum packet = bindR (ip4_sum packet 0) (\<lambda>c. Inr (htons (ucast (NOT c))))"

definition header_length :: "bytes \<Rightarrow> nat result" where
  "header_length packet = bindR (read_at 0 1 packet) (\<lambda>b. Inr (unat (hd b AND 0xF) * 4))"

definition ip4_fill_checksum :: "bytes \<Rightarrow> bytes result" where
  "ip4_fill_checksum packet =
     bindR (header_length packet) (\<lambda>hl.
     bindR (write_at 10 (put_u16 0) packet) (\<lambda>p.
     bindR (slice_bytes 0 hl p) (\<lambda>h.
     bindR (ip4_checksum h) (\<lambda>c. write_at 10 (put_u16 c) p))))"

fun udp_sum :: "bytes \<Rightarrow> u32 \<Rightarrow> u32" where
  "udp_sum [] c = c"
| "udp_sum [b] c = checksum_carry (c + ucast b)"
| "udp_sum (a # b # bs) c = udp_sum bs (checksum_carry (c + ucast (get_u16 [a, b])))"

text \<open>
  The pseudo header is the source and destination address, the protocol and the length. \<open>packet.slice(header_length)\<close>
  is \<open>drop\<close>; the unchecked slice beyond the end of a short packet is left undefined by \<open>Inl\<close>.
\<close>

definition udp4_fill_checksum :: "bytes \<Rightarrow> bytes result" where
  "udp4_fill_checksum packet =
     bindR (header_length packet) (\<lambda>hl.
       if length packet < hl then Inl Undefined_behaviour
       else let payload = drop hl packet in
       if length payload < 16 then Inr packet
       else bindR (write_at 6 (put_u16 0) payload) (\<lambda>pl.
            bindR (slice_bytes 12 8 packet) (\<lambda>addrs.
              let c = udp_sum addrs 0;
                  c = checksum_carry (c + ucast (htons (of_nat UDP)));
                  c = checksum_carry (c + ucast (htons (of_nat (length payload))));
                  c = udp_sum pl c;
                  c = (if c = 0xFFFF then 0 else c)
              in bindR (write_at 6 (put_u16 (NOT (ucast c))) pl) (\<lambda>pl'. Inr (take hl packet @ pl')))))"

section \<open>The packet stream\<close>

definition MAX_TUN_QUEUE_SIZE :: nat where "MAX_TUN_QUEUE_SIZE = 64"

record raw_packet_stream =
  is_server :: bool
  tun_alive :: bool
  tun_out :: "bytes list"
  from_tun_queue :: "bytes list"
  ip4 :: IpAddress
  recv_calls :: nat

definition RawPacketStream_init :: "bool \<Rightarrow> raw_packet_stream" where
  "RawPacketStream_init srv = \<lparr>is_server = srv, tun_alive = False, tun_out = [], from_tun_queue = [],
     ip4 = IpAddress_make4 0, recv_calls = 0\<rparr>"

text \<open>\<open>inet_addr\<close> turns the textual address into its network order representation; it is a parameter.\<close>

definition RawPacketStream_set_tun :: "(string \<Rightarrow> u32) \<Rightarrow> string \<Rightarrow> raw_packet_stream \<Rightarrow> raw_packet_stream" where
  "RawPacketStream_set_tun inet_addr ip r = r\<lparr>tun_alive := True, ip4 := IpAddress_make4 (inet_addr ip)\<rparr>"

text \<open>\<open>prepare_tun_packet\<close> works in place: the result is whether the packet is to be sent, and the buffer.\<close>

definition prepare_ip4 :: "raw_packet_stream \<Rightarrow> bytes \<Rightarrow> bytes result" where
  "prepare_ip4 r packet =
     bindR (write_at (if is_server r then 12 else 16) (put_u32 (addr4 (ip4 r))) packet) (\<lambda>p.
     bindR (ip4_fill_checksum p) (\<lambda>p.
     bindR (read_at 9 1 p) (\<lambda>proto.
       if unat (hd proto) = UDP then udp4_fill_checksum p else Inr p)))"

definition RawPacketStream_prepare_tun_packet :: "raw_packet_stream \<Rightarrow> bytes \<Rightarrow> (bool \<times> bytes) result" where
  "RawPacketStream_prepare_tun_packet r buffer =
     bindR (write_at 0 (put_u16 1) buffer) (\<lambda>buffer.
       let packet = drop 4 buffer in
       if length packet < 20 then Inr (False, buffer)
       else bindR (read_at 0 1 packet) (\<lambda>b.
         let version = unat (drop_bit 4 (hd b)) in
         if version = 4 then
           bindR (prepare_ip4 r packet) (\<lambda>p.
           bindR (write_at 2 (put_u16 (htons 0x0800)) (take 4 buffer)) (\<lambda>h. Inr (True, h @ p)))
         else if version = 6 then
           bindR (write_at 2 (put_u16 (htons 0x86DD)) buffer) (\<lambda>buffer. Inr (True, buffer))
         else Inr (False, buffer)))"

text \<open>The output buffer has 4096 bytes; its first four are the header of the tun device.\<close>

definition RawPacketStream_send :: "raw_packet_stream \<Rightarrow> bytes \<Rightarrow> raw_packet_stream result" where
  "RawPacketStream_send r data =
     (if length data > 4096 - 4 then Inr r
      else bindR (RawPacketStream_prepare_tun_packet r (replicate 4 0 @ data)) (\<lambda>(ok, packet).
        Inr (if ok \<and> tun_alive r then r\<lparr>tun_out := tun_out r @ [packet]\<rparr> else r)))"

definition RawPacketStream_recv :: "raw_packet_stream \<Rightarrow> bytes option \<times> raw_packet_stream" where
  "RawPacketStream_recv r = (case from_tun_queue r of
       [] \<Rightarrow> (None, r)
     | p # ps \<Rightarrow> (Some p, r\<lparr>from_tun_queue := ps\<rparr>))"

definition RawPacketStream_check_udp :: "raw_packet_stream \<Rightarrow> bytes \<Rightarrow> bool result" where
  "RawPacketStream_check_udp r payload =
     (if is_server r then Inr True
      else if length payload < 8 then Inr False
      else bindR (read_at 2 2 payload) (\<lambda>p. Inr (unat (ntohs (get_u16 p)) \<noteq> 443)))"

definition from_tun_enqueue :: "bytes \<Rightarrow> raw_packet_stream \<Rightarrow> raw_packet_stream" where
  "from_tun_enqueue packet r =
     (if length (from_tun_queue r) \<le> MAX_TUN_QUEUE_SIZE then
        let r1 = r\<lparr>from_tun_queue := from_tun_queue r @ [packet]\<rparr> in
        if length (from_tun_queue r1) = 1 then r1\<lparr>recv_calls := recv_calls r1 + 1\<rparr> else r1
      else r)"

definition RawPacketStream_from_tun :: "bytes \<Rightarrow> raw_packet_stream \<Rightarrow> (bool \<times> raw_packet_stream) result" where
  "RawPacketStream_from_tun packet r =
     (if length packet < 20 then Inr (False, r)
      else bindR (read_at 0 1 packet) (\<lambda>b.
        if unat (drop_bit 4 (hd b)) = 4 then
          bindR (header_length packet) (\<lambda>hl.
            if length packet < hl then Inr (False, r)
            else bindR (read_at 9 1 packet) (\<lambda>pr.
              let protocol = unat (hd pr) in
              if protocol = TCP then Inr (False, r)
              else if \<not> is_valid_protocol protocol then Inr (False, r)
              else if protocol = UDP then
                bindR (RawPacketStream_check_udp r (drop hl packet)) (\<lambda>ok.
                  Inr (True, if ok then from_tun_enqueue packet r else r))
              else Inr (True, from_tun_enqueue packet r)))
        else Inr (False, r)))"

section \<open>One's complement sums\<close>

text \<open>Both sums fold the 16-bit words of the data, big-endian in one and little-endian in the other.\<close>

fun be_words :: "bytes \<Rightarrow> nat list" where
  "be_words (a # b # bs) = (unat a * 256 + unat b) # be_words bs"
| "be_words [b] = [unat b * 256]"
| "be_words [] = []"

fun le_words :: "bytes \<Rightarrow> nat list" where
  "le_words (a # b # bs) = (unat a + 256 * unat b) # le_words bs"
| "le_words [b] = [unat b]"
| "le_words [] = []"

definition oc_add :: "u32 \<Rightarrow> nat \<Rightarrow> u32" where
  "oc_add c w = checksum_carry (c + of_nat w)"

lemma unat_u8: "unat (b :: u8) < 256"
  using unat_less_2p [of b] by simp

lemma get_u16_pair: "get_u16 [a, b] = of_nat (unat a + 256 * unat b)"
  by (simp add: get_u16_def)

lemma unat_get_u16_pair: "unat (get_u16 [a, b]) = unat a + 256 * unat b"
proof -
  have "unat a + 256 * unat b < 2 ^ 16" using unat_u8 [of a] unat_u8 [of b] by simp
  then show ?thesis unfolding get_u16_pair by (subst unat_of_nat) (rule mod_less, simp only: len_num0 len_bit0 len_num1, simp)
qed

lemma unat_ntohs_pair: "unat (ntohs (get_u16 [a, b])) = unat a * 256 + unat b"
proof -
  have "length [a, b] = 2" "from_le [a, b] = unat (get_u16 [a, b])" by (simp_all add: unat_get_u16_pair)
  then have "to_le 2 (unat (get_u16 [a, b])) = [a, b]" using to_le_from_le [of "[a, b]"] by metis
  then have "htons (get_u16 [a, b]) = get_u16 [b, a]" by (simp add: htons_def get_u16_def)
  then show ?thesis by (simp add: unat_get_u16_pair)
qed

lemma ucast_u16: "ucast (w :: u16) = (of_nat (unat w) :: u32)"
  by simp

lemma ip4_sum_fold: "even (length bs) \<Longrightarrow> ip4_sum bs c = Inr (foldl oc_add c (be_words bs))"
  by (induction bs c rule: ip4_sum.induct) (simp_all only: ip4_sum.simps be_words.simps foldl.simps oc_add_def
      ucast_u16 unat_ntohs_pair, simp_all)

lemma udp_sum_fold: "udp_sum bs c = foldl oc_add c (le_words bs)"
proof (induction bs c rule: udp_sum.induct)
  case (3 a b bs c)
  have "(ucast (get_u16 [a, b]) :: u32) = of_nat (unat a + 256 * unat b)"
    by (simp only: ucast_u16 unat_get_u16_pair)
  with 3 show ?case by (simp only: udp_sum.simps le_words.simps foldl.simps oc_add_def)
qed (simp_all add: oc_add_def)

lemma words_bound: "\<forall>w \<in> set (be_words bs). w \<le> 65535" "\<forall>w \<in> set (le_words bs). w \<le> 65535"
proof -
  have "unat a * 256 + unat b \<le> 65535" "unat a + 256 * unat b \<le> 65535" "unat b * 256 \<le> 65535" "unat b \<le> 65535" for a b :: u8
    using unat_u8 [of a] unat_u8 [of b] by linarith+
  then show "\<forall>w \<in> set (be_words bs). w \<le> 65535" "\<forall>w \<in> set (le_words bs). w \<le> 65535"
    by (induction bs rule: be_words.induct; simp)+
qed

lemma words_append:
  "even (length xs) \<Longrightarrow> be_words (xs @ ys) = be_words xs @ be_words ys"
  "even (length xs) \<Longrightarrow> le_words (xs @ ys) = le_words xs @ le_words ys"
  by (induction xs rule: be_words.induct; simp)+

text \<open>One step with its carry: the sum modulo 65535, zero only if both terms are.\<close>

lemma oc_add_law:
  assumes "unat c \<le> 65535" "w \<le> 65535"
  shows "unat (oc_add c w) = (if unat c + w \<le> 65535 then unat c + w else unat c + w - 65535)"
proof -
  have s: "unat (c + of_nat w) = unat c + w" using assms by (simp add: unat_word_ariths unat_of_nat)
  have "unat ((c + of_nat w) AND 0xffff) = (unat c + w) mod 65536"
  proof -
    have "(0xffff :: u32) = mask 16" by (simp add: mask_eq_exp_minus_1)
    then have "(c + of_nat w) AND 0xffff = take_bit 16 (c + of_nat w)" by (simp only: take_bit_eq_mask)
    then have "unat ((c + of_nat w) AND 0xffff) = take_bit 16 (unat (c + of_nat w))" by (simp only: unsigned_take_bit_eq)
    also have "\<dots> = (unat c + w) mod 65536" unfolding s by (simp add: take_bit_eq_mod)
    finally show ?thesis .
  qed
  moreover have "unat (drop_bit 16 (c + of_nat w)) = (unat c + w) div 65536"
    unfolding unat_drop_bit_eq s by (simp add: drop_bit_eq_div)
  moreover have "(unat c + w) mod 65536 + (unat c + w) div 65536 = (if unat c + w \<le> 65535 then unat c + w else unat c + w - 65535)"
    using assms by (auto simp: le_mod_geq le_div_geq)
  ultimately show ?thesis using assms
    by (simp add: oc_add_def checksum_carry_def unat_word_ariths)
qed

lemma foldl_oc_add:
  assumes "unat c \<le> 65535" "\<forall>w \<in> set ws. w \<le> 65535"
  shows "unat (foldl oc_add c ws) \<le> 65535 \<and> unat (foldl oc_add c ws) mod 65535 = (unat c + sum_list ws) mod 65535
     \<and> (unat (foldl oc_add c ws) = 0 \<longleftrightarrow> unat c + sum_list ws = 0)"
  using assms
proof (induction ws arbitrary: c)
  case (Cons w ws)
  have s: "unat (oc_add c w) = (if unat c + w \<le> 65535 then unat c + w else unat c + w - 65535)"
    by (rule oc_add_law) (use Cons.prems in simp_all)
  then have "unat (oc_add c w) \<le> 65535" "unat (oc_add c w) = 0 \<longleftrightarrow> unat c + w = 0" using Cons.prems by (auto split: if_splits)
  moreover have "(unat (oc_add c w) + sum_list ws) mod 65535 = (unat c + (w + sum_list ws)) mod 65535"
  proof (cases "unat c + w \<le> 65535")
    case False
    then have e: "unat c + (w + sum_list ws) = unat (oc_add c w) + sum_list ws + 65535" unfolding s by simp
    show ?thesis unfolding e by (rule mod_add_self2 [symmetric])
  qed (simp add: s add.assoc)
  ultimately show ?case using Cons.IH [of "oc_add c w"] Cons.prems(2) by simp
qed simp

text \<open>A field that brings the sum to a positive multiple of 65535 makes the folded sum all ones.\<close>

lemma oc_sum_closes:
  assumes "\<forall>w \<in> set ws. w \<le> 65535" "sum_list ws mod 65535 = 0" "0 < sum_list ws"
  shows "foldl oc_add 0 ws = 0xFFFF"
proof -
  let ?r = "unat (foldl oc_add 0 ws)"
  have "unat (0 :: u32) \<le> 65535" "unat (0 :: u32) + sum_list ws = sum_list ws" by simp_all
  note z = this(2)
  note f = foldl_oc_add [OF \<open>unat (0 :: u32) \<le> 65535\<close> assms(1), unfolded z]
  have "?r \<noteq> 0" using f assms(3) by linarith
  moreover have "?r \<le> 65535" "?r mod 65535 = 0" using f assms(2) by linarith+
  ultimately have "?r \<le> 65535" "?r mod 65535 = 0" "?r \<noteq> 0" by simp_all
  then have "?r = 65535" by (metis le_neq_implies_less mod_less)
  then show ?thesis by (simp add: word_unat_eq_iff)
qed

lemma unat_low_byte: "unat (ucast (w :: u16) :: u8) = unat w mod 256"
  by (simp add: unsigned_ucast_eq take_bit_eq_mod)

lemma be_words_put: "be_words (put_u16 (htons w)) = [unat w]"
proof -
  have "put_u16 (htons w) = rev (to_le 2 (unat w))" by (simp add: put_u16_def to_le_htons)
  moreover have "to_le 2 n = [of_nat n, of_nat (n div 256)]" for n by (simp add: numeral_2_eq_2)
  moreover have "unat w < 65536" using unat_less_2p [of w] by simp
  ultimately show ?thesis by (simp add: unat_byte_of_nat unat_low_byte)
qed

lemma le_words_put: "le_words (put_u16 w) = [unat w]"
proof -
  have "put_u16 w = [of_nat (unat w), of_nat (unat w div 256)]" by (simp add: put_u16_def numeral_2_eq_2)
  moreover have "unat w < 65536" using unat_less_2p [of w] by simp
  ultimately show ?thesis by (simp add: unat_byte_of_nat unat_low_byte)
qed

lemma unat_not_u16:
  assumes "unat (c :: u32) \<le> 65535"
  shows "unat (ucast (NOT c) :: u16) = 65535 - unat c" "unat (NOT (ucast c) :: u16) = 65535 - unat c"
proof -
  have u: "unat (ucast c :: u16) = unat c" using assms by (simp add: unsigned_ucast_eq take_bit_nat_eq_self)
  have "unat (NOT (w :: u16)) = 65535 - unat w" for w
  proof -
    have "NOT w = - 1 - w" by (simp add: not_eq_complement)
    moreover have "unat (- 1 :: u16) = 65535" by (simp add: unsigned_minus_1_eq_mask mask_eq_exp_minus_1)
    ultimately show ?thesis using unat_sub [of w "- 1"] by simp
  qed
  then show r: "unat (NOT (ucast c) :: u16) = 65535 - unat c" by (simp add: u)
  have "(ucast (NOT c) :: u16) = NOT (ucast c)" by (rule bit_word_eqI) (simp add: bit_simps)
  then show "unat (ucast (NOT c) :: u16) = 65535 - unat c" by (simp only: r)
qed

section \<open>Filling in the checksums\<close>

lemma put_u16_0: "put_u16 0 = [0, 0]"
  by (simp add: put_u16_def numeral_2_eq_2)

lemma write_at_ok: "pos + length v \<le> length bs \<Longrightarrow> write_at pos v bs = Inr (take pos bs @ v @ drop (pos + length v) bs)"
  by (simp add: write_at_def)

lemma header_length_even: "header_length p = Inr hl \<Longrightarrow> even hl"
  by (auto simp: header_length_def result_simps)

lemma header_length_take: "0 < n \<Longrightarrow> take n p = take n q \<Longrightarrow> n \<le> length p \<Longrightarrow> n \<le> length q \<Longrightarrow> header_length p = header_length q"
  by (cases p; cases q; cases n) (simp_all add: header_length_def read_at_def)

lemma ip4_fill_law:
  assumes "header_length p = Inr hl" "12 \<le> hl" "hl \<le> length p"
  shows "\<exists>p'. ip4_fill_checksum p = Inr p' \<and> length p' = length p \<and> take 10 p' = take 10 p \<and> drop 12 p' = drop 12 p
     \<and> foldl oc_add 0 (be_words (take hl p')) = 0xFFFF"
proof -
  let ?a = "take 10 p" and ?b = "drop 12 p"
  let ?h = "?a @ [0, 0] @ take (hl - 12) ?b"
  have len: "length ?a = 10" "length ?b = length p - 12" using assms by simp_all
  have ev: "even (length ?h)" "even (length ?a)" using assms header_length_even [OF assms(1)] by simp_all
  define c where "c = foldl oc_add 0 (be_words ?h)"
  let ?w = "ucast (NOT c) :: u16"
  let ?p' = "?a @ put_u16 (htons ?w) @ ?b"
  have w1: "write_at 10 (put_u16 0) p = Inr (?a @ [0, 0] @ ?b)" using assms by (simp add: write_at_ok put_u16_0)
  moreover have "hl - 10 = Suc (Suc (hl - 12))" using assms by simp
  then have "slice_bytes 0 hl (?a @ [0, 0] @ ?b) = Inr ?h" using assms len by (simp add: slice_bytes_def assertR_def)
  moreover have "ip4_checksum ?h = Inr (htons ?w)" unfolding ip4_checksum_def ip4_sum_fold [OF ev(1)] c_def by simp
  moreover have "write_at 10 (put_u16 (htons ?w)) (?a @ [0, 0] @ ?b) = Inr ?p'"
    using assms len by (simp add: write_at_ok)
  ultimately have "ip4_fill_checksum p = Inr ?p'" using assms(1) by (simp add: ip4_fill_checksum_def)
  moreover have "foldl oc_add 0 (be_words (take hl ?p')) = 0xFFFF"
  proof (rule oc_sum_closes)
    have t: "take hl ?p' = ?a @ put_u16 (htons ?w) @ take (hl - 12) ?b" using assms len by simp
    have e: "even (length (put_u16 (htons ?w)))" "even (length [0 :: u8, 0])" by simp_all
    let ?S = "sum_list (be_words ?a) + sum_list (be_words (take (hl - 12) ?b))"
    have z: "unat (0 :: u32) \<le> 65535" by simp
    have "sum_list (be_words ?h) = ?S" unfolding words_append(1) [OF ev(2)] words_append(1) [OF e(2)] by simp
    with foldl_oc_add [OF z words_bound(1), of ?h] have c: "unat c \<le> 65535" "unat c mod 65535 = ?S mod 65535"
      "unat c = 0 \<longleftrightarrow> ?S = 0" by (simp_all only: c_def unsigned_0 add_0)
    have s: "sum_list (be_words (take hl ?p')) = ?S + (65535 - unat c)"
      unfolding t words_append(1) [OF ev(2)] words_append(1) [OF e(1)] be_words_put unat_not_u16(1) [OF c(1)] by simp
    have "(?S + (65535 - unat c)) mod 65535 = (unat c + (65535 - unat c)) mod 65535"
      by (rule mod_add_cong [OF c(2) [symmetric] refl])
    then show "sum_list (be_words (take hl ?p')) mod 65535 = 0" unfolding s using c(1) by simp
    have "unat c = 0" if "?S = 0" using c(3) that by (simp only:)
    then show "0 < sum_list (be_words (take hl ?p'))" unfolding s using c(1) by linarith
  qed (rule words_bound)
  ultimately show ?thesis using len assms by (intro exI [of _ ?p']) simp
qed

definition udp_pseudo_sum :: "bytes \<Rightarrow> nat \<Rightarrow> u32" where
  "udp_pseudo_sum packet n = foldl oc_add 0 (le_words (take 8 (drop 12 packet)) @ [unat (htons (of_nat UDP)), unat (htons (of_nat n))])"

lemma udp4_fill_law:
  assumes "header_length p = Inr hl" "20 \<le> hl" "hl + 16 \<le> length p"
  shows "\<exists>pl'. udp4_fill_checksum p = Inr (take hl p @ pl') \<and> length pl' = length p - hl
     \<and> take 6 pl' = take 6 (drop hl p) \<and> drop 8 pl' = drop (hl + 8) p \<and> get_u16 (drop 6 pl') \<noteq> 0
     \<and> udp_sum pl' (udp_pseudo_sum p (length pl')) = 0xFFFF"
proof -
  let ?pl = "drop hl p"
  let ?a = "take 6 ?pl" and ?b = "drop 8 ?pl" and ?addrs = "take 8 (drop 12 p)"
  let ?pre = "le_words ?addrs @ [unat (htons (of_nat UDP)), unat (htons (of_nat (length ?pl)))]"
  let ?z = "?a @ [0, 0] @ ?b"
  have len: "length ?a = 6" "length ?b = length p - hl - 8" "length ?pl = length p - hl" using assms by simp_all
  define c where "c = foldl oc_add 0 (?pre @ le_words ?z)"
  let ?c = "if c = 0xFFFF then 0 else c"
  let ?w = "NOT (ucast ?c) :: u16"
  let ?q = "?a @ put_u16 ?w @ ?b"
  have "write_at 6 (put_u16 0) ?pl = Inr ?z" using assms by (simp add: write_at_ok put_u16_0)
  moreover have "slice_bytes 12 8 p = Inr ?addrs" using assms by (simp add: slice_bytes_def)
  moreover have "udp_sum ?z (checksum_carry (checksum_carry (udp_sum ?addrs 0 + ucast (htons (of_nat UDP)))
      + ucast (htons (of_nat (length ?pl))))) = c"
    by (simp only: c_def udp_sum_fold foldl_append foldl.simps oc_add_def ucast_u16)
  moreover have "write_at 6 (put_u16 ?w) ?z = Inr ?q" using assms len by (simp add: write_at_ok)
  moreover have "\<not> length p < hl" "\<not> length ?pl < 16" using assms by simp_all
  ultimately have r: "udp4_fill_checksum p = Inr (take hl p @ ?q)"
    using assms(1) unfolding udp4_fill_checksum_def Let_def by (simp only: bindR_Inr if_False)
  have bound: "\<forall>w \<in> set (?pre @ le_words bs). w \<le> 65535" for bs
    using words_bound(2) unat_less_2p [of "htons (of_nat UDP)"] unat_less_2p [of "htons (of_nat (length ?pl))"]
    by (auto simp: less_Suc_eq_le)
  let ?S = "sum_list ?pre + (sum_list (le_words ?a) + sum_list (le_words ?b))"
  have ev: "even (length ?a)" "even (length [0 :: u8, 0])" "even (length (put_u16 ?w))" using len by simp_all
  have z: "unat (0 :: u32) \<le> 65535" by simp
  have "sum_list (?pre @ le_words ?z) = ?S" unfolding words_append(2) [OF ev(1)] words_append(2) [OF ev(2)] by simp
  with foldl_oc_add [OF z bound, of ?z] have c: "unat c \<le> 65535" "unat c mod 65535 = ?S mod 65535"
    by (simp_all only: c_def unsigned_0 add_0)
  have c': "unat ?c \<le> 65535" "unat ?c mod 65535 = ?S mod 65535" "unat ?c \<noteq> 65535"
    using c by (auto simp: word_unat_eq_iff)
  note w = unat_not_u16(2) [OF c'(1)]
  have "foldl oc_add 0 (?pre @ le_words ?q) = 0xFFFF"
  proof (rule oc_sum_closes [OF bound])
    have s: "sum_list (?pre @ le_words ?q) = ?S + (65535 - unat ?c)"
      unfolding words_append(2) [OF ev(1)] words_append(2) [OF ev(3)] le_words_put w by simp
    have "(?S + (65535 - unat ?c)) mod 65535 = (unat ?c + (65535 - unat ?c)) mod 65535"
      by (rule mod_add_cong [OF c'(2) [symmetric] refl])
    then show "sum_list (?pre @ le_words ?q) mod 65535 = 0" unfolding s using c'(1) by simp
    show "0 < sum_list (?pre @ le_words ?q)" unfolding s using c'(1,3) by linarith
  qed
  moreover have "length ?q = length ?pl" using assms len by simp
  ultimately have "udp_sum ?q (udp_pseudo_sum p (length ?q)) = 0xFFFF"
    by (simp only: udp_sum_fold udp_pseudo_sum_def foldl_append)
  moreover have "get_u16 (drop 6 ?q) = ?w" using len by simp
  moreover have "?w \<noteq> 0" using w c'(1,3) by (metis diff_is_0_eq le_antisym unsigned_0)
  ultimately show ?thesis using r assms len
    by (intro exI [of _ ?q]) (simp add: add.commute)
qed

lemma nth_9: "take 10 p = take 10 q \<Longrightarrow> p ! 9 = q ! 9"
proof -
  assume "take 10 p = take 10 q"
  then have "take 10 p ! 9 = take 10 q ! 9" by (simp only:)
  then show ?thesis by simp
qed

lemma take_drop_take: "i + n \<le> hl \<Longrightarrow> take n (drop i (take hl xs)) = take n (drop i xs)"
  by (simp add: drop_take min_def)

text \<open>Two packets that agree before \<open>a\<close> and from \<open>b\<close> on agree at every place outside.\<close>

lemma nth_outside:
  assumes "take a x = take a y" "drop b x = drop b y" "length x = length y" "i < a \<or> b \<le> i" "i < length x"
  shows "x ! i = y ! i"
proof (cases "i < a")
  case True
  then have "x ! i = take a x ! i" "y ! i = take a y ! i" using assms(3,5) by simp_all
  with assms(1) show ?thesis by simp
next
  case False
  with assms(4) obtain j where j: "i = b + j" by (auto simp: le_iff_add)
  then have "x ! i = drop b x ! j" "y ! i = drop b y ! j" using assms(3,5) by simp_all
  with assms(2) show ?thesis by simp
qed

lemma prepare_header:
  assumes "header_length p = Inr hl" "20 \<le> length p" "pos \<in> {12, 16}" "p1 = take pos p @ put_u32 a @ drop (pos + 4) p"
  shows "write_at pos (put_u32 a) p = Inr p1" "header_length p1 = Inr hl" "length p1 = length p" "p1 ! 9 = p ! 9"
    "take 4 (drop pos p1) = put_u32 a" "take pos p1 = take pos p" "drop (pos + 4) p1 = drop (pos + 4) p"
proof -
  show "take pos p1 = take pos p" "drop (pos + 4) p1 = drop (pos + 4) p" using assms by auto
  show "write_at pos (put_u32 a) p = Inr p1" using assms by (auto simp: write_at_ok)
  have t: "take 10 p1 = take 10 p" using assms by auto
  show l: "length p1 = length p" using assms by auto
  show "header_length p1 = Inr hl" using header_length_take [OF _ t] assms l by simp
  show "p1 ! 9 = p ! 9" by (rule nth_9 [OF t])
  show "take 4 (drop pos p1) = put_u32 a" using assms by auto
qed

text \<open>
  The packet that goes to the tun device: the address of the interface in place of the source (on the server) or the
  destination (on the client), and both checksums right. The places that may change are those of the address, of the
  header checksum and, in a UDP packet, of the UDP checksum.
\<close>

definition rewritten :: "raw_packet_stream \<Rightarrow> nat \<Rightarrow> bytes \<Rightarrow> nat set" where
  "rewritten r hl p = {10, 11} \<union> (if is_server r then {12, 13, 14, 15} else {16, 17, 18, 19})
     \<union> (if unat (p ! 9) = UDP then {hl + 6, hl + 7} else {})"

lemma prepare_ip4_law:
  assumes "header_length p = Inr hl" "20 \<le> hl" "hl \<le> length p" "unat (p ! 9) = UDP \<Longrightarrow> hl + 16 \<le> length p"
  shows "\<exists>q. prepare_ip4 r p = Inr q \<and> length q = length p
     \<and> take 4 (drop (if is_server r then 12 else 16) q) = put_u32 (addr4 (ip4 r))
     \<and> ip4_sum (take hl q) 0 = Inr 0xFFFF
     \<and> (unat (p ! 9) = UDP \<longrightarrow> udp_sum (drop hl q) (udp_pseudo_sum q (length q - hl)) = 0xFFFF)
     \<and> (\<forall>i < length p. i \<notin> rewritten r hl p \<longrightarrow> q ! i = p ! i)"
proof -
  let ?pos = "if is_server r then 12 else 16 :: nat" and ?a = "addr4 (ip4 r)"
  define p1 where "p1 = take ?pos p @ put_u32 ?a @ drop (?pos + 4) p"
  have "?pos \<in> {12, 16}" "20 \<le> length p" using assms by auto
  note p1 = prepare_header [OF assms(1) this(2,1) p1_def]
  from ip4_fill_law [OF p1(2)] assms p1(3) obtain p2 where
    p2: "ip4_fill_checksum p1 = Inr p2" "length p2 = length p" "take 10 p2 = take 10 p1" "drop 12 p2 = drop 12 p1"
      "foldl oc_add 0 (be_words (take hl p2)) = 0xFFFF" by auto
  have ev: "even (length (take hl p2))" using header_length_even [OF assms(1)] assms p2(2) by simp
  have nine: "p2 ! 9 = p ! 9" using nth_9 [OF p2(3)] p1(4) by simp
  have hl2: "header_length p2 = Inr hl" using header_length_take [OF _ p2(3)] p1 p2(2) assms by simp
  have "drop ?pos x = drop (?pos - 12) (drop 12 x)" for x :: bytes by simp
  then have "drop ?pos p2 = drop ?pos p1" by (simp only: p2(4))
  then have addr: "take 4 (drop ?pos p2) = put_u32 ?a" using p1(5) by simp
  have proto: "read_at 9 1 p2 = Inr [p ! 9]" using p2(2) assms nine
    by (simp add: read_at_def take_Suc_conv_app_nth One_nat_def)
  have keep: "p2 ! i = p ! i" if "i < length p" "i \<notin> rewritten r hl p" for i
  proof -
    have "p2 ! i = p1 ! i" by (rule nth_outside [OF p2(3,4)]) (use that p1(3) p2(2) in \<open>auto simp: rewritten_def\<close>)
    also have "\<dots> = p ! i" by (rule nth_outside [OF p1(6,7,3)]) (use that p1(3) in \<open>auto simp: rewritten_def split: if_splits\<close>)
    finally show ?thesis .
  qed
  show ?thesis
  proof (cases "unat (p ! 9) = UDP")
    case False
    then have "prepare_ip4 r p = Inr p2" using p1(1) p2(1) proto by (simp add: prepare_ip4_def)
    then show ?thesis using p2(2,5) addr False ip4_sum_fold [OF ev] keep by simp
  next
    case True
    from udp4_fill_law [OF hl2 assms(2)] assms(4) [OF True] p2(2) obtain pl where
      u: "udp4_fill_checksum p2 = Inr (take hl p2 @ pl)" "length pl = length p - hl"
        "udp_sum pl (udp_pseudo_sum p2 (length pl)) = 0xFFFF"
      "take 6 pl = take 6 (drop hl p2)" "drop 8 pl = drop (hl + 8) p2" by auto
    define q where "q = take hl p2 @ pl"
    have qs: "take hl q = take hl p2" "drop hl q = pl" "length q = length p" using u(2) p2(2) assms by (simp_all add: q_def)
    have "take 8 (drop 12 q) = take 8 (drop 12 p2)" "take 4 (drop ?pos q) = take 4 (drop ?pos p2)"
      using assms(2,3) p2(2) by (simp_all add: q_def take_drop_take)
    then have "udp_pseudo_sum q n = udp_pseudo_sum p2 n" "take 4 (drop ?pos q) = put_u32 ?a" for n
      using addr by (simp_all add: udp_pseudo_sum_def)
    moreover have "prepare_ip4 r p = Inr q" using p1(1) p2(1) proto u(1) True by (simp add: prepare_ip4_def q_def)
    moreover have "q ! i = p ! i" if "i < length p" "i \<notin> rewritten r hl p" for i
    proof -
      have "take (hl + 6) q = take (hl + 6) p2" "drop (hl + 8) q = drop (hl + 8) p2"
        using assms(2,3) p2(2) u(2,4,5) by (simp_all add: q_def take_add)
      then have "q ! i = p2 ! i"
        by (rule nth_outside) (use that qs(3) p2(2) True in \<open>auto simp: rewritten_def\<close>)
      with keep [OF that] show ?thesis by simp
    qed
    ultimately show ?thesis using qs u(2,3) p2(5) ip4_sum_fold [OF ev] by (intro exI [of _ q]) simp
  qed
qed

lemma tun_header:
  "write_at 0 (put_u16 1) (replicate 4 0 @ data) = Inr ([1, 0, 0, 0] @ data)"
  "write_at 2 (put_u16 (htons 0x0800)) [1, 0, 0, 0] = Inr [1, 0, 8, 0]"
proof -
  have r: "replicate 4 (0 :: u8) = [0, 0, 0, 0]" by (simp add: eval_nat_numeral)
  have p: "put_u16 1 = [1, 0]" by (simp add: put_u16_def numeral_2_eq_2)
  show "write_at 0 (put_u16 1) (replicate 4 0 @ data) = Inr ([1, 0, 0, 0] @ data)" unfolding r p by (simp add: write_at_def)
  have "to_le 2 2048 = [0, 8 :: u8]" by (simp add: to_le_numeral)
  then have "put_u16 (htons 0x0800) = [8, 0]" unfolding put_u16_def to_le_htons by simp
  then show "write_at 2 (put_u16 (htons 0x0800)) [1, 0, 0, 0] = Inr [1, 0, 8, 0]" by (simp add: write_at_ok)
qed

lemma prepare_tun_ip4:
  assumes "20 \<le> length data" "unat (drop_bit 4 (hd data)) = 4"
  shows "RawPacketStream_prepare_tun_packet r (replicate 4 0 @ data)
    = bindR (prepare_ip4 r data) (\<lambda>q. Inr (True, [1, 0, 8, 0] @ q))"
proof -
  have "read_at 0 1 data = Inr [hd data]" using assms(1) by (cases data) (simp_all add: read_at_def)
  with assms tun_header show ?thesis by (simp add: RawPacketStream_prepare_tun_packet_def Let_def)
qed

lemma check_udp_returns: "\<exists>ok. RawPacketStream_check_udp r payload = Inr ok"
  by (cases "length payload < 8") (auto simp: RawPacketStream_check_udp_def read_at_def)

section \<open>Properties\<close>

text \<open>C22: a well-formed IPv4 packet from the channel (its header lies within the packet; a UDP datagram has at least eight
  bytes of data) reaches the tun device once, behind the device's header, with the interface's address in place, a valid
  header checksum, and for UDP a valid checksum over pseudo header and payload. Every other byte of the packet, of its
  header as of its payload, is as it came.\<close>

theorem RawPacketStream_send_ip4:
  assumes "header_length data = Inr hl" "20 \<le> hl" "hl \<le> length data" "length data \<le> 4092"
    and "unat (drop_bit 4 (hd data)) = 4" "unat (data ! 9) = UDP \<Longrightarrow> hl + 16 \<le> length data" "tun_alive r"
  shows "\<exists>q. RawPacketStream_send r data = Inr (r\<lparr>tun_out := tun_out r @ [[1, 0, 8, 0] @ q]\<rparr>) \<and> length q = length data
     \<and> take 4 (drop (if is_server r then 12 else 16) q) = put_u32 (addr4 (ip4 r))
     \<and> ip4_sum (take hl q) 0 = Inr 0xFFFF
     \<and> (unat (data ! 9) = UDP \<longrightarrow> udp_sum (drop hl q) (udp_pseudo_sum q (length q - hl)) = 0xFFFF)
     \<and> (\<forall>i < length data. i \<notin> rewritten r hl data \<longrightarrow> q ! i = data ! i)"
proof -
  from prepare_ip4_law [OF assms(1-3,6), of r] obtain q where
    q: "prepare_ip4 r data = Inr q" "length q = length data"
      "take 4 (drop (if is_server r then 12 else 16) q) = put_u32 (addr4 (ip4 r))"
      "ip4_sum (take hl q) 0 = Inr 0xFFFF"
      "unat (data ! 9) = UDP \<longrightarrow> udp_sum (drop hl q) (udp_pseudo_sum q (length q - hl)) = 0xFFFF"
      "\<forall>i < length data. i \<notin> rewritten r hl data \<longrightarrow> q ! i = data ! i" by blast
  have "20 \<le> length data" using assms(2,3) by simp
  from prepare_tun_ip4 [OF this assms(5), of r] q(1) assms(4,7)
  have "RawPacketStream_send r data = Inr (r\<lparr>tun_out := tun_out r @ [[1, 0, 8, 0] @ q]\<rparr>)"
    by (simp add: RawPacketStream_send_def)
  with q(2-6) show ?thesis by blast
qed

definition example_icmp :: bytes where
  "example_icmp = [0x45, 0, 0, 20, 0, 1, 0, 0, 64, 1, 0, 0, 10, 0, 0, 1, 10, 0, 0, 2]"

definition example_raw :: raw_packet_stream where
  "example_raw = RawPacketStream_set_tun (\<lambda>_. 0x0100007F) ''127.0.0.1'' (RawPacketStream_init True)"

theorem RawPacketStream_send_ip4_witness:
  "\<exists>q. RawPacketStream_send example_raw example_icmp = Inr (example_raw\<lparr>tun_out := [[1, 0, 8, 0] @ q]\<rparr>)
     \<and> ip4_sum (take 20 q) 0 = Inr 0xFFFF \<and> q ! 8 = 64 \<and> q ! 19 = 2"
proof -
  have h: "header_length example_icmp = Inr 20"
    by (simp add: header_length_def read_at_def example_icmp_def)
  have r: "tun_out example_raw = []" "tun_alive example_raw"
    by (simp_all add: example_raw_def RawPacketStream_set_tun_def RawPacketStream_init_def)
  have e: "length example_icmp = 20" "unat (drop_bit 4 (hd example_icmp)) = 4" "unat (example_icmp ! 9) \<noteq> UDP"
    "example_icmp ! 8 = 64" "example_icmp ! 19 = 2"
    by (simp_all add: example_icmp_def UDP_def drop_bit_eq_div)
  have w: "8 \<notin> rewritten example_raw 20 example_icmp" "19 \<notin> rewritten example_raw 20 example_icmp"
    using e(3) by (simp_all add: rewritten_def example_raw_def RawPacketStream_set_tun_def RawPacketStream_init_def)
  from RawPacketStream_send_ip4 [OF h _ _ _ e(2) _ r(2)] e r(1) w show ?thesis by auto
qed

text \<open>\<open>from_tun\<close> never fails. It refuses, unchanged, what is not IPv4, is malformed, is TCP or another protocol it does not
  carry; it accepts the rest and queues it at the end unless it drops it: the client's QUIC and truncated UDP packets, and
  everything once the queue is full, which is at one more than \<open>MAX_TUN_QUEUE_SIZE\<close>.\<close>

theorem RawPacketStream_from_tun_law:
  "\<exists>b r'. RawPacketStream_from_tun packet r = Inr (b, r')
     \<and> (b \<longleftrightarrow> 20 \<le> length packet \<and> unat (drop_bit 4 (hd packet)) = 4 \<and> unat (hd packet AND 0xF) * 4 \<le> length packet
           \<and> unat (packet ! 9) \<in> {1, 17, 58})
     \<and> from_tun_queue r' = from_tun_queue r @ (if b \<and> length (from_tun_queue r) \<le> 64
           \<and> \<not> (unat (packet ! 9) = 17 \<and> RawPacketStream_check_udp r (drop (unat (hd packet AND 0xF) * 4) packet) = Inr False)
         then [packet] else [])"
proof (cases "20 \<le> length packet")
  case False
  then show ?thesis by (intro exI [of _ False] exI [of _ r]) (simp add: RawPacketStream_from_tun_def)
next
  case True
  then have rd: "read_at 0 1 packet = Inr [hd packet]" "read_at 9 1 packet = Inr [packet ! 9]"
    by (cases packet; simp add: read_at_def take_Suc_conv_app_nth One_nat_def)+
  have hl: "header_length packet = Inr (unat (hd packet AND 0xF) * 4)" by (simp add: header_length_def rd del: One_nat_def)
  obtain ok where ok: "RawPacketStream_check_udp r (drop (unat (hd packet AND 0xF) * 4) packet) = Inr ok"
    using check_udp_returns by blast
  show ?thesis using True
    by (auto simp: RawPacketStream_from_tun_def rd hl ok Let_def TCP_def UDP_def ICMP_def ICMP6_def is_valid_protocol_def
        from_tun_enqueue_def MAX_TUN_QUEUE_SIZE_def simp del: One_nat_def)
qed

text \<open>\<open>prepare_tun_packet\<close> trusts the header length of the packet. A packet from the peer whose header would be longer than
  the packet fails an assertion; and a UDP datagram with less than eight bytes of data goes out with the checksum it
  had before its address was overwritten.\<close>

theorem RawPacketStream_send_trusts_header:
  assumes "20 \<le> length data" "length data \<le> 4092" "unat (drop_bit 4 (hd data)) = 4" "header_length data = Inr hl"
  shows "(length data < hl \<longrightarrow> RawPacketStream_send r data = Inl Assert_failed)
     \<and> (20 \<le> hl \<and> hl \<le> length data \<and> length data < hl + 16 \<and> unat (data ! 9) = UDP \<longrightarrow>
          (\<exists>q. prepare_ip4 r data = Inr q \<and> drop hl q = drop hl data))"
proof -
  let ?pos = "if is_server r then 12 else 16 :: nat" and ?a = "addr4 (ip4 r)"
  define p1 where "p1 = take ?pos data @ put_u32 ?a @ drop (?pos + 4) data"
  have pos: "?pos \<in> {12, 16}" by simp
  note p1 = prepare_header [OF assms(4,1) pos p1_def]
  have "RawPacketStream_send r data = Inl Assert_failed" if "length data < hl"
  proof -
    have "\<not> hl \<le> Suc (Suc (length data - 2))" using that assms(1) by simp
    then have "ip4_fill_checksum p1 = Inl Assert_failed"
      using that p1(2,3) assms(1) by (simp add: ip4_fill_checksum_def write_at_ok slice_bytes_def assertR_def)
    then have "prepare_ip4 r data = Inl Assert_failed" using p1(1) by (simp add: prepare_ip4_def)
    with prepare_tun_ip4 [OF assms(1,3), of r] assms(2) show ?thesis by (simp add: RawPacketStream_send_def)
  qed
  moreover have "\<exists>q. prepare_ip4 r data = Inr q \<and> drop hl q = drop hl data"
    if h: "20 \<le> hl" "hl \<le> length data" "length data < hl + 16" "unat (data ! 9) = UDP"
  proof -
    have "12 \<le> hl" "hl \<le> length p1" using h p1(3) by simp_all
    from ip4_fill_law [OF p1(2) this] obtain p2 where
      p2: "ip4_fill_checksum p1 = Inr p2" "length p2 = length data" "take 10 p2 = take 10 p1" "drop 12 p2 = drop 12 p1"
      using p1(3) by auto
    have hl2: "header_length p2 = Inr hl" using header_length_take [OF _ p2(3)] p1 p2(2) assms by simp
    have nine: "p2 ! 9 = data ! 9" using nth_9 [OF p2(3)] p1(4) by simp
    have "read_at 9 1 p2 = Inr [data ! 9]" using p2(2) assms nine
      by (simp add: read_at_def take_Suc_conv_app_nth One_nat_def)
    moreover have "length data - hl < 16" using h(2,3) by linarith
    then have "udp4_fill_checksum p2 = Inr p2" using hl2 h p2(2) by (simp add: udp4_fill_checksum_def Let_def)
    ultimately have "prepare_ip4 r data = Inr p2" using p1(1) p2(1) h(4) by (simp add: prepare_ip4_def)
    moreover have "drop hl p2 = drop hl p1" 
    proof -
      have "drop hl x = drop (hl - 12) (drop 12 x)" for x :: bytes using h(1) by simp
      then show ?thesis by (simp only: p2(4))
    qed
    moreover have "drop hl p1 = drop hl data" using h(1) assms(1) by (auto simp: p1_def)
    ultimately show ?thesis by auto
  qed
  ultimately show ?thesis by blast
qed

theorem RawPacketStream_send_trusts_header_witness:
  "RawPacketStream_send example_raw (0x4F # tl example_icmp) = Inl Assert_failed"
proof -
  let ?d = "0x4F # tl example_icmp"
  have h: "header_length ?d = Inr 60" by (simp add: header_length_def read_at_def)
  have "length ?d = 20" "unat (drop_bit 4 (hd ?d)) = 4" by (simp_all add: example_icmp_def drop_bit_eq_div)
  with RawPacketStream_send_trusts_header [OF _ _ _ h, of example_raw] show ?thesis by simp
qed

end
