(* ===== verification/Terminate.thy ===== *)
theory Terminate
  imports Transport Ip
begin

text \<open>
  \<^verbatim>\<open>terminate/terminate.cpp\<close> and \<^verbatim>\<open>terminate_misc.h\<close>: TCP connections and raw packets carried over a transport.

  The sending side announces a connection by a header packet, which \<open>ReadHeaderPacketStream\<close> puts in front of the packets of the
  connection; the receiving side's \<open>HeaderPacketStream\<close> takes the first packet as the header, asks for a connection with
  it and passes everything after it on. Strings are byte strings. The futures of \<open>TCP::connect\<close> are the
  \<open>target_future\<close> of the transport: completed, failed or pending, a pending one completing later. \<open>hevents\<close> records the
  calls of the three callbacks.
\<close>

section \<open>Streams with a header\<close>

datatype header_event = Header_send_ready | Header_recv_ready | Header_error

record 't header_stream =
  hnew :: "'t option"
  hcallback :: bool
  hfailed :: bool
  hheader :: "bytes option"
  hevents :: "header_event list"

definition HeaderPacketStream_init :: "'t header_stream" where
  "HeaderPacketStream_init = \<lparr>hnew = None, hcallback = True, hfailed = False, hheader = None, hevents = []\<rparr>"

text \<open>The continuations of the callback's future.\<close>

definition HeaderPacketStream_connected :: "'t packet_ops \<Rightarrow> 't \<Rightarrow> 't header_stream \<Rightarrow> 't header_stream" where
  "HeaderPacketStream_connected tops t h =
     (if hfailed h then h\<lparr>hnew := Some (pclose tops t)\<rparr>
      else h\<lparr>hnew := Some t, hevents := hevents h @ [Header_send_ready, Header_recv_ready]\<rparr>)"

definition HeaderPacketStream_failed :: "'t header_stream \<Rightarrow> 't header_stream" where
  "HeaderPacketStream_failed h = h\<lparr>hfailed := True, hevents := hevents h @ [Header_error]\<rparr>"

definition HeaderPacketStream_send :: "'t packet_ops \<Rightarrow> (bytes \<Rightarrow> 't target_future) \<Rightarrow> 't header_stream \<Rightarrow> bytes \<Rightarrow> 't header_stream result" where
  "HeaderPacketStream_send tops callback h data = (case hnew h of
       Some t \<Rightarrow> bindR (psend tops t data) (\<lambda>t'. Inr (h\<lparr>hnew := Some t'\<rparr>))
     | None \<Rightarrow> assertR (hcallback h)
         (let h1 = h\<lparr>hheader := Some data\<rparr>;
              h2 = (case callback data of
                      Completed t \<Rightarrow> HeaderPacketStream_connected tops t h1
                    | Failed \<Rightarrow> HeaderPacketStream_failed h1
                    | Pending \<Rightarrow> h1)
          in Inr (h2\<lparr>hcallback := False\<rparr>)))"

definition HeaderPacketStream_is_send_ready :: "'t packet_ops \<Rightarrow> 't header_stream \<Rightarrow> bool" where
  "HeaderPacketStream_is_send_ready tops h = (case hnew h of Some t \<Rightarrow> pis_send_ready tops t | None \<Rightarrow> hcallback h)"

definition HeaderPacketStream_recv :: "'t packet_ops \<Rightarrow> 't header_stream \<Rightarrow> (bytes option \<times> 't header_stream) result" where
  "HeaderPacketStream_recv tops h = (case hnew h of
       Some t \<Rightarrow> bindR (precv tops t) (\<lambda>(r, t'). Inr (r, h\<lparr>hnew := Some t'\<rparr>))
     | None \<Rightarrow> Inr (None, h))"

definition HeaderPacketStream_close :: "'t packet_ops \<Rightarrow> 't header_stream \<Rightarrow> 't header_stream" where
  "HeaderPacketStream_close tops h = h\<lparr>hfailed := True, hnew := map_option (pclose tops) (hnew h)\<rparr>"

definition HeaderPacketStream_ops :: "'t packet_ops \<Rightarrow> (bytes \<Rightarrow> 't target_future) \<Rightarrow> 't header_stream packet_ops" where
  "HeaderPacketStream_ops tops callback =
     \<lparr>precv = HeaderPacketStream_recv tops, psend = HeaderPacketStream_send tops callback,
      pis_send_ready = HeaderPacketStream_is_send_ready tops, pclose = HeaderPacketStream_close tops\<rparr>"

record 't read_header_stream =
  rheader :: bytes
  rnew :: 't
  header_recved :: bool

definition ReadHeaderPacketStream_init :: "bytes \<Rightarrow> 't \<Rightarrow> 't read_header_stream" where
  "ReadHeaderPacketStream_init header t = \<lparr>rheader = header, rnew = t, header_recved = False\<rparr>"

definition ReadHeaderPacketStream_recv :: "'t packet_ops \<Rightarrow> 't read_header_stream \<Rightarrow> (bytes option \<times> 't read_header_stream) result" where
  "ReadHeaderPacketStream_recv tops h =
     (if \<not> header_recved h then Inr (Some (rheader h), h\<lparr>header_recved := True\<rparr>)
      else bindR (precv tops (rnew h)) (\<lambda>(r, t'). Inr (r, h\<lparr>rnew := t'\<rparr>)))"

definition ReadHeaderPacketStream_ops :: "'t packet_ops \<Rightarrow> 't read_header_stream packet_ops" where
  "ReadHeaderPacketStream_ops tops =
     \<lparr>precv = ReadHeaderPacketStream_recv tops,
      psend = (\<lambda>h data. bindR (psend tops (rnew h) data) (\<lambda>t. Inr (h\<lparr>rnew := t\<rparr>))),
      pis_send_ready = (\<lambda>h. pis_send_ready tops (rnew h)),
      pclose = (\<lambda>h. h\<lparr>rnew := pclose tops (rnew h)\<rparr>)\<rparr>"

section \<open>Header lines\<close>

definition TCP_TAG :: bytes where "TCP_TAG = [116, 99, 112]"

fun to_string :: "nat \<Rightarrow> bytes" where
  "to_string n = (if n < 10 then [of_nat (48 + n)] else to_string (n div 10) @ [of_nat (48 + n mod 10)])"

declare to_string.simps [simp del]

definition isdigit :: "u8 \<Rightarrow> bool" where
  "isdigit c \<longleftrightarrow> 48 \<le> c \<and> c \<le> 57"

definition isspace :: "u8 \<Rightarrow> bool" where
  "isspace c \<longleftrightarrow> c = 32 \<or> (9 \<le> c \<and> c \<le> 13)"

definition digits_value :: "bytes \<Rightarrow> nat" where
  "digits_value ds = foldl (\<lambda>a d. a * 10 + (unat d - 48)) 0 ds"

text \<open>\<open>std::stoi\<close>: white space, a sign, as many digits as there are; without digits or out of range it throws.\<close>

definition stoi :: "bytes \<Rightarrow> int result" where
  "stoi s = (let t = dropWhile isspace s;
       neg = (t \<noteq> [] \<and> hd t = 45);
       u = (if t \<noteq> [] \<and> (hd t = 45 \<or> hd t = 43) then tl t else t);
       ds = takeWhile isdigit u;
       v = (if neg then - int (digits_value ds) else int (digits_value ds))
     in if ds = [] \<or> v < - (2 ^ 31) \<or> 2 ^ 31 \<le> v then Inl (Thrown ''stoi'') else Inr v)"

definition tcp_header :: "bytes \<Rightarrow> nat \<Rightarrow> bytes" where
  "tcp_header addr port = TCP_TAG @ [10] @ addr @ [58] @ to_string port"

datatype target_request = Connect bytes int | Refuse string

text \<open>
  \<open>create_target_2\<close> up to the connection. A header without a newline makes \<open>type_len\<close> its length, and \<open>substr\<close> beyond the end
  throws.
\<close>

definition Terminator_create_target_2 :: "bytes \<Rightarrow> target_request result" where
  "Terminator_create_target_2 header =
     (let type = takeWhile (\<lambda>c. c \<noteq> 10) header; type_len = length type in
      if type_len + 1 > length header then Inl (Thrown ''out_of_range'')
      else let rest = drop (type_len + 1) header in
        if type = TCP_TAG then
          (if 58 \<notin> set rest then Inr (Refuse ''bad tcp address format'')
           else let addr = takeWhile (\<lambda>c. c \<noteq> 58) rest in
             case stoi (drop (length addr + 1) rest) of
               Inl _ \<Rightarrow> Inr (Refuse ''bad tcp port format'')
             | Inr port \<Rightarrow> Inr (Connect addr port))
        else Inr (Refuse ''unknown stream type''))"

section \<open>The terminator\<close>

record terminator =
  tis_server :: bool
  id_counter :: u64
  raw_stream :: raw_packet_stream

definition Terminator_create :: "bool \<Rightarrow> terminator" where
  "Terminator_create srv = \<lparr>tis_server = srv, id_counter = (if \<not> srv then 100 else push_bit 1 1 + 100),
     raw_stream = RawPacketStream_init srv\<rparr>"

definition Terminator_create_target :: "u64 \<Rightarrow> terminator \<Rightarrow> 't header_stream target_future" where
  "Terminator_create_target chan t =
     (if ((chan AND push_bit 63 1) \<noteq> 0) \<noteq> (\<not> tis_server t) then Failed else Completed HeaderPacketStream_init)"

text \<open>The channel and the stream a connection accepted from the tun device is added to the transport with.\<close>

definition Terminator_tcp_accepted :: "IpAddress \<Rightarrow> nat \<Rightarrow> 't \<Rightarrow> terminator \<Rightarrow> (u64 \<times> 't read_header_stream \<times> terminator) result" where
  "Terminator_tcp_accepted ip port conn t =
     bindR (IpAddress_to_string ip) (\<lambda>addr.
       Inr (id_counter t, ReadHeaderPacketStream_init (tcp_header addr port) conn, t\<lparr>id_counter := id_counter t + 1\<rparr>))"

text \<open>\<open>set_transport\<close>: the raw packets are channel 0 on both ends. \<open>wrap\<close> makes the raw stream one of the transport's targets.\<close>

definition Terminator_set_transport ::
    "nat \<Rightarrow> 'n packet_ops \<Rightarrow> 't packet_ops \<Rightarrow> (raw_packet_stream \<Rightarrow> 't) \<Rightarrow> terminator \<Rightarrow> ('n, 't) transport \<Rightarrow> ('n, 't) transport result" where
  "Terminator_set_transport fuel nops tops wrap t tr = Transport_add_target fuel nops tops 0 (Completed (wrap (raw_stream t))) tr"

text \<open>The commands \<open>set_tun\<close> runs to configure the device, each of which has to succeed.\<close>

definition set_tun_commands :: "bytes \<Rightarrow> bytes \<Rightarrow> bool \<Rightarrow> bytes list list" where
  "set_tun_commands dev ip srv =
     (let word = map (map (\<lambda>c. of_nat (of_char c))) in
      [word [''ip'', ''link'', ''set'', ''dev''] @ [dev] @ word [''up''],
       if srv then word [''ip'', ''route'', ''add''] @ [ip] @ word [''dev''] @ [dev]
       else word [''ip'', ''addr'', ''add'', ''dev''] @ [dev] @ [ip]])"

text \<open>
  \<open>tun_recv_ready\<close> over the packets the device has: what the raw stream refuses goes, with the device's header, to the TCP stack.
\<close>

fun Terminator_tun_recv_ready :: "bytes list \<Rightarrow> raw_packet_stream \<Rightarrow> (bytes list \<times> raw_packet_stream) result" where
  "Terminator_tun_recv_ready [] r = Inr ([], r)"
| "Terminator_tun_recv_ready (p # ps) r =
     (if length p < 4 then Inl Undefined_behaviour
      else bindR (RawPacketStream_from_tun (drop 4 p) r) (\<lambda>(taken, r1).
        bindR (Terminator_tun_recv_ready ps r1) (\<lambda>(lwip, r2).
          Inr (if taken then lwip else p # lwip, r2))))"

section \<open>Laws of the header streams\<close>

context packet_source
begin

definition read_header_inbox :: "'p read_header_stream \<Rightarrow> bytes list" where
  "read_header_inbox h = (if header_recved h then [] else [rheader h]) @ inbox (rnew h)"

lemma read_header_source: "packet_source (ReadHeaderPacketStream_ops pops) (\<lambda>h. pinv (rnew h)) read_header_inbox"
proof
  fix h :: "'p read_header_stream" assume h: "pinv (rnew h)"
  show "\<exists>r h'. precv (ReadHeaderPacketStream_ops pops) h = Inr (r, h') \<and> pinv (rnew h')
      \<and> read_header_inbox h = (case r of None \<Rightarrow> [] | Some d \<Rightarrow> [d]) @ read_header_inbox h'"
  proof (cases "header_recved h")
    case False
    with h show ?thesis by (simp add: ReadHeaderPacketStream_ops_def ReadHeaderPacketStream_recv_def read_header_inbox_def)
  next
    case True
    from precv_law [OF h] obtain r p' where "precv pops (rnew h) = Inr (r, p')" "pinv p'"
      "inbox (rnew h) = (case r of None \<Rightarrow> [] | Some d \<Rightarrow> [d]) @ inbox p'" by blast
    with True show ?thesis
      by (auto simp: ReadHeaderPacketStream_ops_def ReadHeaderPacketStream_recv_def read_header_inbox_def)
  qed
qed

end

interpretation announced: packet_source
  "ReadHeaderPacketStream_ops (LengthPacketStream_ops (FD_ops sock_kernel 0 :: (nat, sock) reactor stream_ops))"
  "\<lambda>h. sock.fd_stream.length_inv (rnew h)" sock.fd_stream.length_stream.read_header_inbox
  by (rule sock.fd_stream.length_stream.read_header_source)

text \<open>
  The life of a header stream: packets are sent while it is ready, the connection its header asked for is made later if it
  was not at once, and the connection changes by itself as \<open>mv\<close> allows. The labels are the packets accepted.
\<close>

inductive header_step :: "'t packet_ops \<Rightarrow> (bytes \<Rightarrow> 't target_future) \<Rightarrow> ('t \<Rightarrow> bool) \<Rightarrow> ('t \<Rightarrow> 't \<Rightarrow> bool) \<Rightarrow> 't header_stream \<Rightarrow>
    bytes list \<Rightarrow> 't header_stream \<Rightarrow> bool"
  for tops :: "'t packet_ops" and callback :: "bytes \<Rightarrow> 't target_future" and fresh :: "'t \<Rightarrow> bool" and mv :: "'t \<Rightarrow> 't \<Rightarrow> bool" where
  header_send: "HeaderPacketStream_is_send_ready tops h \<Longrightarrow> HeaderPacketStream_send tops callback h d = Inr h' \<Longrightarrow>
    header_step tops callback fresh mv h [d] h'"
| header_connected: "hheader h = Some d \<Longrightarrow> hnew h = None \<Longrightarrow> callback d = Pending \<Longrightarrow> fresh t \<Longrightarrow> \<not> hfailed h \<Longrightarrow>
    header_step tops callback fresh mv h [] (HeaderPacketStream_connected tops t h)"
| header_failed: "hheader h = Some d \<Longrightarrow> hnew h = None \<Longrightarrow> callback d = Pending \<Longrightarrow>
    header_step tops callback fresh mv h [] (HeaderPacketStream_failed h)"
| header_moves: "hnew h = Some t \<Longrightarrow> mv t t' \<Longrightarrow> header_step tops callback fresh mv h [] (h\<lparr>hnew := Some t'\<rparr>)"

inductive header_trace :: "'t packet_ops \<Rightarrow> (bytes \<Rightarrow> 't target_future) \<Rightarrow> ('t \<Rightarrow> bool) \<Rightarrow> ('t \<Rightarrow> 't \<Rightarrow> bool) \<Rightarrow> bytes list \<Rightarrow>
    't header_stream \<Rightarrow> bool"
  for tops :: "'t packet_ops" and callback :: "bytes \<Rightarrow> 't target_future" and fresh :: "'t \<Rightarrow> bool" and mv :: "'t \<Rightarrow> 't \<Rightarrow> bool" where
  header_nil: "header_trace tops callback fresh mv [] HeaderPacketStream_init"
| header_snoc: "header_trace tops callback fresh mv ds h \<Longrightarrow> header_step tops callback fresh mv h e h' \<Longrightarrow>
    header_trace tops callback fresh mv (ds @ e) h'"

context packet_sink
begin

definition header_inv :: "'o list \<Rightarrow> bytes list \<Rightarrow> 'p header_stream \<Rightarrow> bool" where
  "header_inv base ds h \<longleftrightarrow> (case hnew h of
       None \<Rightarrow> if hcallback h then ds = [] \<and> hheader h = None \<and> \<not> hfailed h else (\<exists>d. ds = [d] \<and> hheader h = Some d)
     | Some t \<Rightarrow> pinv t \<and> \<not> hcallback h \<and> (\<exists>d ds'. ds = d # ds' \<and> hheader h = Some d \<and> emitted t = base @ concat (map enc ds')))"

lemma header_step_law:
  assumes "header_step pops callback (\<lambda>t. pinv t \<and> emitted t = base) mv h e h'" "header_inv base ds h"
    and "\<And>t t'. pinv t \<Longrightarrow> mv t t' \<Longrightarrow> pinv t' \<and> emitted t' = emitted t"
    and "\<And>d t. callback d = Completed t \<Longrightarrow> pinv t \<and> emitted t = base" "\<forall>d \<in> set e. length d \<le> mtu"
  shows "header_inv base (ds @ e) h'"
  using assms(1)
proof cases
  case (header_send d)
  show ?thesis
  proof (cases "hnew h")
    case None
    with header_send assms(2) have "ds = []" "hcallback h" "\<not> hfailed h"
      by (auto simp: HeaderPacketStream_is_send_ready_def header_inv_def split: if_splits)
    with None header_send assms(4) [of d] show ?thesis
      by (auto simp: HeaderPacketStream_send_def Let_def header_inv_def HeaderPacketStream_connected_def
          HeaderPacketStream_failed_def result_simps split: target_future.splits)
  next
    case (Some t)
    with header_send assms(2) obtain x xs where t: "pinv t" "pis_send_ready pops t" "ds = x # xs" "hheader h = Some x"
      "emitted t = base @ concat (map enc xs)" "\<not> hcallback h"
      by (auto simp: HeaderPacketStream_is_send_ready_def header_inv_def)
    have "length d \<le> mtu" using assms(5) header_send by simp
    from psend_law [OF t(1,2) this] obtain t' where "psend pops t d = Inr t'" "pinv t'" "emitted t' = emitted t @ enc d" by blast
    with Some header_send t show ?thesis by (auto simp: HeaderPacketStream_send_def header_inv_def)
  qed
next
  case (header_connected d t)
  with assms(2) show ?thesis by (auto simp: header_inv_def HeaderPacketStream_connected_def split: if_splits)
next
  case (header_failed d)
  with assms(2) show ?thesis by (auto simp: header_inv_def HeaderPacketStream_failed_def split: if_splits)
next
  case (header_moves t t')
  with assms(2,3) show ?thesis by (auto simp: header_inv_def)
qed

lemma header_trace_law:
  assumes "header_trace pops callback (\<lambda>t. pinv t \<and> emitted t = base) mv ds h"
    and "\<And>t t'. pinv t \<Longrightarrow> mv t t' \<Longrightarrow> pinv t' \<and> emitted t' = emitted t"
    and "\<And>d t. callback d = Completed t \<Longrightarrow> pinv t \<and> emitted t = base" "\<forall>d \<in> set ds. length d \<le> mtu"
  shows "header_inv base ds h"
  using assms(1,4)
proof (induction rule: header_trace.induct)
  case header_nil
  show ?case by (simp add: header_inv_def HeaderPacketStream_init_def)
next
  case (header_snoc ds h e h')
  then show ?case using header_step_law [OF header_snoc.hyps(2) _ assms(2,3)] by auto
qed

end

section \<open>Decimal numbers\<close>

lemma unat_digit: "n < 10 \<Longrightarrow> unat (of_nat (48 + n) :: u8) = 48 + n"
  by (simp add: unat_of_nat del: of_nat_add)

lemma to_string_law: "digits_value (to_string n) = n \<and> (\<forall>c \<in> set (to_string n). isdigit c) \<and> to_string n \<noteq> []"
proof (induction n rule: to_string.induct)
  case (1 n)
  have dig: "isdigit (of_nat (48 + k))" if "k < 10" for k
    using unat_digit [OF that] that by (simp add: isdigit_def word_le_nat_alt del: of_nat_add)
  show ?case
  proof (cases "n < 10")
    case True
    then show ?thesis using dig [OF True] unat_digit [OF True]
      by (simp add: to_string.simps [of n] digits_value_def del: of_nat_add)
  next
    case False
    have m: "n mod 10 < 10" by simp
    from False 1 show ?thesis using dig [OF m] unat_digit [OF m]
      by (simp add: to_string.simps [of n] digits_value_def del: of_nat_add)
  qed
qed

lemma stoi_to_string:
  assumes "n < 2 ^ 31"
  shows "stoi (to_string n) = Inr (int n)"
proof -
  note t = to_string_law [of n]
  have d: "takeWhile isdigit (to_string n) = to_string n" using t by (simp add: takeWhile_eq_all_conv)
  have h: "isdigit (hd (to_string n))" using t by simp
  then have "\<not> isspace (hd (to_string n))" "hd (to_string n) \<noteq> 45" "hd (to_string n) \<noteq> 43"
    by (auto simp: isdigit_def isspace_def word_le_nat_alt)
  moreover from this have "dropWhile isspace (to_string n) = to_string n" using t by (cases "to_string n") auto
  ultimately show ?thesis using assms t by (simp add: stoi_def Let_def d)
qed

section \<open>Properties\<close>

text \<open>C17: a header stream loses nothing. Whether its connection is made at once or later, the first packet sent while it is
  ready is the header, nothing is accepted until the connection exists, and exactly the packets after the header are sent to the
  connection, in order.\<close>

theorem HeaderPacketStream_routes:
  assumes "packet_sink tops tinv emitted enc room mtu"
    and "\<And>t t'. tinv t \<Longrightarrow> mv t t' \<Longrightarrow> tinv t' \<and> emitted t' = emitted t"
    and "\<And>d t. callback d = Completed t \<Longrightarrow> tinv t \<and> emitted t = base"
    and "header_trace tops callback (\<lambda>t. tinv t \<and> emitted t = base) mv ds h" "\<forall>d \<in> set ds. length d \<le> mtu"
  shows "(case hnew h of None \<Rightarrow> length ds \<le> 1 \<and> (HeaderPacketStream_is_send_ready tops h \<longleftrightarrow> ds = [])
     | Some t \<Rightarrow> ds \<noteq> [] \<and> emitted t = base @ concat (map enc (tl ds)))
     \<and> hheader h = (if ds = [] then None else Some (hd ds))"
proof -
  have "packet_sink.header_inv tinv emitted enc base ds h"
    by (rule packet_sink.header_trace_law [OF assms(1,4,2,3,5)])
  then show ?thesis
    by (auto simp: packet_sink.header_inv_def [OF assms(1)] HeaderPacketStream_is_send_ready_def split: option.splits if_splits)
qed

theorem HeaderPacketStream_routes_witness:
  "\<exists>h t. header_trace example_tops (\<lambda>d. Completed example_target)
       (\<lambda>t. sock.fd_stream.length_inv t \<and> sock.fd_stream.writer_sent t = []) (\<lambda>t t'. False) [[7], [8]] h
     \<and> hheader h = Some [7] \<and> hnew h = Some t \<and> sock.fd_stream.writer_sent t = length_frame [8]"
proof -
  let ?fresh = "\<lambda>t. sock.fd_stream.length_inv t \<and> sock.fd_stream.writer_sent t = []"
  let ?cb = "\<lambda>d :: bytes. Completed example_target"
  let ?h1 = "\<lparr>hnew = Some example_target, hcallback = False, hfailed = False, hheader = Some [7],
      hevents = [Header_send_ready, Header_recv_ready]\<rparr>"
  let ?t2 = "schedule Run_write_ready (example_target\<lparr>send_buffer_current := length_frame [8]\<rparr>)"
  have "HeaderPacketStream_send example_tops ?cb HeaderPacketStream_init [7] = Inr ?h1"
    by (simp add: HeaderPacketStream_send_def HeaderPacketStream_init_def HeaderPacketStream_connected_def Let_def)
  from header_snoc [OF header_nil header_send [OF _ this]]
  have t1: "header_trace example_tops ?cb ?fresh (\<lambda>t t'. False) [[7]] ?h1"
    by (simp add: HeaderPacketStream_is_send_ready_def HeaderPacketStream_init_def)
  have "HeaderPacketStream_send example_tops ?cb ?h1 [8] = Inr (?h1\<lparr>hnew := Some ?t2\<rparr>)"
    by (simp add: HeaderPacketStream_send_def LengthPacketStream_ops_def LengthPacketStream_send_def
        LengthPacketStream_create_def FreeWriterPacketStream_is_send_ready_def FreeWriterPacketStream_send_with_offset_def
        AbstractPacketStream_send_def schedule_def length_frame_def PACKET_MTU_def)
  from header_snoc [OF t1 header_send [OF _ this]]
  have t2: "header_trace example_tops ?cb ?fresh (\<lambda>t t'. False) [[7], [8]] (?h1\<lparr>hnew := Some ?t2\<rparr>)"
    by (simp add: HeaderPacketStream_is_send_ready_def LengthPacketStream_ops_def FreeWriterPacketStream_is_send_ready_def
        LengthPacketStream_create_def)
  have fresh: "?fresh example_target"
    using example_target_ok by (simp add: sock.fd_stream.writer_sent_def LengthPacketStream_create_def sock_reactor_def)
  from HeaderPacketStream_routes [OF sock.fd_stream.length_stream.packet_sink_axioms _ _ t2] fresh t2 show ?thesis
    by (auto simp: PACKET_MTU_def)
qed

text \<open>C18: what one terminator announces the other one connects to: the address and port written into the header of an accepted
  connection are read back by \<open>create_target_2\<close>.\<close>

theorem Terminator_header_roundtrip:
  assumes "10 \<notin> set addr" "58 \<notin> set addr" "port < 65536"
  shows "Terminator_create_target_2 (tcp_header addr port) = Inr (Connect addr (int port))"
proof -
  have "takeWhile (\<lambda>c. c \<noteq> 10) (tcp_header addr port) = TCP_TAG" by (simp add: tcp_header_def TCP_TAG_def)
  moreover have "takeWhile (\<lambda>c. c \<noteq> 58) (addr @ 58 # to_string port) = addr"
    using assms(2) by (simp add: takeWhile_append)
  moreover have "stoi (to_string port) = Inr (int port)" by (rule stoi_to_string) (use assms(3) in simp)
  moreover have "length TCP_TAG = 3" by (simp add: TCP_TAG_def)
  ultimately show ?thesis
    by (simp add: Terminator_create_target_2_def Let_def tcp_header_def)
qed

theorem Terminator_header_roundtrip_witness:
  "Terminator_create_target_2 (tcp_header [49, 46, 50] 443) = Inr (Connect [49, 46, 50] 443)"
  using Terminator_header_roundtrip [of "[49, 46, 50]" 443] by simp

text \<open>The server's channels can never be opened. The identifiers a server's terminator hands out start at 102 instead of
  above \<open>2 ^ 63\<close>, so the client's \<open>create_target\<close> refuses each of the first \<open>2 ^ 62\<close> of them, and they are
  identifiers the client hands out itself; the client's own are accepted by the server.\<close>

theorem Terminator_server_channels_refused:
  assumes "n < 2 ^ 62"
  shows "Terminator_create_target (id_counter (Terminator_create True) + of_nat n) (Terminator_create False) = Failed
     \<and> id_counter (Terminator_create True) + of_nat n = id_counter (Terminator_create False) + of_nat (n + 2)
     \<and> Terminator_create_target (id_counter (Terminator_create False) + of_nat n) (Terminator_create True) = Completed HeaderPacketStream_init"
proof -
  have clear: "w AND push_bit 63 1 = 0" if "unat w < 2 ^ 63" for w :: u64
  proof -
    have "\<not> bit w 63"
    proof
      assume "bit w 63"
      then have "bit (unat w) 63" by (simp add: bit_unsigned_iff)
      then have "odd (unat w div 2 ^ 63)" unfolding bit_iff_odd .
      then show False unfolding div_less [OF that] by simp
    qed
    then show ?thesis unfolding bit_iff_and_push_bit_not_eq_0 by blast
  qed
  have "unat (102 + of_nat n :: u64) < 2 ^ 63" "unat (100 + of_nat n :: u64) < 2 ^ 63"
    using assms by (simp_all add: unat_word_ariths unat_of_nat)
  from this [THEN clear] show ?thesis
    by (simp add: Terminator_create_target_def Terminator_create_def)
qed

theorem Terminator_server_channels_refused_witness:
  "Terminator_create_target (id_counter (Terminator_create True) + of_nat 0) (Terminator_create False) = Failed"
  by (rule Terminator_server_channels_refused [THEN conjunct1]) simp

end
