(* ===== verification/Mux_Pair.thy ===== *)
theory Mux_Pair
  imports Multilink
begin

text \<open>
  Two multilinks joined by connections (\<^verbatim>\<open>multilink/multilink.cpp\<close> over \<^verbatim>\<open>multilink/multilink_link.cpp\<close>).

  A claim about single links, such as ``every data packet this link has framed was sent by the client'', carries over to all links
  of a multilink as long as each handler of a link keeps it. The locale \<open>link_claim\<close> states what such a claim has to satisfy and
  proves the step from one link to the multilink; two claims are shown to satisfy it, one for the sending end and one for the
  receiving end of a connection. Together they give that a multilink hands over only packets of its peer's client.
\<close>

section \<open>Runs of a multilink\<close>

text \<open>
  \<open>taken env m ds m'\<close>: between \<open>m\<close> and \<open>m'\<close> the multilink took exactly the packets \<open>ds\<close> from its client. A handler that may ask the
  client for packets always has such \<open>ds\<close>.
\<close>

definition taken :: "('s, 'c) multilink_env \<Rightarrow> ('s, 'c) multilink \<Rightarrow> bytes list \<Rightarrow> ('s, 'c) multilink \<Rightarrow> bool" where
  "taken env m ds m' \<longleftrightarrow> client_run env (mclient m) ds (mclient m') \<and> held m' = held m + mset ds"

text \<open>
  \<open>mux_step env C m ds got m'\<close>: one handler, in which the client sent \<open>ds\<close> and was handed \<open>got\<close>. New links are given streams that
  satisfy \<open>C\<close>.
\<close>

inductive mux_step :: "('s, 'c) multilink_env \<Rightarrow> ('s \<Rightarrow> bool) \<Rightarrow> ('s, 'c) multilink \<Rightarrow> bytes list \<Rightarrow> bytes list \<Rightarrow>
    ('s, 'c) multilink \<Rightarrow> bool" for env :: "('s, 'c) multilink_env" and C :: "'s \<Rightarrow> bool" where
  mux_send_ready: "Multilink_link_send_ready fuel env now i m = Inr m' \<Longrightarrow> taken env m ds m' \<Longrightarrow> mux_step env C m ds [] m'"
| mux_some_ready: "Multilink_some_link_send_ready fuel env now m = Inr m' \<Longrightarrow> taken env m ds m' \<Longrightarrow> mux_step env C m ds [] m'"
| mux_client: "call_on_send_ready env m = Inr m' \<Longrightarrow> taken env m ds m' \<Longrightarrow> mux_step env C m ds [] m'"
| mux_recv: "Multilink_recv env m = Inr (r, m') \<Longrightarrow> mux_step env C m [] (case r of None \<Rightarrow> [] | Some d \<Rightarrow> [d]) m'"
| mux_add_link: "C s \<Longrightarrow> Multilink_add_link s name f m = Inr (i, m') \<Longrightarrow> mux_step env C m [] [] m'"
| mux_link: "map_of (mlinks m) i = Some l \<Longrightarrow> link_step (eops env) l Quiet l' \<Longrightarrow>
    mux_step env C m [] [] (m\<lparr>mlinks := update_link i l' (mlinks m)\<rparr>)"

inductive mux_trace :: "('s, 'c) multilink_env \<Rightarrow> ('s \<Rightarrow> bool) \<Rightarrow> ('s, 'c) multilink \<Rightarrow> bytes list \<Rightarrow> bytes list \<Rightarrow>
    ('s, 'c) multilink \<Rightarrow> bool" for env :: "('s, 'c) multilink_env" and C :: "'s \<Rightarrow> bool" where
  mux_nil: "mux_trace env C m [] [] m"
| mux_snoc: "mux_trace env C m ds got n \<Longrightarrow> mux_step env C n es r k \<Longrightarrow> mux_trace env C m (ds @ es) (got @ r) k"

lemma mux_step_multilink_step: "mux_step env C m ds got m' \<Longrightarrow> \<exists>rel. multilink_step env m rel m'"
  by (induction rule: mux_step.induct) (auto intro: multilink_step.intros step_link_exists)

lemma mux_step_ok: "env_ok env \<Longrightarrow> mux_ok m \<Longrightarrow> mux_step env C m ds got m' \<Longrightarrow> mux_ok m'"
  using mux_step_multilink_step multilink_step_law by blast

lemma taken_exists: "conserves env m m' \<Longrightarrow> \<exists>ds. taken env m ds m'"
  by (auto simp: conserves_def taken_def)

section \<open>What a multilink holds, as a set\<close>

lemma set_mset_sum_list: "set_mset (\<Sum>x \<leftarrow> xs. g x) = (\<Union>x \<in> set xs. set_mset (g x))"
  by (induction xs) auto

lemma set_held:
  "set_mset (held m) = set (mqueue m) \<union> (\<Union>e \<in> set (mlinks m). set (assigned_packets m (fst e)))
     \<union> (\<Union>q \<in> (in_flight_queue \<circ> snd) ` set (mlinks m). pbuf ` set q)"
  by (auto simp: held_def set_mset_sum_list)

lemma assigned_held:
  assumes "mux_ok m" "d \<in> set (assigned_packets m i)"
  shows "d \<in># held m"
proof -
  have "i \<in> ids m" using assms by (cases "i \<in> ids m") (auto simp: mux_ok_def)
  with assms(2) show ?thesis by (auto simp: set_held ids_def)
qed

lemma conserves_held: "conserves env m m' \<Longrightarrow> set_mset (held m) \<subseteq> set_mset (held m')"
  by (auto simp: conserves_def)

lemma shuffle_set:
  assumes "env_ok env" shows "set (mlinks (Multilink_shuffle_links env m)) = set (mlinks m)"
proof -
  have "mset (random_shuffle env (mrand m) (mlinks m)) = mset (mlinks m)" using assms by (simp add: env_ok_def)
  from mset_eq_setD [OF this] show ?thesis by (simp add: Multilink_shuffle_links_def)
qed

section \<open>Claims about links\<close>

text \<open>
  A claim \<open>G P\<close> about a link whose packets come from \<open>P\<close>. It holds of a new link over a fresh stream, every handler keeps it, and a
  link that satisfies it holds only packets of \<open>R\<close> for its client.
\<close>

locale link_claim =
  fixes ops :: "'s stream_ops"
    and fresh :: "'s \<Rightarrow> bool"
    and G :: "bytes set \<Rightarrow> 's link \<Rightarrow> bool"
    and R :: "bytes set"
  assumes claim_mono: "G P l \<Longrightarrow> P \<subseteq> P' \<Longrightarrow> G P' l"
    and claim_init: "fresh s \<Longrightarrow> Link_init s = Inr l \<Longrightarrow> G P (l\<lparr>lname := n\<rparr>)"
    and claim_step: "G P l \<Longrightarrow> link_step ops l e l' \<Longrightarrow> snd ` set (accepted [e]) \<subseteq> P \<Longrightarrow> G P l'"
    and claim_waiting: "G P l \<Longrightarrow> set (waiting_list l) \<subseteq> R"

section \<open>The sending end\<close>

lemma parse_recv_packet_keeps:
  assumes "Link_parse_recv_packet now d l = Inr l'"
  shows "lstream l' = lstream l" "lsend_buffer_current l' = lsend_buffer_current l"
  using assms by (auto simp: Link_parse_recv_packet_def result_simps lschedule_def split: if_splits)

lemma parse_loop_keeps:
  "Link_parse_loop now l = Inr l' \<Longrightarrow> lstream l' = lstream l \<and> lsend_buffer_current l' = lsend_buffer_current l"
proof (induction now l rule: Link_parse_loop.induct)
  case (1 now l)
  show ?case
  proof (cases "waiting_recv_packet l")
    case (Some d)
    with 1(2) show ?thesis by (simp add: Link_parse_loop.simps [of now l])
  next
    case None
    with 1(2) obtain b m where m: "Link_try_parse_recv_packet now l = Inr (b, m)"
      "if b then Link_parse_loop now m = Inr l' else m = l'"
      by (auto simp: Link_parse_loop.simps [of now l] result_simps split: if_splits)
    from m(1) have "lstream m = lstream l \<and> lsend_buffer_current m = lsend_buffer_current l"
      by (auto simp: Link_try_parse_recv_packet_def Let_def result_simps parse_recv_packet_keeps split: if_splits)
    with m 1(1) [of "(b, m)"] None show ?thesis by (auto split: if_splits)
  qed
qed

text \<open>\<open>send_aux\<close> does nothing, or puts a ping or a pong into the empty send buffer.\<close>

lemmas send_aux_evals = Link_send_aux_def Link_send_pong_def Link_send_ping_def Link_raw_send_packet_def
  Link_format_send_packet_def lschedule_def LINK_MTU_def HEADER_SIZE_def

lemma send_aux_frame:
  assumes "Link_send_aux now l = Inr (b, l')"
  shows "lstream l' = lstream l"
    and "lsend_buffer_current l' = lsend_buffer_current l \<or> lsend_buffer_current l = []
      \<and> (\<exists>ty d. lsend_buffer_current l' = link_frame ty d \<and> ty \<noteq> 0 \<and> length d = 16)"
    and "\<not> b \<Longrightarrow> lsend_buffer_current l' = []"
proof -
  show "lstream l' = lstream l" "\<not> b \<Longrightarrow> lsend_buffer_current l' = []"
    using assms by (auto simp: send_aux_evals split: if_splits)
  have "\<exists>ty d. link_frame t e = link_frame ty d \<and> ty \<noteq> 0 \<and> length d = 16" if "t \<noteq> 0" "length e = 16" for t e
    using that by blast
  then show "lsend_buffer_current l' = lsend_buffer_current l \<or> lsend_buffer_current l = []
      \<and> (\<exists>ty d. lsend_buffer_current l' = link_frame ty d \<and> ty \<noteq> 0 \<and> length d = 16)"
    using assms by (auto simp: send_aux_evals split: if_splits)
qed

context byte_stream
begin

text \<open>Everything the link has framed so far is whole frames whose data is in \<open>P\<close>.\<close>

definition sends_only :: "bytes set \<Rightarrow> 's link \<Rightarrow> bool" where
  "sends_only P l \<longleftrightarrow> sinv (lstream l)
     \<and> (\<exists>gs. link_sent l = link_bytes gs \<and> (\<forall>g \<in> set gs. frame_ok g) \<and> set (data_of gs) \<subseteq> P)"

lemma sends_only_same:
  "sends_only P l \<Longrightarrow> lstream l' = lstream l \<Longrightarrow> lsend_buffer_current l' = lsend_buffer_current l \<Longrightarrow> sends_only P l'"
  by (simp add: sends_only_def link_sent_def)

lemma sends_only_frame:
  assumes "sends_only P l" "lsend_buffer_current l = []" "frame_ok (ty, d)" "ty = 0 \<Longrightarrow> d \<in> P"
    and "lstream l' = lstream l" "lsend_buffer_current l' = link_frame ty d"
  shows "sends_only P l'"
proof -
  from assms(1) obtain gs where gs: "sinv (lstream l)" "link_sent l = link_bytes gs" "\<forall>g \<in> set gs. frame_ok g"
    "set (data_of gs) \<subseteq> P" by (auto simp: sends_only_def)
  with assms(2-6) show ?thesis unfolding sends_only_def
    by (intro conjI exI [of _ "gs @ [(ty, d)]"]) (auto simp: link_sent_def)
qed

lemma send_aux_sends_only:
  assumes "sends_only P l" "Link_send_aux now l = Inr (b, l')" shows "sends_only P l'"
  using send_aux_frame(2) [OF assms(2)]
proof (elim disjE conjE exE)
  fix ty d assume "lsend_buffer_current l = []" "lsend_buffer_current l' = link_frame ty d" "ty \<noteq> 0" "length d = 16"
  with send_aux_frame(1) [OF assms(2)] show ?thesis
    by (intro sends_only_frame [OF assms(1)]) (auto simp: frame_ok_def LINK_MTU_def HEADER_SIZE_def)
qed (rule sends_only_same [OF assms(1) send_aux_frame(1) [OF assms(2)]])

lemma read_loop_sends_only: "sends_only P l \<Longrightarrow> Link_read_loop fuel sops now l = Inr l' \<Longrightarrow> sends_only P l'"
proof (induction fuel arbitrary: l)
  case (Suc fuel)
  from Suc.prems(1) have "sinv (lstream l)" by (simp add: sends_only_def)
  from sread_law [OF this, of "LINK_MTU - length (lrecv_buffer l)"] obtain d s where
    r: "sread sops (lstream l) (LINK_MTU - length (lrecv_buffer l)) = Inr (d, s)" "sinv s" "written s = written (lstream l)"
    by blast
  with Suc.prems(2) obtain m where m: "Link_parse_loop now (l\<lparr>lstream := s, lrecv_buffer := lrecv_buffer l @ d\<rparr>) = Inr m"
    "if d = [] then m = l' else Link_read_loop fuel sops now m = Inr l'"
    by (cases "d = []") (auto simp: result_simps)
  from parse_loop_keeps [OF m(1)] r Suc.prems(1) have "sends_only P m"
    by (simp add: sends_only_def link_sent_def)
  with m(2) Suc.IH show ?case by (auto split: if_splits)
qed simp

lemma write_ready_sends_only:
  assumes "sends_only P l" "Link_transport_write_ready sops is_real now l = Inr l'"
  shows "sends_only P l'"
proof (cases "timed_out l")
  case True
  with assms show ?thesis by (simp add: Link_transport_write_ready_def)
next
  case False
  from assms(1) have "sinv (lstream l)" by (simp add: sends_only_def)
  from write_loop_law [OF this] obtain s cur where
    w: "write_loop sops (lstream l) (lsend_buffer_current l) = Inr (s, cur)" "sinv s"
      "written s @ cur = written (lstream l) @ lsend_buffer_current l" by blast
  from assms(2) have "lstream l' = s" "lsend_buffer_current l' = cur"
    unfolding write_ready_unfold [OF False w(1)] bindR_eq_Inr by (auto simp: lschedule_def)
  with w assms(1) show ?thesis by (simp add: sends_only_def link_sent_def)
qed

lemma send_sends_only:
  assumes "sends_only P l" "Link_send now seq d l = Inr (b, l')" "b \<Longrightarrow> d \<in> P"
  shows "sends_only P l'"
proof (cases "timed_out l \<or> bufferbloat_avoidance l")
  case True
  with assms show ?thesis by (auto simp: Link_send_def split: if_splits)
next
  case False
  with assms(2) obtain busy m where m: "Link_send_aux now l = Inr (busy, m)"
    by (auto simp: Link_send_def result_simps)
  have sm: "sends_only P m" by (rule send_aux_sends_only [OF assms(1) m])
  show ?thesis
  proof (cases busy)
    case True
    with m False assms(2) sm show ?thesis by (simp add: Link_send_def)
  next
    case nb: False
    with assms(2) False m have "b" "length d + HEADER_SIZE \<le> LINK_MTU" "lstream l' = lstream m"
      "lsend_buffer_current l' = link_frame 0 d"
      by (auto simp: Link_send_def Link_raw_send_packet_def Link_format_send_packet_def result_simps
          lschedule_def split: if_splits)
    with sends_only_frame [OF sm send_aux_frame(3) [OF m nb], of 0 d l'] assms(3) show ?thesis
      by (simp add: frame_ok_def)
  qed
qed

lemma step_sends_only:
  assumes "sends_only P l" "link_step sops l e l'" "snd ` set (accepted [e]) \<subseteq> P"
  shows "sends_only P l'"
  using assms(2)
proof (rule link_stepE)
  fix fuel now assume "Link_transport_read_ready fuel sops now l = Inr l'"
  with assms(1) read_loop_sends_only show ?thesis by (auto simp: Link_transport_read_ready_def split: if_splits)
next
  fix now b assume "Link_on_send_ready_edge now l = Inr (b, l')"
  then obtain c where "Link_send_aux now (l\<lparr>send_buffer_edge := True\<rparr>) = Inr (c, l')"
    by (auto simp: Link_on_send_ready_edge_def result_simps)
  from send_aux_sends_only [OF _ this] sends_only_same [OF assms(1)] show ?thesis by simp
next
  fix now b assume "Link_send_aux now l = Inr (b, l')"
  then show ?thesis by (rule send_aux_sends_only [OF assms(1)])
next
  fix d assume "Link_recv l = (Some d, l')"
  then show ?thesis by (intro sends_only_same [OF assms(1)]) (auto simp: Link_recv_def Let_def lschedule_def split: if_splits)
next
  assume "Link_recv l = (None, l')"
  then show ?thesis by (intro sends_only_same [OF assms(1)]) (auto simp: Link_recv_def Let_def lschedule_def split: if_splits)
next
  fix now seq d assume "e = Accepted seq d" "Link_send now seq d l = Inr (True, l')"
  with assms(3) send_sends_only [OF assms(1)] show ?thesis by auto
next
  fix now seq d assume "Link_send now seq d l = Inr (False, l')"
  with send_sends_only [OF assms(1)] show ?thesis by auto
next
  fix is_real now assume "Link_transport_write_ready sops is_real now l = Inr l'"
  then show ?thesis by (rule write_ready_sends_only [OF assms(1)])
next
  fix now assume "Link_timer_callback now l = Inr l'"
  then consider "l' = l" | c m n where "Link_send_aux now l = Inr (c, m)" "Link_maybe_retransmit now m = Inr n"
      "l' = n\<lparr>ltimers := ltimers n @ [PING_INTERVAL]\<rparr>"
    by (auto simp: Link_timer_callback_def result_simps split: if_splits)
  then show ?thesis
  proof cases
    case 2
    show ?thesis
      by (rule sends_only_same [OF send_aux_sends_only [OF assms(1) 2(1)]])
        (use 2(2,3) in \<open>auto simp: Link_maybe_retransmit_def lschedule_def split: if_splits list.splits\<close>)
  qed (use assms(1) in simp)
qed

lemma fresh_sends_only:
  assumes "sinv s" "written s = []" "Link_init s = Inr l"
  shows "sends_only P (l\<lparr>lname := n\<rparr>)"
  using Link_init_law [of s] assms by (auto simp: sends_only_def link_sent_def intro!: exI [of _ "[]"])

section \<open>The receiving end\<close>

text \<open>
  The bytes to come are the start of frames whose data is in \<open>Q\<close>; where the connection breaks, the rest of them never comes. The
  laws of a byte stream do not tell such a stream from one whose bytes are all still to come.
\<close>

lemma extended: "byte_stream sops sinv written (\<lambda>s. incoming s @ rest)"
  using swrite_law sread_law by unfold_locales fastforce+

definition brings_only :: "bytes set \<Rightarrow> 's \<Rightarrow> bool" where
  "brings_only Q s \<longleftrightarrow> sinv s \<and> (\<exists>rest fs. link_wire (incoming s @ rest) fs \<and> set (data_of fs) \<subseteq> Q)"

definition receives_only :: "bytes set \<Rightarrow> 's link \<Rightarrow> bool" where
  "receives_only Q l \<longleftrightarrow> set (waiting_list l) \<subseteq> Q
     \<and> (\<exists>rest fs. byte_stream.link_inv sinv (\<lambda>s. incoming s @ rest) l fs \<and> set (data_of fs) \<subseteq> Q)"

lemma step_receives_only:
  assumes "receives_only Q l" "link_step sops l e l'"
  shows "receives_only Q l'"
proof -
  from assms(1) obtain rest fs where l: "set (waiting_list l) \<subseteq> Q" "set (data_of fs) \<subseteq> Q"
    "byte_stream.link_inv sinv (\<lambda>s. incoming s @ rest) l fs" by (auto simp: receives_only_def)
  from byte_stream.link_step_law [OF extended assms(2) l(3)] obtain fs' used where
    m: "byte_stream.link_inv sinv (\<lambda>s. incoming s @ rest) l' fs'" "fs = used @ fs'"
      "waiting_list l @ data_of used = delivered [e] @ waiting_list l'"
    unfolding byte_stream.link_moves_def [OF extended] by blast
  from m(3) have "set (waiting_list l') \<subseteq> set (waiting_list l) \<union> set (data_of used)"
    by (metis Un_upper2 set_append)
  with l(1,2) m(1,2) show ?thesis unfolding receives_only_def by fastforce
qed

lemma fresh_receives_only:
  assumes "brings_only Q s" "Link_init s = Inr l"
  shows "receives_only Q (l\<lparr>lname := n\<rparr>)"
proof -
  from Link_init_law [of s] assms(2) have l: "lstream l = s" "lrecv_buffer l = []" "waiting_recv_packet l = None" "link_ok l"
    by auto
  from assms(1) obtain rest fs where "sinv s" "link_wire (incoming s @ rest) fs" "set (data_of fs) \<subseteq> Q"
    by (auto simp: brings_only_def)
  with l show ?thesis unfolding receives_only_def byte_stream.link_inv_def [OF extended]
    by (auto simp: waiting_list_def link_ok_def in_flight_ok_def)
qed

end

sublocale byte_stream \<subseteq> sender: link_claim sops "\<lambda>s. sinv s \<and> written s = []" sends_only UNIV
proof unfold_locales
  show "sends_only P l \<Longrightarrow> P \<subseteq> P' \<Longrightarrow> sends_only P' l" for P P' l
    unfolding sends_only_def by blast
qed (use fresh_sends_only step_sends_only in auto)

sublocale byte_stream \<subseteq> receiver: link_claim sops "brings_only Q" "\<lambda>_. receives_only Q" Q for Q
proof unfold_locales
  show "receives_only Q l \<Longrightarrow> set (waiting_list l) \<subseteq> Q" for l by (simp add: receives_only_def)
qed (assumption | erule (1) step_receives_only fresh_receives_only)+

section \<open>From links to multilinks\<close>

context link_claim
begin

definition links_ok :: "bytes set \<Rightarrow> ('s, 'c) multilink \<Rightarrow> bool" where
  "links_ok P m \<longleftrightarrow> (\<forall>e \<in> set (mlinks m). G P (snd e))"

lemma links_ok_mono: "links_ok P m \<Longrightarrow> P \<subseteq> P' \<Longrightarrow> links_ok P' m"
  using claim_mono by (auto simp: links_ok_def)

lemma links_ok_subset: "links_ok P m \<Longrightarrow> set (mlinks m') \<subseteq> set (mlinks m) \<Longrightarrow> links_ok P m'"
  by (auto simp: links_ok_def)

lemma links_ok_update: "links_ok P m \<Longrightarrow> G P l' \<Longrightarrow> mlinks m' = update_link i l' (mlinks m) \<Longrightarrow> links_ok P m'"
  by (auto simp: links_ok_def dest: in_set_update_link)

lemma links_ok_lookup: "links_ok P m \<Longrightarrow> map_of (mlinks m) i = Some l \<Longrightarrow> G P l"
  using map_of_SomeD by (fastforce simp: links_ok_def)

lemma loop_links_ok:
  assumes "env_ok env"
  shows "mux_ok m \<Longrightarrow> links_ok P m \<Longrightarrow> send_ready_loop fuel env now i m = Inr m' \<Longrightarrow> set_mset (held m') \<subseteq> P \<Longrightarrow> links_ok P m'"
proof (induction fuel arbitrary: m)
  case (Suc fuel)
  from refill_law [OF assms Suc.prems(1), of i] obtain ds m1 m2 where
    r: "(if length (mqueue m) < QUEUE_SIZE * 3 div 4 then call_on_send_ready env m else Inr m) = Inr m1"
      "m2 = (if assigned_packets m1 i = [] then Multilink_request_packets m1 else m1)"
      "mux_ok m2" "mlinks m2 = mlinks m"
    by blast
  have m2: "links_ok P m2" using Suc.prems(2) r(4) by (simp add: links_ok_def)
  note step = loop_turn [OF r(1,2), of fuel now]
  show ?case
  proof (cases "assigned_packets m2 i")
    case Nil
    with step Suc.prems(3) m2 show ?thesis by simp
  next
    case (Cons packet rest)
    with step Suc.prems(3) obtain l where l: "map_of (mlinks m2) i = Some l" by (cases "map_of (mlinks m2) i") auto
    with step Suc.prems(3) Cons obtain ok l' where s: "Link_send now (mlast_seq m2 + 1) packet l = Inr (ok, l')"
      by (cases "Link_send now (mlast_seq m2 + 1) packet l") auto
    let ?m3 = "m2\<lparr>mlast_seq := mlast_seq m2 + 1, mlinks := update_link i l' (mlinks m2)\<rparr>"
    let ?m4 = "if ok then ?m3\<lparr>assigned_packets := (assigned_packets m2)(i := rest)\<rparr> else ?m3"
    have packet: "packet \<in># held m2" using Cons by (intro assigned_held [OF r(3), of _ i]) simp
    have "packet \<in> set (assigned_packets m2 i)" using Cons by simp
    with r(3) have "length packet \<le> MULTILINK_MTU" unfolding mux_ok_def by blast
    then have m4: "mux_ok ?m4 \<and> held ?m4 = held m2"
      using Cons by (intro update_link_ok [OF r(3) l link_send_in_flight [OF s], where rest = "if ok then rest else packet # rest"])
        auto
    have cm: "conserves env ?m4 m'"
    proof (cases ok)
      case True
      with step Suc.prems(3) Cons l s have "send_ready_loop fuel env now i ?m4 = Inr m'" by simp
      then show ?thesis by (rule send_ready_loop_conserves [OF assms conjunct1 [OF m4]])
    next
      case False
      with step Suc.prems(3) Cons l s have "m' = ?m4" by simp
      with m4 show ?thesis by (simp add: conserves_refl)
    qed
    have "packet \<in> P"
      using conserves_held [OF cm, unfolded conjunct2 [OF m4]] packet Suc.prems(4) by blast
    from links_ok_lookup [OF m2 l] s this have gl: "G P l'"
      by (cases ok) (auto intro: claim_step link_step.intros)
    have ok4: "links_ok P ?m4" by (rule links_ok_update [OF m2 gl]) simp
    show ?thesis
    proof (cases ok)
      case True
      with step Suc.prems(3) Cons l s have "send_ready_loop fuel env now i ?m4 = Inr m'" by simp
      from Suc.IH [OF conjunct1 [OF m4] ok4 this Suc.prems(4)] show ?thesis .
    next
      case False
      with step Suc.prems(3) Cons l s have "m' = ?m4" by simp
      with ok4 show ?thesis by simp
    qed
  qed
qed simp

lemma send_ready_links_ok:
  assumes "env_ok env" "mux_ok m" "links_ok P m" "Multilink_link_send_ready fuel env now i m = Inr m'" "set_mset (held m') \<subseteq> P"
  shows "links_ok P m'"
proof -
  from assms(4) obtain l where l: "map_of (mlinks m) i = Some l"
    by (cases "map_of (mlinks m) i") (auto simp: Multilink_link_send_ready_def)
  show ?thesis
  proof (cases "timed_out l")
    case True
    from remove_timed_out_law [OF assms(1,2) l True, of fuel now] assms(4) have "mlinks m' = remove_link i (mlinks m)" by auto
    with assms(2) show ?thesis by (intro links_ok_subset [OF assms(3)]) (auto simp: set_remove_link mux_ok_def)
  next
    case False
    with l assms(4) have "send_ready_loop fuel env now i m = Inr m'" by (simp add: Multilink_link_send_ready_def)
    from loop_links_ok [OF assms(1-3) this assms(5)] show ?thesis .
  qed
qed

lemma send_ready_each_links_ok:
  assumes "env_ok env"
  shows "mux_ok m \<Longrightarrow> links_ok P m \<Longrightarrow> send_ready_each fuel env now is m = Inr m' \<Longrightarrow> set_mset (held m') \<subseteq> P \<Longrightarrow> links_ok P m'"
proof (induction "is" arbitrary: m)
  case (Cons i "is")
  from Cons.prems(3) obtain n where n: "Multilink_link_send_ready fuel env now i m = Inr n"
    "send_ready_each fuel env now is n = Inr m'" by (auto simp: result_simps)
  have nok: "mux_ok n" using link_send_ready_conserves [OF assms Cons.prems(1) n(1)] by (simp add: conserves_def)
  have "set_mset (held n) \<subseteq> P" using conserves_held [OF send_ready_each_conserves [OF assms nok n(2)]] Cons.prems(4) by blast
  from Cons.IH [OF nok send_ready_links_ok [OF assms Cons.prems(1,2) n(1) this] n(2) Cons.prems(4)] show ?case .
qed simp

lemma recv_first_claim:
  assumes "recv_first ls = (r, ls')" "\<forall>e \<in> set ls. G P (snd e)"
  shows "(\<forall>e \<in> set ls'. G P (snd e)) \<and> (\<forall>d. r = Some d \<longrightarrow> d \<in> R)"
  using assms
proof (induction ls arbitrary: r ls')
  case (Cons e ls)
  obtain i l where e: "e = (i, l)" by (cases e)
  obtain q l' where q: "Link_recv l = (q, l')" by fastforce
  have l: "G P l" using Cons.prems(2) e by simp
  then have l': "G P l'" using q by (cases q) (auto intro: claim_step link_step.intros)
  show ?case
  proof (cases q)
    case None
    obtain r2 ls2 where "recv_first ls = (r2, ls2)" by fastforce
    with Cons.IH [OF this] Cons.prems e q l' None show ?thesis by auto
  next
    case (Some d)
    with q have "d \<in> set (waiting_list l)" by (auto simp: Link_recv_def Let_def waiting_list_def split: if_splits)
    with claim_waiting [OF l] Cons.prems e q l' Some show ?thesis by auto
  qed
qed simp

text \<open>The invariant of a multilink whose packets come from \<open>P\<close>, and what one handler does to it.\<close>

definition mux_claim :: "bytes set \<Rightarrow> ('s, 'c) multilink \<Rightarrow> bool" where
  "mux_claim P m \<longleftrightarrow> mux_ok m \<and> set_mset (held m) \<subseteq> P \<and> links_ok P m"

lemma recv_claim:
  assumes "env_ok env" "mux_claim P m" "Multilink_recv env m = Inr (r, m')"
  shows "set_mset (held m') \<subseteq> P \<and> links_ok P m' \<and> (\<forall>d. r = Some d \<longrightarrow> d \<in> R)"
proof -
  let ?n = "Multilink_shuffle_links env m"
  obtain ls where ls: "recv_first (mlinks ?n) = (r, ls)" and m': "m' = ?n\<lparr>mlinks := ls\<rparr>"
    using assms(3) by (auto simp: Multilink_recv_def Let_def split: prod.splits)
  note set = shuffle_set [OF assms(1), of m]
  have "\<forall>e \<in> set (mlinks ?n). G P (snd e)" using assms(2) by (simp add: set mux_claim_def links_ok_def)
  from recv_first_claim [OF ls this] have "links_ok P m'" "\<forall>d. r = Some d \<longrightarrow> d \<in> R" by (simp_all add: links_ok_def m')
  moreover from recv_first_law [OF ls] have "fst ` set ls = fst ` set (mlinks m)"
    "(in_flight_queue \<circ> snd) ` set ls = (in_flight_queue \<circ> snd) ` set (mlinks m)" unfolding set [symmetric] by (metis list.set_map)+
  then have "set_mset (held m') = set_mset (held m)"
    unfolding set_held m' by (simp add: Multilink_shuffle_links_def flip: image_comp [of _ fst "set _"]) (metis image_image)
  ultimately show ?thesis using assms(2) by (simp add: mux_claim_def)
qed

lemma add_link_claim:
  assumes "mux_claim P m" "fresh s" "Multilink_add_link s name f m = Inr (i, m')"
  shows "set_mset (held m') \<subseteq> P \<and> links_ok P m'"
proof -
  from Link_init_law [of s] obtain l where l: "Link_init s = Inr l" "in_flight_queue l = []" by blast
  with assms(3) have m': "mlinks m' = mlinks m @ [(mnext m, l\<lparr>lname := name\<rparr>)]" "mqueue m' = mqueue m"
    "assigned_packets m' = assigned_packets m" by (auto simp: Multilink_add_link_def Let_def mschedule_def)
  have "mnext m \<notin> ids m" using assms(1) by (auto simp: mux_claim_def mux_ok_def)
  with assms(1) have "assigned_packets m (mnext m) = []" by (simp add: mux_claim_def mux_ok_def)
  with m' l(2) assms(1) claim_init [OF assms(2) l(1)] show ?thesis
    by (auto simp: mux_claim_def links_ok_def set_held)
qed

lemma link_handler_claim:
  assumes "mux_claim P m" "map_of (mlinks m) i = Some l" "link_step ops l Quiet l'"
    and "m' = m\<lparr>mlinks := update_link i l' (mlinks m)\<rparr>"
  shows "set_mset (held m') \<subseteq> P \<and> links_ok P m'"
proof
  have "G P l'" using assms(1-3) links_ok_lookup by (intro claim_step [OF _ assms(3)]) (auto simp: mux_claim_def)
  with assms(1,4) show "links_ok P m'" by (auto simp: mux_claim_def intro: links_ok_update)
  have il: "(i, l) \<in> set (mlinks m)" using map_of_SomeD [OF assms(2)] .
  have sub: "set (in_flight_queue l') \<subseteq> set (in_flight_queue l)"
    using quiet_step_releases [OF assms(3)] by (auto simp: releases_def)
  have "d \<in> P" if "d \<in># held m'" for d
  proof -
    from that consider "d \<in> set (mqueue m)" | e where "e \<in> set (mlinks m')" "d \<in> set (assigned_packets m (fst e))"
      | e where "e \<in> set (update_link i l' (mlinks m))" "d \<in> pbuf ` set (in_flight_queue (snd e))"
      by (auto simp: set_held assms(4))
    then have "d \<in># held m"
    proof cases
      case 2
      have "mux_ok m" using assms(1) by (simp add: mux_claim_def)
      from assigned_held [OF this 2(2)] show ?thesis .
    next
      case 3
      from in_set_update_link [OF 3(1)] 3(2) sub il show ?thesis by (fastforce simp: set_held)
    qed (simp add: set_held)
    with assms(1) show ?thesis by (auto simp: mux_claim_def)
  qed
  then show "set_mset (held m') \<subseteq> P" by blast
qed

lemma mux_step_claim:
  assumes "mux_step env fresh m ds got m'" "env_ok env" "eops env = ops" "mux_claim P m"
  shows "mux_claim (P \<union> set ds) m' \<and> set got \<subseteq> R"
proof -
  have ok: "mux_ok m" "mux_ok m'" using assms mux_step_ok by (auto simp: mux_claim_def)
  have links: "links_ok (P \<union> set ds) m" using assms(4) by (auto simp: mux_claim_def intro: links_ok_mono)
  have held: "set_mset (held m') \<subseteq> P \<union> set ds" if "taken env m ds m'"
    using that assms(4) by (auto simp: mux_claim_def taken_def)
  from assms(1) have "set_mset (held m') \<subseteq> P \<union> set ds \<and> links_ok (P \<union> set ds) m' \<and> set got \<subseteq> R"
  proof cases
    case (mux_send_ready fuel now i)
    with held send_ready_links_ok [OF assms(2) ok(1) links mux_send_ready(2)] show ?thesis by simp
  next
    case (mux_some_ready fuel now)
    let ?n = "Multilink_shuffle_links env m"
    have n: "mux_ok ?n" using shuffle_conserves [OF assms(2) ok(1)] by (simp add: conserves_def)
    have "links_ok (P \<union> set ds) ?n" using links shuffle_set [OF assms(2)] by (intro links_ok_subset [OF links]) simp
    from send_ready_each_links_ok [OF assms(2) n this] mux_some_ready held show ?thesis
      by (auto simp: Multilink_some_link_send_ready_def Let_def)
  next
    case mux_client
    then have "mlinks m' = mlinks m" using call_on_send_ready_law [OF assms(2) ok(1)] by auto
    with mux_client held links show ?thesis by (simp add: links_ok_def)
  next
    case (mux_recv r)
    from recv_claim [OF assms(2,4) mux_recv(3)] mux_recv(1,2) show ?thesis by (auto split: option.splits)
  next
    case (mux_add_link s name f i)
    from add_link_claim [OF assms(4) mux_add_link(3,4)] mux_add_link(1,2) show ?thesis by simp
  next
    case (mux_link i l l')
    from link_handler_claim [OF assms(4) mux_link(4) _ mux_link(3)] mux_link(1,2,5) assms(3) show ?thesis by simp
  qed
  with ok(2) show ?thesis by (simp add: mux_claim_def)
qed

lemma mux_trace_claim:
  assumes "env_ok env" "eops env = ops"
  shows "mux_trace env fresh m ds got m' \<Longrightarrow> mux_claim P m \<Longrightarrow> mux_claim (P \<union> set ds) m' \<and> set got \<subseteq> R"
proof (induction rule: mux_trace.induct)
  case (mux_snoc m ds got n es r k)
  with mux_step_claim [OF mux_snoc.hyps(2) assms, of "P \<union> set ds"] show ?case by (simp add: Un_assoc)
qed simp

lemma mux_claim_init: "mux_claim P (Multilink_init c)"
  by (simp add: mux_claim_def Multilink_init_ok) (simp add: links_ok_def Multilink_init_def)

lemma arrived_claim: "links_ok P m \<Longrightarrow> set_mset (arrived m) \<subseteq> R"
  using claim_waiting by (fastforce simp: links_ok_def arrived_def link_arrived_def set_mset_sum_list)

lemmas mux_run_claim = mux_trace_claim [OF _ _ _ mux_claim_init]

end

context byte_stream
begin

lemma sender_run:
  assumes "env_ok env" "eops env = sops" "mux_trace env (\<lambda>s. sinv s \<and> written s = []) (Multilink_init c) ds got m"
    and "e \<in> set (mlinks m)"
  shows "sends_only (set ds) (snd e)"
  using sender.mux_run_claim [OF assms(1-3), of "{}"] assms(4)
  by (simp add: sender.mux_claim_def sender.links_ok_def)

lemma receiver_run:
  assumes "env_ok env" "eops env = sops" "mux_trace env (brings_only Q) (Multilink_init c) ds got m"
  shows "set got \<subseteq> Q \<and> set_mset (arrived m) \<subseteq> Q"
proof -
  from receiver.mux_run_claim [OF assms, of "{}"] have "set got \<subseteq> Q" "receiver.links_ok Q (set ds) m"
    by (simp_all add: receiver.mux_claim_def)
  then show ?thesis using receiver.arrived_claim by blast
qed

end

lemma mux_step_weaken: "mux_step env C m ds got m' \<Longrightarrow> (\<And>s. C s \<Longrightarrow> D s) \<Longrightarrow> mux_step env D m ds got m'"
  by (induction rule: mux_step.induct) (auto intro: mux_step.intros)

lemma mux_trace_weaken: "mux_trace env C m ds got m' \<Longrightarrow> (\<And>s. C s \<Longrightarrow> D s) \<Longrightarrow> mux_trace env D m ds got m'"
  by (induction rule: mux_trace.induct) (auto intro: mux_trace.intros mux_step_weaken)

section \<open>Properties\<close>

text \<open>
  In a run of the multilink \<open>env\<close> that starts with the client state \<open>c\<close>, ends in \<open>a\<close> and sends \<open>sent\<close>, some link of some moment had
  put \<open>bs\<close> on its stream, or its first part and kept the others to put after it; \<open>w\<close> reads what was written to a stream.
\<close>

definition joined :: "('s, 'c) multilink_env \<Rightarrow> ('s \<Rightarrow> bool) \<Rightarrow> ('s \<Rightarrow> bytes) \<Rightarrow> 'c \<Rightarrow> bytes list \<Rightarrow>
    ('s, 'c) multilink \<Rightarrow> bytes \<Rightarrow> bool" where
  "joined env C w c sent a bs \<longleftrightarrow> (\<exists>xs ys gx gy m e rest. mux_trace env C (Multilink_init c) xs gx m
     \<and> mux_trace env C m ys gy a \<and> sent = xs @ ys \<and> e \<in> set (mlinks m)
     \<and> w (lstream (snd e)) @ lsend_buffer_current (snd e) = bs @ rest)"

lemma joined_brings_only:
  assumes A: "byte_stream (eops A) ainv awritten aincoming" "env_ok A"
    and B: "byte_stream bops binv bwritten bincoming"
    and "joined A (\<lambda>s. ainv s \<and> awritten s = []) awritten c sent a (bincoming s)" "binv s"
  shows "byte_stream.brings_only binv bincoming (set sent) s"
proof -
  from assms(4) obtain xs ys gx m e rest where
    m: "mux_trace A (\<lambda>s. ainv s \<and> awritten s = []) (Multilink_init c) xs gx m" "sent = xs @ ys" "e \<in> set (mlinks m)"
      "awritten (lstream (snd e)) @ lsend_buffer_current (snd e) = bincoming s @ rest"
    unfolding joined_def by blast
  from byte_stream.sender_run [OF A refl m(1,3)] obtain gs where
    "awritten (lstream (snd e)) @ lsend_buffer_current (snd e) = link_bytes gs" "\<forall>g \<in> set gs. frame_ok g"
    "set (data_of gs) \<subseteq> set xs"
    unfolding byte_stream.sends_only_def [OF A(1)] byte_stream.link_sent_def [OF A(1)] by blast
  with m(2,4) assms(5) show ?thesis
    unfolding byte_stream.brings_only_def [OF B] link_wire_def
    by (intro conjI exI [of _ rest] exI [of _ gs]) auto
qed

text \<open>A multilink over sockets, whose client has a list of packets to send.\<close>

definition pair_env :: "((nat, sock) reactor, bytes list) multilink_env" where
  "pair_env = \<lparr>eops = FD_ops sock_kernel 0, random_shuffle = (\<lambda>r ls. rev ls),
     on_send_ready = (\<lambda>c n. (take n (filter (\<lambda>d. length d \<le> MULTILINK_MTU) c),
       drop n (filter (\<lambda>d. length d \<le> MULTILINK_MTU) c)))\<rparr>"

lemma pair_env_ok: "env_ok pair_env"
  by (auto simp: env_ok_def pair_env_def dest: in_set_takeD)

lemma pair_add_link:
  "\<exists>l m. Link_init s = Inr l \<and> Multilink_add_link s [] 0 (Multilink_init c) = Inr (0, m) \<and> mlinks m = [(0, l)]
     \<and> lstream l = s \<and> lrecv_buffer l = [] \<and> waiting_recv_packet l = None \<and> \<not> timed_out l \<and> \<not> bufferbloat_avoidance l
     \<and> lsend_buffer_current l = [] \<and> in_flight_queue l = [] \<and> last_pong_request_time l = 0 \<and> last_ping_sent l = 0
     \<and> last_seq_sent l = 0 \<and> mqueue m = [] \<and> assigned_packets m = (\<lambda>_. []) \<and> mclient m = c \<and> mlast_seq m = 0"
  by (simp add: Link_init_def Stats_add_and_remove_back_def Stats_init_def Stats_add_def Multilink_add_link_def
      Multilink_init_def mschedule_def)

lemma pair_sender:
  fixes s :: "(nat, sock) reactor"
  assumes "C s"
  shows "\<exists>m l. mux_trace pair_env C (Multilink_init [[7]]) [[7]] [] m \<and> mlinks m = [(0, l)] \<and> lstream l = s
     \<and> lsend_buffer_current l = [0, 4, 0, 7]"
proof -
  let ?i = "Multilink_init [[7]] :: ((nat, sock) reactor, bytes list) multilink"
  from pair_add_link [of s "[[7]]"] obtain l m where
    m: "Multilink_add_link s [] 0 ?i = Inr (0, m)" "mlinks m = [(0, l)]" "mqueue m = []" "assigned_packets m = (\<lambda>_. [])"
      "mclient m = [[7]]" "mlast_seq m = 0"
    and l: "lstream l = s" "\<not> timed_out l" "\<not> bufferbloat_avoidance l" "lsend_buffer_current l = []" "in_flight_queue l = []"
      "last_pong_request_time l = 0" "last_ping_sent l = 0" "last_seq_sent l = 0" by blast
  from mux_snoc [OF mux_nil mux_add_link [where C = C, OF assms m(1)]] have t: "mux_trace pair_env C ?i [] [] m" by simp
  have cl: "\<exists>k. call_on_send_ready pair_env m = Inr k \<and> mqueue k = [[7]] \<and> mclient k = [] \<and> mlinks k = [(0, l)]
      \<and> assigned_packets k = (\<lambda>_. []) \<and> mlast_seq k = 0"
    using m by (simp add: call_on_send_ready_def pair_env_def Multilink_ops_def AbstractPacketStream_send_def
        send_with_offset_cases MULTILINK_MTU_def LINK_MTU_def HEADER_SIZE_def QUEUE_SIZE_def)
  then obtain k where k: "call_on_send_ready pair_env m = Inr k" "mqueue k = [[7]]" "mclient k = []" "mlinks k = [(0, l)]"
    "assigned_packets k = (\<lambda>_. [])" "mlast_seq k = 0" by blast
  have rq: "Multilink_request_packets k = k\<lparr>assigned_packets := (\<lambda>_. [])(0 := [[7]]), mqueue := []\<rparr>"
    using k by (simp add: Multilink_request_packets_def Multilink_assign_links_until_def drain_target_def QUEUE_SIZE_def
        make_heap_def push_heap_def pop_heap_def sift_up.simps sift_down.simps lesser_child_def swap_def)
  have "\<exists>l'. Link_send 9 1 [7] l = Inr (True, l') \<and> lstream l' = s \<and> lsend_buffer_current l' = [0, 4, 0, 7]
      \<and> map pbuf (in_flight_queue l') = [[7]]"
    using l by (simp add: Link_send_def Link_send_aux_def Link_should_ping_def PING_INTERVAL_def
        Link_raw_send_packet_def Link_format_send_packet_def LINK_MTU_def HEADER_SIZE_def lschedule_def link_frame_example)
  then obtain l' where l': "Link_send 9 1 [7] l = Inr (True, l')" "lstream l' = s" "lsend_buffer_current l' = [0, 4, 0, 7]"
    "map pbuf (in_flight_queue l') = [[7]]" by (elim exE conjE)
  let ?n = "k\<lparr>mqueue := [], mlast_seq := 1, mlinks := [(0, l')], assigned_packets := (\<lambda>_. [])(0 := [])\<rparr>"
  have "call_on_send_ready pair_env ?n = Inr ?n"
    using k(3) by (simp add: call_on_send_ready_def pair_env_def)
  from loop_turn [of ?n pair_env ?n ?n 0 0 9] this
  have turn2: "send_ready_loop 1 pair_env 9 0 ?n = Inr ?n"
    by (simp add: QUEUE_SIZE_def Multilink_request_packets_def)
  have "send_ready_loop (Suc 1) pair_env 9 0 m = send_ready_loop 1 pair_env 9 0 ?n"
  proof (subst loop_turn)
    show "(if length (mqueue m) < QUEUE_SIZE * 3 div 4 then call_on_send_ready pair_env m else Inr m) = Inr k"
      using m(3) k(1) by (simp add: QUEUE_SIZE_def)
    show "k\<lparr>assigned_packets := (\<lambda>_. [])(0 := [[7]]), mqueue := []\<rparr>
        = (if assigned_packets k 0 = [] then Multilink_request_packets k else k)"
      using k(5) rq by simp
  qed (use k(4,6) l'(1) in \<open>simp add: Let_def update_link_def del: send_ready_loop.simps\<close>)
  with turn2 have "Multilink_link_send_ready 2 pair_env 9 0 m = Inr ?n"
    using m(2) l(2) by (simp add: Multilink_link_send_ready_def numeral_2_eq_2 del: send_ready_loop.simps)
  moreover have "taken pair_env m [[7]] ?n"
  proof -
    have "on_send_ready pair_env (mclient m) 1 = ([[7]], [])"
      by (simp add: m(5) pair_env_def MULTILINK_MTU_def LINK_MTU_def HEADER_SIZE_def)
    from client_cons [OF this client_nil] show ?thesis
      using k(3) m(2,3,4) l(5) l'(4) [THEN arg_cong, of mset] by (simp add: taken_def held_def)
  qed
  ultimately have "mux_trace pair_env C ?i ([] @ [[7]]) ([] @ []) ?n" by (intro mux_snoc [OF t] mux_send_ready)
  with l' show ?thesis by (intro exI [of _ ?n] exI [of _ l']) simp
qed

lemma pair_receiver:
  fixes s :: "(nat, sock) reactor"
  assumes "s = sock_reactor \<lparr>rx = [[0, 4, 0, 7]], wx = [], tx = []\<rparr>" "C s"
  shows "\<exists>m. mux_trace pair_env C (Multilink_init []) [] [[7]] m"
proof -
  let ?i = "Multilink_init [] :: ((nat, sock) reactor, bytes list) multilink"
  from pair_add_link [of s "[]"] obtain l m where m: "Multilink_add_link s [] 0 ?i = Inr (0, m)" "mlinks m = [(0, l)]"
    and l: "lstream l = s" "lrecv_buffer l = []" "waiting_recv_packet l = None" "\<not> timed_out l" by blast
  from mux_snoc [OF mux_nil mux_add_link [where C = C, OF assms(2) m(1)]] have t: "mux_trace pair_env C ?i [] [] m" by simp
  let ?s = "sock_reactor \<lparr>rx = [], wx = [], tx = []\<rparr>"
  have rd: "sread (FD_ops sock_kernel 0) s LINK_MTU = Inr ([0, 4, 0, 7], ?s)" "sread (FD_ops sock_kernel 0) ?s n = Inr ([], ?s)" for n
    by (simp_all add: assms(1) FD_ops_def FD_read_def sock_kernel_def sock_read_def sock_reactor_def LINK_MTU_def)
  let ?l = "l\<lparr>lstream := ?s, lrecv_buffer := [0, 4, 0, 7]\<rparr>"
  let ?m = "lschedule Task_on_recv_ready (?l\<lparr>waiting_recv_packet := Some [7]\<rparr>)\<lparr>lrecv_buffer := []\<rparr>"
  have "Link_try_parse_recv_packet 9 ?l = Inr (True, ?m)"
    using link_frame_size [of "[7]" 0 "[]"]
    by (simp add: Link_try_parse_recv_packet_def link_frame_example l(3) LINK_MTU_def HEADER_SIZE_def Link_parse_recv_packet_def
        read_at_def lschedule_def)
  moreover have full: "Link_parse_loop 9 k = Inr k" if "waiting_recv_packet k = Some d" for k :: "(nat, sock) reactor link" and d
    using that by (subst Link_parse_loop.simps) simp
  ultimately have "Link_parse_loop 9 ?l = Inr ?m"
    by (subst Link_parse_loop.simps) (simp add: l(3) lschedule_def)
  then have "\<exists>k. Link_transport_read_ready 2 (FD_ops sock_kernel 0) 9 l = Inr k \<and> waiting_recv_packet k = Some [7] \<and> \<not> timed_out k"
    using l rd full by (simp add: Link_transport_read_ready_def numeral_2_eq_2 lschedule_def)
  then obtain k where k: "Link_transport_read_ready 2 (FD_ops sock_kernel 0) 9 l = Inr k" "waiting_recv_packet k = Some [7]"
    "\<not> timed_out k" by (elim exE conjE)
  from k(1) have "link_step (eops pair_env) l Quiet k"
    unfolding pair_env_def by (auto intro: link_step.intros)
  moreover have "map_of (mlinks m) 0 = Some l" by (simp add: m(2))
  ultimately have run: "mux_trace pair_env C ?i [] [] (m\<lparr>mlinks := [(0, k)]\<rparr>)"
    using mux_snoc [OF t mux_link [of m 0 l pair_env k C]] by (simp add: m(2) update_link_def)
  have "\<exists>n. Multilink_recv pair_env (m\<lparr>mlinks := [(0, k)]\<rparr>) = Inr (Some [7], n)"
    using k by (simp add: Multilink_recv_def Multilink_shuffle_links_def pair_env_def Link_recv_def lschedule_def)
  then obtain n where "Multilink_recv pair_env (m\<lparr>mlinks := [(0, k)]\<rparr>) = Inr (Some [7], n)" ..
  from mux_snoc [OF run mux_recv [OF this]] show ?thesis by auto
qed

text \<open>C3: a multilink hands over only what its peer's client sent. Two multilinks run their handlers in any order, add links
  and lose them; each stream of the receiver brings an initial part of what some link of the sender framed, cut off anywhere. Then every
  packet the receiver's client is given, and every packet that waits for it, is one the sender's client sent, unchanged, whatever
  the sender's own streams bring.\<close>

theorem Multilink_delivers_only_sent:
  assumes "byte_stream (eops A) ainv awritten aincoming" "env_ok A"
    and "byte_stream (eops B) binv bwritten bincoming" "env_ok B"
    and "mux_trace B (\<lambda>s. binv s \<and> joined A (\<lambda>s. ainv s \<and> awritten s = []) awritten c sent a (bincoming s))
      (Multilink_init d) ds got b"
  shows "set got \<subseteq> set sent \<and> set_mset (arrived b) \<subseteq> set sent"
proof -
  have "mux_trace B (byte_stream.brings_only binv bincoming (set sent)) (Multilink_init d) ds got b"
    using joined_brings_only [OF assms(1-3)] by (intro mux_trace_weaken [OF assms(5)]) blast
  from byte_stream.receiver_run [OF assms(3,4) refl this] show ?thesis .
qed

theorem Multilink_delivers_only_sent_witness:
  "\<exists>a b. mux_trace pair_env (\<lambda>s. sock.fd_inv s \<and> tx (kernel s) = []) (Multilink_init [[7]]) [[7]] [] a
     \<and> mux_trace pair_env (\<lambda>s. sock.fd_inv s \<and> joined pair_env (\<lambda>s. sock.fd_inv s \<and> tx (kernel s) = []) (\<lambda>s. tx (kernel s))
          [[7]] [[7]] a (concat (rx (kernel s)))) (Multilink_init []) [] [[7]] b
     \<and> set_mset (arrived b) \<subseteq> {[7]}"
proof -
  let ?s = "sock_reactor \<lparr>rx = [], wx = [], tx = []\<rparr>" and ?r = "sock_reactor \<lparr>rx = [[0, 4, 0, 7]], wx = [], tx = []\<rparr>"
  let ?C = "\<lambda>s :: (nat, sock) reactor. sock.fd_inv s \<and> tx (kernel s) = []"
  have inv: "?C ?s" "sock.fd_inv ?r" by (simp_all add: sock_reactor_def sock.fd_inv_def)
  from pair_sender [where C = ?C, OF inv(1)] obtain a l where
    a: "mux_trace pair_env ?C (Multilink_init [[7]]) [[7]] [] a" "mlinks a = [(0, l)]" "lstream l = ?s"
      "lsend_buffer_current l = [0, 4, 0, 7]" by (elim exE conjE)
  have "joined pair_env ?C (\<lambda>s. tx (kernel s)) [[7]] [[7]] a (concat (rx (kernel ?r)))"
    unfolding joined_def using a mux_nil [of pair_env ?C a]
    by (intro exI [of _ "[[7]]"] exI [of _ "[]"] exI [of _ a] exI [of _ "(0, l)"]) (simp add: sock_reactor_def)
  with inv(2) have "sock.fd_inv ?r \<and> joined pair_env ?C (\<lambda>s. tx (kernel s)) [[7]] [[7]] a (concat (rx (kernel ?r)))" ..
  from pair_receiver [where C = "\<lambda>s. sock.fd_inv s \<and> joined pair_env ?C (\<lambda>s. tx (kernel s)) [[7]] [[7]] a (concat (rx (kernel s)))",
      OF refl this] obtain b where
    b: "mux_trace pair_env (\<lambda>s. sock.fd_inv s \<and> joined pair_env ?C (\<lambda>s. tx (kernel s))
          [[7]] [[7]] a (concat (rx (kernel s)))) (Multilink_init []) [] [[7]] b" ..
  have bs: "byte_stream (eops pair_env) sock.fd_inv (\<lambda>r. tx (kernel r)) (\<lambda>r. concat (rx (kernel r)))"
    using sock.fd_stream.byte_stream_axioms by (simp add: pair_env_def)
  from Multilink_delivers_only_sent [OF bs pair_env_ok bs pair_env_ok b] a(1) b show ?thesis by auto
qed

end
