(* ===== verification/End_To_End.thy ===== *)
theory End_To_End
  imports Tunnel Mux_Pair
begin

text \<open>
  The whole tunnel: transports over multilinks over links over byte streams, at both ends.

  A node is a multilink whose client is a transport. The handlers of the transport run over the multilink itself; when the multilink
  asks its client for packets in the middle of its own work, the transport runs over an outbox with as much room as the queue, and
  what is in the outbox afterwards is sent. The links of the two nodes are joined by connections that carry bytes in order and may
  break anywhere; nothing else is assumed about what happens between the nodes.
\<close>

section \<open>Streams with a history\<close>

text \<open>What a stream has to tell: its invariant, what was written, what has arrived and is still to be read, and all that has arrived.\<close>

record 's stream_view =
  v_inv :: "'s \<Rightarrow> bool"
  v_written :: "'s \<Rightarrow> bytes"
  v_incoming :: "'s \<Rightarrow> bytes"
  v_received :: "'s \<Rightarrow> bytes"

locale byte_history =
  byte_stream sops "v_inv V" "v_written V" "v_incoming V"
  for sops :: "'s stream_ops" and V :: "'s stream_view" +
  assumes swrite_received: "v_inv V s \<Longrightarrow> swrite sops s d = Inr (n, s') \<Longrightarrow> v_received V s' = v_received V s"
    and sread_received: "v_inv V s \<Longrightarrow> sread sops s k = Inr (d, s') \<Longrightarrow> v_received V s' = v_received V s"

text \<open>Every byte stream becomes one when what arrives is recorded beside it.\<close>

definition logged_ops :: "'s stream_ops \<Rightarrow> ('s \<times> bytes) stream_ops" where
  "logged_ops ops =
     \<lparr>sread = (\<lambda>s n. bindR (sread ops (fst s) n) (\<lambda>r. Inr (fst r, (snd r, snd s)))),
      swrite = (\<lambda>s d. bindR (swrite ops (fst s) d) (\<lambda>r. Inr (fst r, (snd r, snd s)))),
      sclose = (\<lambda>s. (sclose ops (fst s), snd s))\<rparr>"

definition logged_view :: "('s \<Rightarrow> bool) \<Rightarrow> ('s \<Rightarrow> bytes) \<Rightarrow> ('s \<Rightarrow> bytes) \<Rightarrow> ('s \<times> bytes) stream_view" where
  "logged_view iv w i = \<lparr>v_inv = (\<lambda>s. iv (fst s)), v_written = (\<lambda>s. w (fst s)), v_incoming = (\<lambda>s. i (fst s)), v_received = snd\<rparr>"

context byte_stream
begin

lemma logged_history: "byte_history (logged_ops sops) (logged_view sinv written incoming)"
proof unfold_locales
  fix s :: "'s \<times> bytes" and d :: bytes
  assume "v_inv (logged_view sinv written incoming) s" "d \<noteq> []"
  with swrite_law [of "fst s" d] show "\<exists>n s'. swrite (logged_ops sops) s d = Inr (n, s') \<and> n \<le> length d
      \<and> v_inv (logged_view sinv written incoming) s'
      \<and> v_written (logged_view sinv written incoming) s' = v_written (logged_view sinv written incoming) s @ take n d
      \<and> v_incoming (logged_view sinv written incoming) s' = v_incoming (logged_view sinv written incoming) s"
    by (force simp: logged_ops_def logged_view_def)
next
  fix s :: "'s \<times> bytes" and n
  assume "v_inv (logged_view sinv written incoming) s"
  with sread_law [of "fst s" n] show "\<exists>d s'. sread (logged_ops sops) s n = Inr (d, s') \<and> length d \<le> n
      \<and> v_inv (logged_view sinv written incoming) s'
      \<and> v_written (logged_view sinv written incoming) s' = v_written (logged_view sinv written incoming) s
      \<and> v_incoming (logged_view sinv written incoming) s = d @ v_incoming (logged_view sinv written incoming) s'"
    by (force simp: logged_ops_def logged_view_def)
qed (auto simp: logged_ops_def logged_view_def result_simps)

end

text \<open>A socket is one.\<close>

interpretation logged_sock: byte_history "logged_ops (FD_ops sock_kernel 0 :: (nat, sock) reactor stream_ops)"
  "logged_view sock.fd_inv (\<lambda>r. tx (kernel r)) (\<lambda>r. concat (rx (kernel r)))"
  by (rule sock.fd_stream.logged_history)

section \<open>A link whose bytes arrive one by one\<close>

lemma link_frame_inj:
  assumes "link_frame a d @ x = link_frame b e @ y" "frame_ok (a, d)" "frame_ok (b, e)"
  shows "a = b \<and> d = e \<and> x = y"
proof -
  have "length d + HEADER_SIZE \<le> LINK_MTU" "length e + HEADER_SIZE \<le> LINK_MTU" using assms(2,3) by (simp_all add: frame_ok_def)
  from link_frame_size [OF this(1), of a x] link_frame_size [OF this(2), of b y] assms(1) have l: "length d = length e" by simp
  with assms(1) show ?thesis by (simp add: link_frame_def)
qed

lemma link_bytes_prefix:
  assumes "link_bytes cs @ x = link_bytes gs" "\<forall>f \<in> set cs. frame_ok f" "\<forall>f \<in> set gs. frame_ok f"
  shows "\<exists>ds. gs = cs @ ds \<and> x = link_bytes ds"
  using assms
proof (induction cs arbitrary: gs)
  case (Cons c cs)
  have "link_bytes (c # cs) @ x \<noteq> []" by (simp add: link_frame_def)
  then obtain g hs where g: "gs = g # hs" using Cons.prems(1) by (cases gs) auto
  from Cons.prems g have "link_frame (fst c) (snd c) @ link_bytes cs @ x = link_frame (fst g) (snd g) @ link_bytes hs" by simp
  from link_frame_inj [OF this] Cons.prems(2,3) g have "c = g" "link_bytes cs @ x = link_bytes hs" by (simp_all add: prod_eq_iff)
  with Cons.IH [of hs] Cons.prems(2,3) g show ?case by auto
qed simp

text \<open>The start of frames whose data is in \<open>Q\<close>.\<close>

definition framed :: "bytes set \<Rightarrow> bytes \<Rightarrow> bool" where
  "framed Q w \<longleftrightarrow> (\<exists>gs later. w @ later = link_bytes gs \<and> (\<forall>g \<in> set gs. frame_ok g) \<and> set (data_of gs) \<subseteq> Q)"

context byte_history
begin

text \<open>The laws with a part \<open>rest\<close> of the input that is still to come, and the history as part of the invariant.\<close>

lemma extended_history:
  "byte_stream sops (\<lambda>s. v_inv V s \<and> v_received V s = h) (v_written V) (\<lambda>s. v_incoming V s @ rest)"
proof unfold_locales
  fix s and d :: bytes assume "v_inv V s \<and> v_received V s = h" "d \<noteq> []"
  with swrite_law [of s d] swrite_received [of s d] show "\<exists>n s'. swrite sops s d = Inr (n, s') \<and> n \<le> length d
      \<and> (v_inv V s' \<and> v_received V s' = h) \<and> v_written V s' = v_written V s @ take n d
      \<and> v_incoming V s' @ rest = v_incoming V s @ rest" by metis
next
  fix s n assume "v_inv V s \<and> v_received V s = h"
  with sread_law [of s n] sread_received [of s n] show "\<exists>d s'. sread sops s n = Inr (d, s') \<and> length d \<le> n
      \<and> (v_inv V s' \<and> v_received V s' = h) \<and> v_written V s' = v_written V s
      \<and> v_incoming V s @ rest = d @ v_incoming V s' @ rest" by (metis append.assoc)
qed

text \<open>
  \<open>hears Q l\<close>: what has arrived for the link are whole frames \<open>cs\<close>, which it has parsed, and the start of frames \<open>fs\<close>; their data
  and the packet it holds for its client are in \<open>Q\<close>.
\<close>

definition hears :: "bytes set \<Rightarrow> 's link \<Rightarrow> bool" where
  "hears Q l \<longleftrightarrow> set (waiting_list l) \<subseteq> Q \<and> v_inv V (lstream l) \<and> length (lrecv_buffer l) \<le> LINK_MTU \<and> link_ok l
     \<and> (\<exists>cs fs rest. v_received V (lstream l) = link_bytes cs @ lrecv_buffer l @ v_incoming V (lstream l)
        \<and> link_wire (lrecv_buffer l @ v_incoming V (lstream l) @ rest) fs
        \<and> (\<forall>f \<in> set cs. frame_ok f) \<and> set (data_of (cs @ fs)) \<subseteq> Q)"

lemma step_hears:
  assumes "hears Q l" "link_step sops l e l'"
  shows "hears Q l'"
proof -
  let ?h = "v_received V (lstream l)"
  from assms(1) obtain cs fs rest where l: "set (waiting_list l) \<subseteq> Q" "v_inv V (lstream l)" "length (lrecv_buffer l) \<le> LINK_MTU"
    "link_ok l" "?h = link_bytes cs @ lrecv_buffer l @ v_incoming V (lstream l)"
    "link_wire (lrecv_buffer l @ v_incoming V (lstream l) @ rest) fs" "\<forall>f \<in> set cs. frame_ok f" "set (data_of (cs @ fs)) \<subseteq> Q"
    unfolding hears_def by blast
  note ext = extended_history [of ?h rest]
  have "byte_stream.link_inv (\<lambda>s. v_inv V s \<and> v_received V s = ?h) (\<lambda>s. v_incoming V s @ rest) l fs"
    using l(2-4,6) by (simp add: byte_stream.link_inv_def [OF ext])
  from byte_stream.link_step_law [OF ext assms(2) this] obtain fs' used where
    m: "byte_stream.link_inv (\<lambda>s. v_inv V s \<and> v_received V s = ?h) (\<lambda>s. v_incoming V s @ rest) l' fs'" "fs = used @ fs'"
      "waiting_list l @ data_of used = delivered [e] @ waiting_list l'"
    unfolding byte_stream.link_moves_def [OF ext] by blast
  from m(1) have l': "v_inv V (lstream l')" "v_received V (lstream l') = ?h" "length (lrecv_buffer l') \<le> LINK_MTU" "link_ok l'"
    "link_wire (lrecv_buffer l' @ v_incoming V (lstream l') @ rest) fs'"
    by (simp_all add: byte_stream.link_inv_def [OF ext])
  have "set (waiting_list l') \<subseteq> set (waiting_list l) \<union> set (data_of used)" using m(3) by (metis Un_upper2 set_append)
  then have w: "set (waiting_list l') \<subseteq> Q" using l(1,8) m(2) by auto
  have "(lrecv_buffer l @ v_incoming V (lstream l)) @ rest = (link_bytes used @ lrecv_buffer l' @ v_incoming V (lstream l')) @ rest"
    using l(6) l'(5) m(2) by (simp add: link_wire_def)
  then have "?h = link_bytes (cs @ used) @ lrecv_buffer l' @ v_incoming V (lstream l')"
    unfolding l(5) append_same_eq by simp
  moreover have "\<forall>f \<in> set (cs @ used). frame_ok f" using l(6,7) m(2) by (auto simp: link_wire_def)
  moreover have "set (data_of ((cs @ used) @ fs')) \<subseteq> Q" using l(8) m(2) by simp
  ultimately show ?thesis unfolding hears_def using w l' by (intro conjI exI [of _ "cs @ used"] exI [of _ fs'] exI [of _ rest]) auto
qed

text \<open>
  More bytes arrive. All that has arrived is an initial part of what was sent, which the frames \<open>gs\<close> extend; since frames tell their
  length, the link has parsed the first of \<open>gs\<close>.
\<close>

definition arrives :: "bytes set \<Rightarrow> 's \<Rightarrow> 's \<Rightarrow> bool" where
  "arrives W s s' \<longleftrightarrow> v_inv V s' \<and> v_written V s' = v_written V s
     \<and> (\<exists>more. v_incoming V s' = v_incoming V s @ more \<and> v_received V s' = v_received V s @ more)
     \<and> (\<exists>w \<in> W. \<exists>later. w = v_received V s' @ later)"

lemma arrives_hears:
  assumes "hears Q l" "arrives W (lstream l) s" "\<forall>w \<in> W. framed Q w"
  shows "hears Q (l\<lparr>lstream := s\<rparr>)"
proof -
  from assms(1) obtain cs where l: "set (waiting_list l) \<subseteq> Q" "length (lrecv_buffer l) \<le> LINK_MTU" "link_ok l"
    "v_received V (lstream l) = link_bytes cs @ lrecv_buffer l @ v_incoming V (lstream l)" "\<forall>f \<in> set cs. frame_ok f"
    unfolding hears_def by blast
  from assms(2) obtain more where s: "v_inv V s" "v_incoming V s = v_incoming V (lstream l) @ more"
    "v_received V s = v_received V (lstream l) @ more" unfolding arrives_def by blast
  from assms(2,3) obtain gs later where gs: "v_received V s @ later = link_bytes gs" "\<forall>g \<in> set gs. frame_ok g" "set (data_of gs) \<subseteq> Q"
    unfolding arrives_def framed_def by (metis append.assoc)
  from gs(1) have "link_bytes cs @ lrecv_buffer l @ v_incoming V s @ later = link_bytes gs" by (simp add: s(2,3) l(4))
  from link_bytes_prefix [OF this l(5) gs(2)] obtain ds where
    ds: "gs = cs @ ds" "lrecv_buffer l @ v_incoming V s @ later = link_bytes ds" by blast
  moreover have "waiting_list (l\<lparr>lstream := s\<rparr>) = waiting_list l" "link_ok (l\<lparr>lstream := s\<rparr>) = link_ok l"
    by (simp_all add: waiting_list_def link_ok_def in_flight_ok_def)
  ultimately show ?thesis unfolding hears_def using l s gs
    by (intro conjI exI [of _ cs] exI [of _ ds] exI [of _ later]) (auto simp: link_wire_def)
qed

definition new_stream :: "'s \<Rightarrow> bool" where
  "new_stream s \<longleftrightarrow> v_inv V s \<and> v_written V s = [] \<and> v_incoming V s = [] \<and> v_received V s = []"

lemma new_hears:
  assumes "new_stream s" "Link_init s = Inr l"
  shows "hears Q (l\<lparr>lname := n\<rparr>)"
proof -
  from Link_init_law [of s] assms(2) have "lstream l = s" "lrecv_buffer l = []" "waiting_recv_packet l = None" "link_ok l" by auto
  then have "hears Q l" using assms(1) unfolding hears_def new_stream_def
    by (intro conjI exI [of _ "[]"]) (auto simp: waiting_list_def link_wire_def)
  moreover have "hears Q (l\<lparr>lname := n\<rparr>) = hears Q l"
    by (simp add: hears_def waiting_list_def link_ok_def in_flight_ok_def)
  ultimately show ?thesis by simp
qed

end

text \<open>Both ends of a link at once: what it sends is data of its multilink's client, what it hears is data of the peer's.\<close>

sublocale byte_history \<subseteq> both: link_claim sops new_stream "\<lambda>P l. sends_only P l \<and> hears Q l" Q for Q
proof unfold_locales
  show "sends_only P l \<and> hears Q l \<Longrightarrow> P \<subseteq> P' \<Longrightarrow> sends_only P' l \<and> hears Q l" for P P' l
    unfolding sends_only_def by blast
  show "sends_only P (l\<lparr>lname := n\<rparr>) \<and> hears Q (l\<lparr>lname := n\<rparr>)" if "new_stream s" "Link_init s = Inr l" for s l P n
  proof
    show "sends_only P (l\<lparr>lname := n\<rparr>)" using that by (intro fresh_sends_only) (simp_all add: new_stream_def)
  qed (rule new_hears [OF that])
  show "sends_only P l' \<and> hears Q l'" if "sends_only P l \<and> hears Q l" "link_step sops l e l'" "snd ` set (accepted [e]) \<subseteq> P" for P l e l'
    using that step_sends_only [OF _ that(2,3)] step_hears [OF _ that(2)] by auto
  show "sends_only P l \<and> hears Q l \<Longrightarrow> set (waiting_list l) \<subseteq> Q" for P l by (simp add: hears_def)
qed

section \<open>A multilink and its surroundings\<close>

context link_claim
begin

text \<open>The claim about a multilink is kept when its client sends or receives, when the client changes, and when bytes arrive.\<close>

lemma claim_push:
  assumes "mux_claim P m" "d \<in> P" "psend (Multilink_ops env) m d = Inr m'"
  shows "mux_claim P m'"
proof -
  from assms(3) have m': "mqueue m' = mqueue m @ [d]" "mlinks m' = mlinks m" "assigned_packets m' = assigned_packets m"
    "link_on_close m' = link_on_close m" "mnext m' = mnext m" "length d \<le> MULTILINK_MTU"
    by (auto simp: Multilink_ops_def AbstractPacketStream_send_def send_with_offset_cases split: if_splits)
  from assms(1,2) show ?thesis by (auto simp: m' mux_claim_def mux_ok_def ids_def links_ok_def set_held)
qed

lemma claim_precv:
  assumes "mux_claim P m" "env_ok env" "eops env = ops" "precv (Multilink_ops env) m = Inr (r, m')"
  shows "mux_claim P m' \<and> (\<forall>d. r = Some d \<longrightarrow> d \<in> R)"
proof -
  from assms(4) have "Multilink_recv env m = Inr (r, m')" by (simp add: Multilink_ops_def)
  from mux_step_claim [OF mux_recv [OF this] assms(2,3,1)] show ?thesis by (auto split: option.splits)
qed

lemma claim_client: "mux_claim P (m\<lparr>mclient := c\<rparr>) = mux_claim P m"
  by (simp add: mux_claim_def mux_ok_def ids_def links_ok_def set_held)

lemma claim_stream:
  assumes "mux_claim P m" "map_of (mlinks m) i = Some l" "G P (l\<lparr>lstream := s\<rparr>)"
  shows "mux_claim P (m\<lparr>mlinks := update_link i (l\<lparr>lstream := s\<rparr>) (mlinks m)\<rparr>)"
proof -
  let ?m = "m\<lparr>mlinks := update_link i (l\<lparr>lstream := s\<rparr>) (mlinks m)\<rparr>"
  have "mux_ok ?m \<and> held ?m = held m"
    by (rule update_link_ok [OF _ assms(2), where l' = "l\<lparr>lstream := s\<rparr>" and ds = "[]" and rest = "assigned_packets m i"])
      (use assms(1) in \<open>simp_all add: mux_claim_def\<close>)
  moreover have "links_ok P ?m"
    by (rule links_ok_update [OF _ assms(3), where m = m and i = i]) (use assms(1) in \<open>simp_all add: mux_claim_def\<close>)
  ultimately show ?thesis using assms(1) by (simp add: mux_claim_def)
qed

end

lemma mux_step_client: "mux_step env C m ds got m' \<Longrightarrow> client_run env (mclient m) ds (mclient m')"
proof (induction rule: mux_step.induct)
  case (mux_recv m r m')
  then have "mclient m' = mclient m" by (auto simp: Multilink_recv_def Multilink_shuffle_links_def Let_def split: prod.splits)
  then show ?case by (simp add: client_nil)
next
  case (mux_add_link s name f m i m')
  then have "mclient m' = mclient m" by (auto simp: Multilink_add_link_def mschedule_def Let_def result_simps)
  then show ?case by (simp add: client_nil)
qed (auto simp: taken_def intro: client_nil)

section \<open>A transport inside a multilink\<close>

text \<open>
  The network a transport sees while the multilink is asking for packets: room for so many, and those sent so far. It is ready and
  fails exactly when the multilink does.
\<close>

type_synonym outbox = "nat \<times> bytes list"

definition outbox_ops :: "outbox packet_ops" where
  "outbox_ops =
     \<lparr>precv = (\<lambda>b. Inr (None, b)),
      psend = (\<lambda>b d. assertR (length d \<le> MULTILINK_MTU) (assertR (length (snd b) < fst b) (Inr (fst b, snd b @ [d])))),
      pis_send_ready = (\<lambda>b. length (snd b) < fst b),
      pclose = (\<lambda>b. b)\<rparr>"

definition with_network :: "'n \<Rightarrow> ('m, 't) transport \<Rightarrow> ('n, 't) transport" where
  "with_network n tr = \<lparr>network_stream = n, objects = objects tr, next_object = next_object tr, children = children tr,
     special_packet_queue = special_packet_queue tr, tmtu = tmtu tr, ttasks = ttasks tr, closed_targets = closed_targets tr\<rparr>"

lemma with_network_simps [simp]:
  "network_stream (with_network n tr) = n" "objects (with_network n tr) = objects tr" "children (with_network n tr) = children tr"
  "special_packet_queue (with_network n tr) = special_packet_queue tr" "next_object (with_network n tr) = next_object tr"
  "(with_network n tr)\<lparr>network_stream := k\<rparr> = with_network k tr"
  "(with_network n tr)\<lparr>special_packet_queue := q\<rparr> = with_network n (tr\<lparr>special_packet_queue := q\<rparr>)"
  "with_network n (tr\<lparr>network_stream := j\<rparr>) = with_network n tr"
  "put_object i c (with_network n tr) = with_network n (put_object i c tr)"
  by (simp_all add: with_network_def put_object_def)

lemma with_network_twice [simp]: "with_network n (with_network j tr) = with_network n tr"
  by (simp add: with_network_def)

lemma with_network_same [simp]: "with_network (network_stream tr) tr = tr"
  by (simp add: with_network_def)

lemma put_object_network [simp]:
  "network_stream (put_object k c tr) = network_stream tr"
  "with_network n (put_object k c (tr\<lparr>network_stream := j\<rparr>)) = with_network n (put_object k c tr)"
  by (simp_all add: put_object_def with_network_def)

text \<open>
  What the multilink calls as \<open>on_send_ready\<close>, given how many packets fit into its queue: \<open>Transport::network_send_ready\<close>. Every round of
  its loop sends a packet or ends it, so one round more than there is room is enough. A transport that has failed stays failed.
\<close>

type_synonym 't tunnel_client = "(outbox, 't) transport result"

definition transport_ready :: "'t packet_ops \<Rightarrow> 't tunnel_client \<Rightarrow> nat \<Rightarrow> bytes list \<times> 't tunnel_client" where
  "transport_ready tops c n =
     (case bindR c (\<lambda>tr. Transport_network_send_ready (n + 1) outbox_ops tops (tr\<lparr>network_stream := (n, [])\<rparr>)) of
        Inl e \<Rightarrow> ([], Inl e)
      | Inr tr \<Rightarrow> (snd (network_stream tr), Inr tr))"

record ('s, 't) tunnel_env = "'t target_env" +
  t_sops :: "'s stream_ops"
  t_view :: "'s stream_view"
  t_shuffle :: "nat \<Rightarrow> (nat \<times> 's link) list \<Rightarrow> (nat \<times> 's link) list"

definition tunnel_mux :: "('s, 't) tunnel_env \<Rightarrow> ('s, 't tunnel_client) multilink_env" where
  "tunnel_mux E = \<lparr>eops = t_sops E, random_shuffle = t_shuffle E, on_send_ready = transport_ready (n_tops E)\<rparr>"

section \<open>Networks that behave alike\<close>

text \<open>Two networks that are ready at the same time and fail in the same way are the same to a transport that sends.\<close>

locale networks_alike =
  fixes xops :: "'x packet_ops" and yops :: "'y packet_ops" and R :: "'x \<Rightarrow> 'y \<Rightarrow> bool"
  assumes alike_ready: "R x y \<Longrightarrow> pis_send_ready xops x = pis_send_ready yops y"
    and alike_send: "R x y \<Longrightarrow> rel_sum (=) R (psend xops x d) (psend yops y d)"
begin

definition alike :: "('x, 't) transport \<Rightarrow> ('y, 't) transport \<Rightarrow> bool" where
  "alike a b \<longleftrightarrow> (\<exists>y. R (network_stream a) y \<and> b = with_network y a)"

lemma alike_fields:
  "alike a b \<Longrightarrow> objects b = objects a \<and> special_packet_queue b = special_packet_queue a \<and> children b = children a
     \<and> pis_send_ready yops (network_stream b) = pis_send_ready xops (network_stream a)"
  using alike_ready by (auto simp: alike_def)

lemma alike_bind:
  "rel_sum (=) P r s \<Longrightarrow> (\<And>x y. P x y \<Longrightarrow> rel_sum (=) Q (f x) (g y)) \<Longrightarrow> rel_sum (=) Q (bindR r f) (bindR s g)"
  by (cases r; cases s) auto

lemma once_alike:
  assumes "alike a b"
  shows "rel_sum (=) (rel_prod (=) alike) (Transport_target_recv_ready_once xops tops k a) (Transport_target_recv_ready_once yops tops k b)"
proof (cases "ctarget (objects a k)")
  case None
  with assms alike_fields [OF assms] show ?thesis by (simp add: Transport_target_recv_ready_once_def)
next
  case (Some t)
  show ?thesis
  proof (cases "precv tops t")
    case (Inl e)
    with Some alike_fields [OF assms] show ?thesis by (simp add: Transport_target_recv_ready_once_def)
  next
    case (Inr p)
    obtain r t' where p: "p = (r, t')" by (cases p)
    show ?thesis
    proof (cases r)
      case None
      with Some Inr p assms alike_fields [OF assms] show ?thesis
        by (auto simp: Transport_target_recv_ready_once_def Let_def alike_def)
    next
      case d: (Some d)
      let ?p = "transport_packet (cid (objects a k)) (last_sent_packet (objects a k)) d"
      have "rel_sum (=) R (psend xops (network_stream a) ?p) (psend yops (network_stream b) ?p)"
        using assms by (intro alike_send) (auto simp: alike_def)
      with Some d Inr p assms alike_fields [OF assms] show ?thesis
        by (cases "psend xops (network_stream a) ?p"; cases "psend yops (network_stream b) ?p")
          (auto simp: Transport_target_recv_ready_once_def Let_def alike_def)
    qed
  qed
qed

lemma pass_alike:
  "alike a b \<Longrightarrow> rel_sum (=) (rel_prod (=) (rel_prod (=) alike)) (children_pass xops tops ks any a) (children_pass yops tops ks any b)"
proof (induction ks arbitrary: any a b)
  case (Cons k ks)
  show ?case
  proof (cases "pis_send_ready xops (network_stream a)")
    case True
    with alike_fields [OF Cons.prems] show ?thesis
      by simp (intro alike_bind [OF once_alike [OF Cons.prems]], auto intro: Cons.IH)
  qed (use alike_fields [OF Cons.prems] Cons.prems in simp)
qed simp

lemma special_alike:
  assumes "alike a b"
  shows "rel_sum (=) alike (Transport_send_special_packet xops a) (Transport_send_special_packet yops b)"
proof (cases "pis_send_ready xops (network_stream a) \<and> special_packet_queue a \<noteq> []")
  case True
  then obtain p ps where q: "special_packet_queue a = p # ps" by (cases "special_packet_queue a") auto
  let ?p = "transport_packet (fst p) (snd p) []"
  have "rel_sum (=) R (psend xops (network_stream a) ?p) (psend yops (network_stream b) ?p)"
    using assms by (intro alike_send) (auto simp: alike_def)
  with True q assms alike_fields [OF assms] show ?thesis
    by (cases "psend xops (network_stream a) ?p"; cases "psend yops (network_stream b) ?p")
      (auto simp: Transport_send_special_packet_def alike_def)
qed (use assms alike_fields [OF assms] in \<open>auto simp: Transport_send_special_packet_def split: list.splits\<close>)

lemma send_ready_alike:
  "alike a b \<Longrightarrow> rel_sum (=) alike (Transport_network_send_ready fuel xops tops a) (Transport_network_send_ready fuel yops tops b)"
proof (induction fuel arbitrary: a b)
  case (Suc fuel)
  note f = alike_fields [OF Suc.prems]
  consider "\<not> pis_send_ready xops (network_stream a)" | "pis_send_ready xops (network_stream a)" "special_packet_queue a \<noteq> []"
    | "pis_send_ready xops (network_stream a)" "special_packet_queue a = []" by blast
  then show ?case
  proof cases
    case 2
    with f have e: "Transport_network_send_ready (Suc fuel) xops tops a
        = bindR (Transport_send_special_packet xops a) (Transport_network_send_ready fuel xops tops)"
      "Transport_network_send_ready (Suc fuel) yops tops b
        = bindR (Transport_send_special_packet yops b) (Transport_network_send_ready fuel yops tops)" by simp_all
    show ?thesis unfolding e by (rule alike_bind [OF special_alike [OF Suc.prems] Suc.IH])
  next
    case 3
    with f show ?thesis
      by simp (intro alike_bind [OF pass_alike [OF Suc.prems]], auto intro: Suc.IH)
  qed (use f Suc.prems in simp)
qed simp

end

lemma send_all_snoc: "send_all env (ds @ [d]) m = bindR (send_all env ds m) (\<lambda>k. psend (Multilink_ops env) k d)"
  by (induction ds arbitrary: m) (auto simp: bindR_def split: sum.splits)

lemma send_all_queue: "send_all env ds m = Inr k \<Longrightarrow> mqueue k = mqueue m @ ds"
proof (induction ds arbitrary: m)
  case (Cons d ds)
  then obtain j where "psend (Multilink_ops env) m d = Inr j" "send_all env ds j = Inr k" by (auto simp: result_simps)
  with mux_send(1) [OF this(1)] Cons.IH [of j] show ?case by simp
qed simp

lemma send_all_client:
  "send_all env ds (m\<lparr>mclient := c\<rparr>) = bindR (send_all env ds m) (\<lambda>k. Inr (k\<lparr>mclient := c\<rparr>))"
proof (induction ds arbitrary: m)
  case (Cons d ds)
  have "psend (Multilink_ops env) (m\<lparr>mclient := c\<rparr>) d = bindR (psend (Multilink_ops env) m d) (\<lambda>k. Inr (k\<lparr>mclient := c\<rparr>))"
    by (simp add: Multilink_ops_def AbstractPacketStream_send_def send_with_offset_cases)
  with Cons.IH show ?case by (cases "psend (Multilink_ops env) m d") simp_all
qed simp

abbreviation room_in :: "('s, 'c) multilink \<Rightarrow> nat" where
  "room_in m \<equiv> QUEUE_SIZE - length (mqueue m)"

text \<open>An outbox with the room of a multilink's queue is like the multilink.\<close>

lemma outbox_alike:
  "networks_alike outbox_ops (Multilink_ops env) (\<lambda>b k. fst b = room_in m \<and> send_all env (snd b) m = Inr k)"
proof unfold_locales
  fix b and k assume r: "fst b = room_in m \<and> send_all env (snd b) m = Inr k"
  then have q: "mqueue k = mqueue m @ snd b" using send_all_queue by blast
  with r show "pis_send_ready outbox_ops b = pis_send_ready (Multilink_ops env) k"
    by (auto simp: outbox_ops_def Multilink_ops_def Multilink_is_send_ready_def)
  have "length (snd b) < fst b \<longleftrightarrow> length (mqueue k) < QUEUE_SIZE" using r q by auto
  with r send_all_snoc [of env "snd b" _ m]
  show "rel_sum (=) (\<lambda>b k. fst b = room_in m \<and> send_all env (snd b) m = Inr k) (psend outbox_ops b d) (psend (Multilink_ops env) k d)" for d
    by (auto simp: outbox_ops_def Multilink_ops_def AbstractPacketStream_send_def send_with_offset_cases assertR_def)
qed

lemma send_ready_inside:
  "Transport_network_send_ready fuel (Multilink_ops env) tops (with_network m tr)
     = bindR (Transport_network_send_ready fuel outbox_ops tops (with_network (room_in m, []) tr)) (\<lambda>a.
         bindR (send_all env (snd (network_stream a)) m) (\<lambda>k. Inr (with_network k a)))"
proof -
  note n = outbox_alike [of env m]
  have "networks_alike.alike (\<lambda>b k. fst b = room_in m \<and> send_all env (snd b) m = Inr k) (with_network (room_in m, []) tr) (with_network m tr)"
    by (simp add: networks_alike.alike_def [OF n])
  from networks_alike.send_ready_alike [OF n this, of fuel tops] show ?thesis
    by (auto simp: networks_alike.alike_def [OF n] elim!: rel_sum.cases)
qed

section \<open>Running over an outbox\<close>

text \<open>What is put into an outbox fits into it, whatever the targets do.\<close>

lemma outbox_fits:
  assumes "transport_ready tops c n = (ds, c')"
  shows "length ds \<le> n \<and> (\<forall>d \<in> set ds. length d \<le> MULTILINK_MTU) \<and> (\<forall>a. c' = Inr a \<longrightarrow> network_stream a = (n, ds))"
proof -
  let ?R = "\<lambda>b b' :: outbox. b = b' \<and> fst b = n \<and> length (snd b) \<le> n \<and> (\<forall>d \<in> set (snd b). length d \<le> MULTILINK_MTU)"
  have n: "networks_alike outbox_ops outbox_ops ?R"
    by unfold_locales (auto simp: outbox_ops_def assertR_def)
  show ?thesis
  proof (cases "bindR c (\<lambda>tr. Transport_network_send_ready (n + 1) outbox_ops tops (tr\<lparr>network_stream := (n, [])\<rparr>))")
    case (Inl e)
    with assms show ?thesis by (auto simp: transport_ready_def simp del: Transport_network_send_ready.simps)
  next
    case (Inr a)
    then obtain tr where tr: "c = Inr tr" "Transport_network_send_ready (n + 1) outbox_ops tops (tr\<lparr>network_stream := (n, [])\<rparr>) = Inr a"
      by (auto simp: result_simps)
    have "networks_alike.alike ?R (tr\<lparr>network_stream := (n, [])\<rparr>) (tr\<lparr>network_stream := (n, [])\<rparr>)"
      unfolding networks_alike.alike_def [OF n] by (intro exI [of _ "(n, [])"]) (simp add: with_network_def)
    from networks_alike.send_ready_alike [OF n this, of "n + 1" tops] tr(2) have "networks_alike.alike ?R a a" by simp
    then have "?R (network_stream a) (network_stream a)" unfolding networks_alike.alike_def [OF n] by blast
    with assms Inr show ?thesis by (auto simp: transport_ready_def simp del: Transport_network_send_ready.simps)
  qed
qed

lemma tunnel_mux_ok:
  assumes "\<And>r ls. mset (t_shuffle E r ls) = mset ls"
  shows "env_ok (tunnel_mux E)"
  using assms outbox_fits [of "n_tops E"] by (simp add: env_ok_def tunnel_mux_def)

text \<open>One round more than there is room is enough for the loop of \<open>network_send_ready\<close>.\<close>

definition never_exhausts :: "'t packet_ops \<Rightarrow> bool" where
  "never_exhausts tops \<longleftrightarrow> (\<forall>t. precv tops t \<noteq> Inl Fuel_exhausted)"

abbreviation left_in :: "(outbox, 't) transport \<Rightarrow> nat" where
  "left_in a \<equiv> fst (network_stream a) - length (snd (network_stream a))"

lemma outbox_send: "psend outbox_ops b d = Inr b' \<Longrightarrow> fst b' - length (snd b') < fst b - length (snd b)"
  "psend outbox_ops b d \<noteq> Inl Fuel_exhausted"
  by (auto simp: outbox_ops_def assertR_def split: if_splits)

lemma outbox_once:
  assumes "never_exhausts tops"
  shows "Transport_target_recv_ready_once outbox_ops tops k a \<noteq> Inl Fuel_exhausted"
    and "Transport_target_recv_ready_once outbox_ops tops k a = Inr (b, a') \<Longrightarrow> (if b then left_in a' < left_in a else left_in a' = left_in a)"
  using assms outbox_send
  by (auto simp: Transport_target_recv_ready_once_def Let_def never_exhausts_def result_simps bindR_eq_Inl put_object_def
      split: option.splits)

lemma outbox_pass:
  assumes "never_exhausts tops"
  shows "children_pass outbox_ops tops ks any a \<noteq> Inl Fuel_exhausted"
    and "children_pass outbox_ops tops ks any a = Inr (f, y, a') \<Longrightarrow> left_in a' \<le> left_in a \<and> (y \<longrightarrow> any \<or> left_in a' < left_in a)"
proof (induction ks arbitrary: any a)
  case (Cons k ks)
  {
    case 1
    show ?case
    proof (cases "pis_send_ready outbox_ops (network_stream a)")
      case True
      then show ?thesis using outbox_once(1) [OF assms, of k a] Cons.IH(1)
        by (cases "Transport_target_recv_ready_once outbox_ops tops k a") auto
    qed simp
  next
    case 2
    show ?case
    proof (cases "pis_send_ready outbox_ops (network_stream a)")
      case True
      with 2 obtain b a1 where b: "Transport_target_recv_ready_once outbox_ops tops k a = Inr (b, a1)"
        "children_pass outbox_ops tops ks (any \<or> b) a1 = Inr (f, y, a')" by (auto simp: result_simps)
      from outbox_once(2) [OF assms b(1)] Cons.IH(2) [OF b(2)] show ?thesis by (cases b) auto
    qed (use 2 in auto)
  }
qed simp_all

lemma outbox_rounds:
  assumes "never_exhausts tops" "left_in a < fuel"
  shows "Transport_network_send_ready fuel outbox_ops tops a \<noteq> Inl Fuel_exhausted"
  using assms(2)
proof (induction fuel arbitrary: a)
  case (Suc fuel)
  consider "\<not> pis_send_ready outbox_ops (network_stream a)" | "pis_send_ready outbox_ops (network_stream a)" "special_packet_queue a \<noteq> []"
    | "pis_send_ready outbox_ops (network_stream a)" "special_packet_queue a = []" by blast
  then show ?case
  proof cases
    case 2
    then obtain p ps where q: "special_packet_queue a = p # ps" by (cases "special_packet_queue a") auto
    let ?s = "psend outbox_ops (network_stream a) (transport_packet (fst p) (snd p) [])"
    show ?thesis
    proof (cases ?s)
      case (Inl e)
      with 2 q outbox_send(2) [of "network_stream a"] show ?thesis by (auto simp: Transport_send_special_packet_def)
    next
      case (Inr n)
      from outbox_send(1) [OF this] Suc.prems Suc.IH [of "a\<lparr>special_packet_queue := ps, network_stream := n\<rparr>"] 2 q Inr
      show ?thesis by (simp add: Transport_send_special_packet_def)
    qed
  next
    case 3
    show ?thesis
    proof (cases "children_pass outbox_ops tops (map snd (children a)) False a")
      case (Inl e)
      with 3 outbox_pass(1) [OF assms(1)] show ?thesis by auto
    next
      case (Inr r)
      obtain f y b where r: "r = (f, y, b)" by (cases r)
      with outbox_pass(2) [OF assms(1), of "map snd (children a)" False a f y b] Inr Suc.prems Suc.IH [of b] 3 show ?thesis by auto
    qed
  qed simp
qed simp

text \<open>The outbox is only a device of this model for the call back into the multilink: running \<open>network_send_ready\<close> on the multilink
  itself gives the same packets, the same state of the transport and the same failure, and the rounds of the loop given to it are enough.\<close>

lemma outbox_adequate:
  assumes "mclient m = Inr tr" "never_exhausts (n_tops E)"
  shows "call_on_send_ready (tunnel_mux E) m =
    (case Transport_network_send_ready (room_in m + 1) (Multilink_ops (tunnel_mux E)) (n_tops E) (with_network m tr) of
       Inl e \<Rightarrow> Inr (m\<lparr>mclient := Inl e\<rparr>)
     | Inr b \<Rightarrow> Inr ((network_stream b)\<lparr>mclient :=
         Inr (with_network (room_in m, drop (length (mqueue m)) (mqueue (network_stream b))) b)\<rparr>))
    \<and> Transport_network_send_ready (room_in m + 1) (Multilink_ops (tunnel_mux E)) (n_tops E) (with_network m tr) \<noteq> Inl Fuel_exhausted"
proof -
  let ?n = "room_in m" and ?env = "tunnel_mux E" and ?tops = "n_tops E"
  let ?r = "Transport_network_send_ready (?n + 1) outbox_ops ?tops (with_network (?n, []) tr)"
  have w: "tr\<lparr>network_stream := (?n, [])\<rparr> = with_network (?n, []) tr" by (cases tr) (simp add: with_network_def)
  have fuel: "?r \<noteq> Inl Fuel_exhausted" by (rule outbox_rounds [OF assms(2)]) simp
  note inside = send_ready_inside [of "?n + 1" ?env ?tops m tr]
  show ?thesis
  proof (cases ?r)
    case (Inl e)
    with assms(1) fuel show ?thesis
      unfolding inside by (auto simp: call_on_send_ready_def tunnel_mux_def transport_ready_def w simp del: Transport_network_send_ready.simps)
  next
    case (Inr a)
    then have t: "transport_ready ?tops (Inr tr) ?n = (snd (network_stream a), Inr a)" by (simp add: transport_ready_def w del: Transport_network_send_ready.simps)
    let ?ds = "snd (network_stream a)"
    from outbox_fits [OF t] have f: "length ?ds \<le> ?n" "\<forall>d \<in> set ?ds. length d \<le> MULTILINK_MTU" "network_stream a = (?n, ?ds)" by auto
    from f(1) have "?ds = [] \<or> length (mqueue m) + length ?ds \<le> QUEUE_SIZE" by (cases ?ds) auto
    from send_all_law [OF this f(2), of ?env] obtain k where k: "send_all ?env ?ds m = Inr k" by blast
    have "call_on_send_ready ?env m = Inr (k\<lparr>mclient := Inr a\<rparr>)"
      using t k assms(1) by (simp add: call_on_send_ready_def tunnel_mux_def send_all_client)
    moreover have "with_network (?n, ?ds) a = a" using with_network_same [of a] unfolding f(3) [symmetric] .
    ultimately show ?thesis
      unfolding inside using Inr k send_all_queue [OF k] by (simp del: Transport_network_send_ready.simps)
  qed
qed

section \<open>Nodes\<close>

abbreviation wires :: "(u64 \<Rightarrow> bytes list) \<Rightarrow> bytes set" where
  "wires src \<equiv> Collect (wire_packet src)"

text \<open>
  \<open>tunnel_step E W m m'\<close>: the node runs a handler of its transport, over the multilink; or a handler of its multilink or one of its links; or a
  link is given a new stream; or bytes arrive that continue one of the byte strings \<open>W\<close> the other side has written.
\<close>

inductive tunnel_step :: "('s, 't) tunnel_env \<Rightarrow> bytes set \<Rightarrow> ('s, 't tunnel_client) multilink \<Rightarrow> ('s, 't tunnel_client) multilink \<Rightarrow> bool"
  for E :: "('s, 't) tunnel_env" and W :: "bytes set" where
  tunnel_handler: "mclient m = Inr tr \<Longrightarrow> transport_step E (Multilink_ops (tunnel_mux E)) recvs (with_network m tr) b \<Longrightarrow>
    tunnel_step E W m ((network_stream b)\<lparr>mclient := Inr (with_network (0, []) b)\<rparr>)"
| tunnel_multilink: "mux_step (tunnel_mux E) (byte_history.new_stream (t_view E)) m ds [] m' \<Longrightarrow> tunnel_step E W m m'"
| tunnel_arrival: "map_of (mlinks m) i = Some l \<Longrightarrow> byte_history.arrives (t_view E) W (lstream l) s \<Longrightarrow>
    tunnel_step E W m (m\<lparr>mlinks := update_link i (l\<lparr>lstream := s\<rparr>) (mlinks m)\<rparr>)"

definition written_by :: "('s, 't) tunnel_env \<Rightarrow> ('s, 'c) multilink \<Rightarrow> bytes set" where
  "written_by E m = (\<lambda>e. v_written (t_view E) (lstream (snd e))) ` set (mlinks m)"

definition tunnel_node :: "nat \<Rightarrow> ('s, 't tunnel_client) multilink" where
  "tunnel_node mtu = Multilink_init (Inr (Transport_create (0, []) mtu))"

text \<open>Two nodes; \<open>wa\<close> and \<open>wb\<close> are all byte strings their links have written so far, those of lost links too.\<close>

inductive tunnel_run :: "('s, 't) tunnel_env \<Rightarrow> ('r, 'u) tunnel_env \<Rightarrow> ('s, 't tunnel_client) multilink \<Rightarrow> ('r, 'u tunnel_client) multilink \<Rightarrow>
    bytes set \<Rightarrow> bytes set \<Rightarrow> bool" for A :: "('s, 't) tunnel_env" and B :: "('r, 'u) tunnel_env" where
  run_start: "tunnel_run A B (tunnel_node i) (tunnel_node j) {} {}"
| run_left: "tunnel_run A B a b wa wb \<Longrightarrow> tunnel_step A wb a a' \<Longrightarrow> tunnel_run A B a' b (wa \<union> written_by A a') wb"
| run_right: "tunnel_run A B a b wa wb \<Longrightarrow> tunnel_step B wa b b' \<Longrightarrow> tunnel_run A B a b' wa (wb \<union> written_by B b')"

text \<open>A node at one end: its targets are packet pairs, its streams byte streams.\<close>

locale tunnel_end =
  packet_pair pops pinv emitted enc room mtu inbox + byte_history sops V
  for pops :: "'p packet_ops" and pinv :: "'p \<Rightarrow> bool" and emitted :: "'p \<Rightarrow> 'o list"
    and enc :: "bytes \<Rightarrow> 'o list" and room :: "'p \<Rightarrow> nat" and mtu :: nat and inbox :: "'p \<Rightarrow> bytes list"
    and sops :: "'s stream_ops" and V :: "'s stream_view" +
  fixes E :: "('s, 'p) tunnel_env" and src :: "u64 \<Rightarrow> bytes list" and msgs :: "u64 \<Rightarrow> bytes list"
  assumes E_ops: "n_tops E = pops" "t_sops E = sops" "t_view E = V"
    and E_laws: "target_laws E pinv emitted inbox src"
    and E_shuffle: "\<And>r ls. mset (t_shuffle E r ls) = mset ls"
    and E_peer: "\<And>chan. length (msgs chan) < 2 ^ 62 \<and> (\<forall>d \<in> set (msgs chan). length d \<le> mtu)"
begin

lemma env_ok_E: "env_ok (tunnel_mux E)" "eops (tunnel_mux E) = sops"
  by (rule tunnel_mux_ok [OF E_shuffle]) (simp add: tunnel_mux_def E_ops)

lemma peer: "peer_ok msgs"
  using E_peer by (simp add: peer_ok_def)

definition client_good :: "'p tunnel_client \<Rightarrow> bool" where
  "client_good c \<longleftrightarrow> (\<forall>tr. c = Inr tr \<longrightarrow> node_inv src msgs tr)"

text \<open>The transport asked for packets by the multilink.\<close>

lemma outbox_sender: "packet_sender pops pinv emitted enc room mtu inbox outbox_ops (\<lambda>b. set (snd b) \<subseteq> wires src) src"
  by unfold_locales (auto simp: outbox_ops_def result_simps)

lemma transport_ready_good:
  assumes "client_good c" "transport_ready pops c n = (ds, c')"
  shows "client_good c' \<and> set ds \<subseteq> wires src"
proof (cases "bindR c (\<lambda>tr. Transport_network_send_ready (n + 1) outbox_ops pops (tr\<lparr>network_stream := (n, [])\<rparr>))")
  case (Inl e)
  with assms show ?thesis by (auto simp: transport_ready_def client_good_def)
next
  case (Inr a)
  note s = outbox_sender
  from Inr obtain tr where tr: "c = Inr tr" "Transport_network_send_ready (n + 1) outbox_ops pops (tr\<lparr>network_stream := (n, [])\<rparr>) = Inr a"
    by (auto simp: result_simps)
  have "packet_sender.good pinv emitted enc mtu inbox (\<lambda>b. set (snd b) \<subseteq> wires src) src msgs (tr\<lparr>network_stream := (n, [])\<rparr>)"
    using assms(1) tr(1) by (simp add: packet_sender.good_def [OF s] client_good_def node_inv_network)
  from packet_sender.network_send_ready_goes [OF s this tr(2)] have "node_inv src msgs a" "set (snd (network_stream a)) \<subseteq> wires src"
    by (simp_all add: packet_sender.goes_def [OF s] packet_sender.good_def [OF s])
  with assms(2) Inr show ?thesis by (auto simp: transport_ready_def client_good_def)
qed

lemma client_run_good:
  assumes "client_run (tunnel_mux E) c ds c'" "client_good c"
  shows "client_good c' \<and> set ds \<subseteq> wires src"
  using assms
proof (induction rule: client_run.induct)
  case (client_cons c n ds c' es c'')
  from client_cons.hyps(1) have "transport_ready pops c n = (ds, c')" by (simp add: tunnel_mux_def E_ops)
  from transport_ready_good [OF client_cons.prems this] client_cons.IH show ?case by auto
qed simp

text \<open>The invariant of a node: of its transport, and of everything its multilink holds, has framed and has heard.\<close>

definition end_inv :: "('s, 'p tunnel_client) multilink \<Rightarrow> bool" where
  "end_inv m \<longleftrightarrow> both.mux_claim (wires msgs) (wires src) m \<and> client_good (mclient m)"

text \<open>To the transport, the multilink is a network that keeps its claim and hands over only packets of the peer.\<close>

lemma multilink_node:
  "packet_node pops pinv emitted enc room mtu inbox (Multilink_ops (tunnel_mux E)) (both.mux_claim (wires msgs) (wires src)) src msgs"
proof unfold_locales
  show "both.mux_claim (wires msgs) (wires src) n'"
    if "both.mux_claim (wires msgs) (wires src) n" "wire_packet src p" "psend (Multilink_ops (tunnel_mux E)) n p = Inr n'" for n p n'
    by (rule both.claim_push [OF that(1) _ that(3)]) (simp add: that(2))
  show "both.mux_claim (wires msgs) (wires src) n' \<and> (\<forall>p. r = Some p \<longrightarrow> wire_packet msgs p)"
    if "both.mux_claim (wires msgs) (wires src) n" "precv (Multilink_ops (tunnel_mux E)) n = Inr (r, n')" for n r n'
    using both.claim_precv [OF that(1) env_ok_E that(2)] by simp
qed

lemma tunnel_step_law:
  assumes "tunnel_step E W m m'" "end_inv m" "\<forall>w \<in> W. framed (wires msgs) w"
  shows "end_inv m'"
  using assms(1)
proof cases
  case (tunnel_handler tr recvs b)
  note n = multilink_node and s = packet_node.axioms(1) [OF multilink_node]
  have "packet_sender.good pinv emitted enc mtu inbox (both.mux_claim (wires msgs) (wires src)) src msgs (with_network m tr)"
    using assms(2) tunnel_handler(2) unfolding packet_sender.good_def [OF s] by (simp add: end_inv_def client_good_def node_inv_def)
  from packet_node.transport_step_law [OF n tunnel_handler(3) E_ops(1) E_laws this peer]
  have "node_inv src msgs b" "both.mux_claim (wires msgs) (wires src) (network_stream b)"
    unfolding packet_sender.good_def [OF s] by blast+
  then show ?thesis
    unfolding tunnel_handler(1) end_inv_def both.claim_client by (simp add: client_good_def node_inv_def)
next
  case (tunnel_multilink ds)
  from assms(2) have i: "both.mux_claim (wires msgs) (wires src) m" "client_good (mclient m)" by (simp_all add: end_inv_def)
  from client_run_good [OF mux_step_client [OF tunnel_multilink] i(2)]
  have c: "client_good (mclient m')" "wires src \<union> set ds = wires src" by auto
  from both.mux_step_claim [OF tunnel_multilink [unfolded E_ops] env_ok_E i(1)] show ?thesis
    unfolding end_inv_def c(2) using c(1) by blast
next
  case (tunnel_arrival i l s)
  note arr = tunnel_arrival(3) [unfolded E_ops]
  from assms(2) have c: "both.mux_claim (wires msgs) (wires src) m" "client_good (mclient m)" by (simp_all add: end_inv_def)
  then have "both.links_ok (wires msgs) (wires src) m" by (simp add: both.mux_claim_def)
  from both.links_ok_lookup [OF this tunnel_arrival(2)] have l: "sends_only (wires src) l" "hears (wires msgs) l" by blast+
  have "sends_only (wires src) (l\<lparr>lstream := s\<rparr>)"
    using l(1) arr by (simp add: sends_only_def link_sent_def arrives_def)
  with both.claim_stream [OF c(1) tunnel_arrival(2)] arrives_hears [OF l(2) arr assms(3)] c(2) show ?thesis
    unfolding tunnel_arrival(1) end_inv_def by simp
qed

text \<open>Everything the node's links have written is framed data of its targets.\<close>

lemma written_framed:
  assumes "end_inv m" "w \<in> written_by E m"
  shows "framed (wires src) w"
proof -
  from assms(2) obtain e where e: "e \<in> set (mlinks m)" "w = v_written V (lstream (snd e))" by (auto simp: written_by_def E_ops)
  from assms(1) e(1) have "sends_only (wires src) (snd e)" by (simp add: end_inv_def both.mux_claim_def both.links_ok_def)
  then show ?thesis unfolding sends_only_def framed_def link_sent_def e(2) by blast
qed

lemma end_inv_start: "end_inv (tunnel_node k)"
  by (simp add: end_inv_def tunnel_node_def both.mux_claim_init client_good_def node_inv_create) (simp add: Multilink_init_def node_inv_create)

lemma end_inv_mux_ok: "end_inv m \<Longrightarrow> mux_ok m"
  by (simp add: end_inv_def both.mux_claim_def)

text \<open>What the invariant says of the targets.\<close>

lemma end_inv_target:
  assumes "end_inv m" "mclient m = Inr tr" "map_of (children tr) chan = Some k" "ctarget (objects tr k) = Some t"
  shows "unat (last_forwarded_packet (objects tr k)) \<le> length (msgs chan)
     \<and> emitted t = concat (map enc (take (unat (last_forwarded_packet (objects tr k))) (msgs chan)))"
proof -
  have inv: "node_inv src msgs tr" using assms(1,2) by (simp add: end_inv_def client_good_def)
  have "(chan, k) \<in> set (children tr)" using assms(3) by (rule map_of_SomeD)
  with inv have "obj_ok src msgs (objects tr k)" "cid (objects tr k) = chan" by (auto simp: node_inv_def)
  with assms(4) show ?thesis by (simp add: obj_ok_def chan_ok_def reorder_ok_def)
qed

end

lemma tunnel_run_law:
  assumes "tunnel_run A B a b wa wb"
    and A: "tunnel_end (n_tops A) ainv aemitted aenc aroom amtu ainbox (t_sops A) (t_view A) A asrc bsrc"
    and B: "tunnel_end (n_tops B) binv bemitted benc broom bmtu binbox (t_sops B) (t_view B) B bsrc asrc"
  shows "tunnel_end.end_inv ainv aemitted aenc amtu ainbox (t_view A) asrc bsrc a
     \<and> tunnel_end.end_inv binv bemitted benc bmtu binbox (t_view B) bsrc asrc b
     \<and> (\<forall>w \<in> wa. framed (wires asrc) w) \<and> (\<forall>w \<in> wb. framed (wires bsrc) w)"
  using assms(1)
proof induction
  case (run_start i j)
  show ?case by (simp add: tunnel_end.end_inv_start [OF A] tunnel_end.end_inv_start [OF B])
next
  case (run_left a b wa wb a')
  with tunnel_end.tunnel_step_law [OF A run_left.hyps(2)] tunnel_end.written_framed [OF A, of a'] show ?case by blast
next
  case (run_right a b wa wb b')
  with tunnel_end.tunnel_step_law [OF B run_right.hyps(2)] tunnel_end.written_framed [OF B, of b'] show ?case by blast
qed

section \<open>A tunnel with one packet\<close>

text \<open>The streams are sockets; the left side has a target that supplies a packet, the right side creates targets on demand.\<close>

type_synonym example_stream = "(nat, sock) reactor \<times> bytes"
type_synonym example_pair = "(nat, sock) reactor length_packet_stream"

definition example_ops :: "example_stream stream_ops" where
  "example_ops = logged_ops (FD_ops sock_kernel 0)"

definition example_view :: "example_stream stream_view" where
  "example_view = logged_view sock.fd_inv (\<lambda>r. tx (kernel r)) (\<lambda>r. concat (rx (kernel r)))"

definition left_end :: "(example_stream, example_pair) tunnel_env" where
  "left_end = \<lparr>n_tops = example_tops, n_creator = (\<lambda>_. Pending), n_fresh = (\<lambda>chan t. chan = 5 \<and> t = supplying),
     n_moves = (\<lambda>t t'. False), t_sops = example_ops, t_view = example_view, t_shuffle = (\<lambda>r ls. rev ls)\<rparr>"

definition right_end :: "(example_stream, example_pair) tunnel_env" where
  "right_end = \<lparr>n_tops = example_tops, n_creator = (\<lambda>_. Completed example_target), n_fresh = (\<lambda>chan t. t = example_target),
     n_moves = (\<lambda>t t'. False), t_sops = example_ops, t_view = example_view, t_shuffle = (\<lambda>r ls. rev ls)\<rparr>"

definition five :: "u64 \<Rightarrow> bytes list" where
  "five chan = (if chan = 5 then [[7]] else [])"

abbreviation nothing :: "u64 \<Rightarrow> bytes list" where "nothing \<equiv> (\<lambda>_. [])"

lemma example_history: "byte_history example_ops example_view"
  unfolding example_ops_def example_view_def by (rule sock.fd_stream.logged_history)

abbreviation "example_inv \<equiv> sock.fd_stream.length_inv"
abbreviation "example_emitted \<equiv> sock.fd_stream.writer_sent"
abbreviation "example_room \<equiv> (\<lambda>p :: example_pair. if send_buffer_current p = [] then 1 else 0 :: nat)"
abbreviation "example_inbox \<equiv> sock.fd_stream.length_inbox"

lemma example_tunnel_end:
  assumes "n_tops E = example_tops" "t_sops E = example_ops" "t_view E = example_view" "t_shuffle E = (\<lambda>r ls. rev ls)"
    and "target_laws E example_inv example_emitted example_inbox src" "msgs = five \<or> msgs = nothing"
  shows "tunnel_end (n_tops E) example_inv example_emitted length_frame example_room (PACKET_MTU - 4) example_inbox (t_sops E) (t_view E) E src msgs"
  unfolding assms(1-3)
  by (rule tunnel_end.intro [OF sock.fd_stream.length_pair.packet_pair_axioms example_history], unfold_locales)
    (use assms in \<open>auto simp: five_def PACKET_MTU_def\<close>)

lemma example_ends:
  "tunnel_end (n_tops left_end) example_inv example_emitted length_frame example_room (PACKET_MTU - 4) example_inbox
    (t_sops left_end) (t_view left_end) left_end five nothing"
  "tunnel_end (n_tops right_end) example_inv example_emitted length_frame example_room (PACKET_MTU - 4) example_inbox
    (t_sops right_end) (t_view right_end) right_end nothing five"
  by (rule example_tunnel_end; use supplying_ok example_target_ok in
      \<open>simp add: left_end_def right_end_def target_laws_def five_def sock.fd_stream.writer_sent_def LengthPacketStream_create_def sock_reactor_def\<close>)+

abbreviation the_packet :: bytes where "the_packet \<equiv> transport_packet 5 0 [7]"
abbreviation the_frame :: bytes where "the_frame \<equiv> link_frame 0 the_packet"
abbreviation idle_sock :: "(nat, sock) reactor" where "idle_sock \<equiv> sock_reactor \<lparr>rx = [], wx = [100], tx = []\<rparr>"

lemma the_frame_length: "length the_packet = 17" "length the_frame = 20" "the_frame \<noteq> []"
  by (simp_all add: transport_packet_def link_frame_def)

lemma example_new_stream:
  assumes "t_view E = example_view"
  shows "byte_history.new_stream (t_view E) (idle_sock, [])"
  unfolding assms byte_history.new_stream_def [OF example_history]
  by (simp add: example_view_def logged_view_def sock_reactor_def sock.fd_inv_def)

lemma example_add_link:
  fixes E :: "(example_stream, example_pair) tunnel_env"
  assumes "t_view E = example_view"
  shows "\<exists>m l. tunnel_step E W (tunnel_node k) m \<and> Link_init (idle_sock, []) = Inr l \<and> mlinks m = [(0, l)] \<and> mqueue m = []
     \<and> assigned_packets m = (\<lambda>_. []) \<and> mclient m = Inr (Transport_create (0, []) k) \<and> mlast_seq m = 0"
proof -
  from pair_add_link [of "(idle_sock, []) :: example_stream" "Inr (Transport_create (0, []) k) :: example_pair tunnel_client"] obtain l m where
    m: "Link_init (idle_sock, []) = Inr l" "Multilink_add_link (idle_sock, []) [] 0 (tunnel_node k :: (example_stream, example_pair tunnel_client) multilink) = Inr (0, m)" "mlinks m = [(0, l)]"
      "mqueue m = []" "assigned_packets m = (\<lambda>_. [])" "mclient m = Inr (Transport_create (0, []) k)" "mlast_seq m = 0"
    unfolding tunnel_node_def by (elim exE conjE)
  from tunnel_multilink [OF mux_add_link [where C = "byte_history.new_stream (t_view E)", OF example_new_stream [OF assms] m(2)]] m show ?thesis by blast
qed

text \<open>The left side's transport takes the packet of its target and has nothing more to send.\<close>

definition idle :: "(outbox, example_pair) transport \<Rightarrow> bool" where
  "idle tr \<longleftrightarrow> special_packet_queue tr = [] \<and> children tr = [(5, 0)]
     \<and> (\<exists>t. ctarget (objects tr 0) = Some t \<and> precv example_tops t = Inr (None, t))"

lemma left_open:
  assumes "mclient m = Inr (Transport_create (0, []) k)" "mqueue m = []"
  shows "\<exists>m' tr. tunnel_step left_end W m m' \<and> mclient m' = Inr tr \<and> idle tr \<and> mqueue m' = [the_packet]
     \<and> mlinks m' = mlinks m \<and> assigned_packets m' = assigned_packets m \<and> mlast_seq m' = mlast_seq m"
proof -
  let ?ops = "Multilink_ops (tunnel_mux left_end)"
  let ?a = "with_network m (Transport_create (0, []) k :: (outbox, example_pair) transport)"
  from supplying_recv obtain t' where t': "precv example_tops supplying = Inr (Some [7], t')" "precv example_tops t' = Inr (None, t')" by blast
  let ?m = "m\<lparr>mqueue := [the_packet], mtasks := mtasks m @ [Task_some_link_send_ready]\<rparr>"
  have send: "psend ?ops m the_packet = Inr ?m"
    using assms(2) by (simp add: Multilink_ops_def AbstractPacketStream_send_def send_with_offset_cases MULTILINK_MTU_def LINK_MTU_def
        HEADER_SIZE_def QUEUE_SIZE_def)
  have ready: "pis_send_ready ?ops m" "pis_send_ready ?ops ?m"
    using assms(2) by (simp_all add: Multilink_ops_def Multilink_is_send_ready_def QUEUE_SIZE_def)
  have "\<exists>b. Transport_add_target 3 ?ops example_tops 5 (Completed supplying) ?a = Inr b \<and> network_stream b = ?m
      \<and> special_packet_queue b = [] \<and> children b = [(5, 0)] \<and> ctarget (objects b 0) = Some t'"
    using t' send ready
    by (simp add: Transport_add_target_def Transport_target_connected_def Transport_target_send_ready_def child_send_ready_def
        Let_def put_object_def new_child_def Transport_create_def with_network_def numeral_3_eq_3 Transport_target_recv_ready_once_def)
  then obtain b where b: "Transport_add_target 3 ?ops example_tops 5 (Completed supplying) ?a = Inr b" "network_stream b = ?m"
      "special_packet_queue b = []" "children b = [(5, 0)]" "ctarget (objects b 0) = Some t'" by (elim exE conjE)
  have "transport_step left_end ?ops False ?a b"
    using b(1) by (intro step_open) (simp_all add: left_end_def CLOSE_CHANNEL_def LAST_CHANNEL_def)
  from tunnel_handler [OF assms(1) this, of W] have "tunnel_step left_end W m (?m\<lparr>mclient := Inr (with_network (0, []) b)\<rparr>)" by (simp add: b(2))
  then show ?thesis using b(3-5) t'(2)
    by (intro exI [of _ "?m\<lparr>mclient := Inr (with_network (0, []) b)\<rparr>"] exI [of _ "with_network (0, []) b"]) (simp add: idle_def)
qed

lemma idle_ready:
  assumes "mclient m = Inr tr" "idle tr"
  shows "\<exists>tr'. call_on_send_ready (tunnel_mux left_end) m = Inr (m\<lparr>mclient := Inr tr'\<rparr>) \<and> idle tr'"
proof -
  have "\<exists>tr'. transport_ready example_tops (Inr tr) n = ([], Inr tr') \<and> idle tr'" for n
    using assms(2)
    by (auto simp: transport_ready_def idle_def outbox_ops_def Transport_target_recv_ready_once_def put_object_def)
  from this [of "room_in m"] assms(1) show ?thesis
    by (auto simp: call_on_send_ready_def tunnel_mux_def left_end_def)
qed

lemma example_link:
  assumes "Link_init s = Inr l"
  shows "lstream l = s" "\<not> timed_out l" "\<not> bufferbloat_avoidance l" "lsend_buffer_current l = []" "in_flight_queue l = []"
    "last_pong_request_time l = 0" "last_ping_sent l = 0" "last_seq_sent l = 0" "bandwidth l = BandwidthEstimator_init"
    "lrecv_buffer l = []" "waiting_recv_packet l = None"
  using assms by (auto simp: Link_init_def Stats_add_and_remove_back_def Stats_init_def Stats_add_def)

lemma left_send:
  assumes "mlinks m = [(0, l)]" "Link_init s = Inr l" "mqueue m = [the_packet]" "assigned_packets m = (\<lambda>_. [])" "mlast_seq m = 0"
    and "mclient m = Inr tr" "idle tr"
  shows "\<exists>m' l'. Multilink_link_send_ready 2 (tunnel_mux left_end) 9 0 m = Inr m' \<and> mlinks m' = [(0, l')]
     \<and> lstream l' = s \<and> lsend_buffer_current l' = the_frame \<and> \<not> timed_out l' \<and> bandwidth l' = BandwidthEstimator_init"
proof -
  note l = example_link [OF assms(2)]
  from idle_ready [OF assms(6,7)] obtain tr1 where
    c1: "call_on_send_ready (tunnel_mux left_end) m = Inr (m\<lparr>mclient := Inr tr1\<rparr>)" "idle tr1" by blast
  let ?k = "m\<lparr>mclient := Inr tr1\<rparr>"
  let ?k2 = "?k\<lparr>assigned_packets := (\<lambda>_. [])(0 := [the_packet]), mqueue := []\<rparr>"
  have rq: "Multilink_request_packets ?k = ?k2"
    using assms(1,3,4) by (simp add: Multilink_request_packets_def Multilink_assign_links_until_def drain_target_def QUEUE_SIZE_def
        make_heap_def push_heap_def pop_heap_def sift_up.simps sift_down.simps lesser_child_def swap_def)
  have "\<exists>l'. Link_send 9 1 the_packet l = Inr (True, l') \<and> lstream l' = s \<and> lsend_buffer_current l' = the_frame \<and> \<not> timed_out l'
      \<and> bandwidth l' = BandwidthEstimator_init"
    using l by (simp add: Link_send_def Link_send_aux_def Link_should_ping_def PING_INTERVAL_def
        Link_raw_send_packet_def Link_format_send_packet_def LINK_MTU_def HEADER_SIZE_def lschedule_def the_frame_length)
  then obtain l' where l': "Link_send 9 1 the_packet l = Inr (True, l')" "lstream l' = s" "lsend_buffer_current l' = the_frame"
    "\<not> timed_out l'" "bandwidth l' = BandwidthEstimator_init" by (elim exE conjE)
  let ?n = "?k2\<lparr>mlast_seq := 1, mlinks := [(0, l')], assigned_packets := (\<lambda>_. [])(0 := [])\<rparr>"
  from idle_ready [of ?n tr1] c1(2) obtain tr2 where
    c2: "call_on_send_ready (tunnel_mux left_end) ?n = Inr (?n\<lparr>mclient := Inr tr2\<rparr>)" by auto
  let ?n2 = "?n\<lparr>mclient := Inr tr2\<rparr>"
  have turn2: "send_ready_loop 1 (tunnel_mux left_end) 9 0 ?n = Inr ?n2"
    using loop_turn [of ?n "tunnel_mux left_end" ?n2 ?n2 0 0 9] c2 by (simp add: QUEUE_SIZE_def Multilink_request_packets_def)
  have "send_ready_loop (Suc 1) (tunnel_mux left_end) 9 0 m = send_ready_loop 1 (tunnel_mux left_end) 9 0 ?n"
  proof (subst loop_turn)
    show "(if length (mqueue m) < QUEUE_SIZE * 3 div 4 then call_on_send_ready (tunnel_mux left_end) m else Inr m) = Inr ?k"
      using assms(3) c1(1) by (simp add: QUEUE_SIZE_def)
    show "?k2 = (if assigned_packets ?k 0 = [] then Multilink_request_packets ?k else ?k)"
      using assms(4) rq by simp
  qed (use assms(1,5) l'(1) in \<open>simp add: Let_def update_link_def del: send_ready_loop.simps\<close>)
  with turn2 have "Multilink_link_send_ready 2 (tunnel_mux left_end) 9 0 m = Inr ?n2"
    using assms(1) l(2) by (simp add: Multilink_link_send_ready_def numeral_2_eq_2 del: send_ready_loop.simps)
  with l' show ?thesis by (intro exI [of _ ?n2] exI [of _ l']) simp
qed

text \<open>The link writes the frame to its socket.\<close>

lemma left_write:
  assumes "mlinks m = [(0, l)]" "lstream l = (idle_sock, [])" "lsend_buffer_current l = the_frame" "\<not> timed_out l"
    "bandwidth l = BandwidthEstimator_init"
  shows "\<exists>m'. tunnel_step left_end W m m' \<and> the_frame \<in> written_by left_end m'"
proof -
  let ?s = "(sock_reactor \<lparr>rx = [], wx = [], tx = the_frame\<rparr>, []) :: example_stream"
  have sw: "swrite example_ops (lstream l) the_frame = Inr (20, ?s)"
    using the_frame_length by (simp add: assms(2) example_ops_def logged_ops_def FD_ops_def FD_write_def sock_kernel_def sock_write_def sock_reactor_def)
  have w: "write_loop example_ops (lstream l) (lsend_buffer_current l) = Inr (?s, [])"
    unfolding assms(3) using the_frame_length sw by (simp add: write_loop.simps)
  have "\<exists>l'. Link_transport_write_ready example_ops True 9 l = Inr l' \<and> lstream l' = ?s"
    unfolding write_ready_unfold [OF assms(4) w]
    by (simp add: assms(5) BandwidthEstimator_data_written_def BandwidthEstimator_init_def lschedule_def)
  then obtain l' where l': "Link_transport_write_ready example_ops True 9 l = Inr l'" "lstream l' = ?s" by blast
  let ?m = "m\<lparr>mlinks := update_link 0 l' (mlinks m)\<rparr>"
  have "link_step (eops (tunnel_mux left_end)) l Quiet l'"
    using l'(1) by (auto simp: tunnel_mux_def left_end_def intro: link_step.intros)
  from mux_link [OF _ this, of m 0] assms(1)
  have "mux_step (tunnel_mux left_end) (byte_history.new_stream (t_view left_end)) m [] [] ?m" by simp
  from tunnel_multilink [OF this] show ?thesis
    using l'(2) assms(1) by (intro exI [of _ ?m])
      (simp add: written_by_def update_link_def left_end_def example_view_def logged_view_def sock_reactor_def)
qed

lemma left_run: "\<exists>a wa. tunnel_run left_end right_end a (tunnel_node j) wa {} \<and> the_frame \<in> wa"
proof -
  have v: "t_view left_end = example_view" by (simp add: left_end_def)
  note start = run_start [of left_end right_end 1000 j]
  from example_add_link [OF v, of "{}" 1000] obtain m1 l where
    m1: "tunnel_step left_end {} (tunnel_node 1000) m1" "Link_init (idle_sock, []) = Inr l" "mlinks m1 = [(0, l)]" "mqueue m1 = []"
      "assigned_packets m1 = (\<lambda>_. [])" "mclient m1 = Inr (Transport_create (0, []) 1000)" "mlast_seq m1 = 0" by (elim exE conjE)
  note r1 = run_left [OF start m1(1)]
  from left_open [OF m1(6,4), of "{}"] obtain m2 tr where
    m2: "tunnel_step left_end {} m1 m2" "mclient m2 = Inr tr" "idle tr" "mqueue m2 = [the_packet]" "mlinks m2 = mlinks m1"
      "assigned_packets m2 = assigned_packets m1" "mlast_seq m2 = mlast_seq m1" by (elim exE conjE)
  note r2 = run_left [OF r1 m2(1)]
  from left_send [of m2 l _ tr] m1 m2 obtain m3 l3 where
    m3: "Multilink_link_send_ready 2 (tunnel_mux left_end) 9 0 m2 = Inr m3" "mlinks m3 = [(0, l3)]" "lstream l3 = (idle_sock, [])"
      "lsend_buffer_current l3 = the_frame" "\<not> timed_out l3" "bandwidth l3 = BandwidthEstimator_init" by metis
  note A = example_ends(1)
  have ok: "env_ok (tunnel_mux left_end)" using tunnel_end.env_ok_E [OF A] by blast
  have both_ok: "mux_ok m2"
    using tunnel_end.end_inv_mux_ok [OF A] tunnel_run_law [OF r2 example_ends] by blast
  from taken_exists [OF link_send_ready_conserves [OF ok both_ok m3(1)]] obtain ds where "taken (tunnel_mux left_end) m2 ds m3" ..
  from tunnel_multilink [OF mux_send_ready [OF m3(1) this]] have "tunnel_step left_end {} m2 m3" .
  note r3 = run_left [OF r2 this]
  from left_write [OF m3(2-6), of "{}"] obtain m4 where m4: "tunnel_step left_end {} m3 m4" "the_frame \<in> written_by left_end m4" by blast
  from run_left [OF r3 m4(1)] m4(2) show ?thesis by blast
qed

text \<open>On the right side the frame arrives, and the transport sends its packet to a new target.\<close>

lemma right_recv:
  assumes "mclient m = Inr (Transport_create (0, []) k)" "mlinks m = [(0, l)]" "waiting_recv_packet l = Some the_packet" "\<not> timed_out l"
    and "mqueue m = []"
  shows "\<exists>m' tr t. tunnel_step right_end W m m' \<and> mclient m' = Inr tr \<and> map_of (children tr) 5 = Some 0
     \<and> ctarget (objects tr 0) = Some t \<and> last_forwarded_packet (objects tr 0) = 1"
proof -
  let ?ops = "Multilink_ops (tunnel_mux right_end)"
  let ?a = "with_network m (Transport_create (0, []) k :: (outbox, example_pair) transport)"
  let ?t = "schedule Run_write_ready (example_target\<lparr>send_buffer_current := length_frame [7]\<rparr>)"
  have t: "precv example_tops example_target = Inr (None, example_target)" "psend example_tops example_target [7] = Inr ?t"
    "pis_send_ready example_tops example_target"
    by (simp_all add: stream_eval packet_complete_def)
  have "\<exists>m1 m2. precv ?ops m = Inr (Some the_packet, m1) \<and> precv ?ops m1 = Inr (None, m2) \<and> mqueue m1 = []"
    using assms(2-5) by (simp add: Multilink_ops_def Multilink_recv_def Multilink_shuffle_links_def tunnel_mux_def right_end_def Link_recv_def
        lschedule_def)
  then obtain m1 m2 where m: "precv ?ops m = Inr (Some the_packet, m1)" "precv ?ops m1 = Inr (None, m2)" "mqueue m1 = []" by (elim exE conjE)
  have ready: "pis_send_ready ?ops m1" by (simp add: Multilink_ops_def Multilink_is_send_ready_def m(3) QUEUE_SIZE_def)
  have chan: "5 \<noteq> CLOSE_CHANNEL" by (simp add: CLOSE_CHANNEL_def LAST_CHANNEL_def)
  have "\<exists>b. Transport_network_recv_ready 2 1 ?ops example_tops (\<lambda>_. Completed example_target) ?a = Inr b
      \<and> map_of (children b) 5 = Some 0 \<and> ctarget (objects b 0) = Some ?t \<and> last_forwarded_packet (objects b 0) = 1"
    using m(1,2) t ready chan
    by (simp add: numeral_2_eq_2 Transport_network_packet_def Transport_place_packet_def Transport_get_child_stream_def
        Transport_create_def with_network_def Transport_add_target_def Transport_target_connected_def Transport_target_send_ready_def
        child_send_ready_def Let_def put_object_def new_child_def Transport_target_recv_ready_once_def
        child_place_def MAX_BUFFER_PACKETS_def)
  then obtain b where b: "Transport_network_recv_ready 2 1 ?ops example_tops (\<lambda>_. Completed example_target) ?a = Inr b"
      "map_of (children b) 5 = Some 0" "ctarget (objects b 0) = Some ?t" "last_forwarded_packet (objects b 0) = 1" by (elim exE conjE)
  have "transport_step right_end ?ops True ?a b"
    using b(1) by (intro step_recv [where fuel = 2 and inner = 1]) (simp add: right_end_def)
  from tunnel_handler [OF assms(1) this, of W] b(2-4) show ?thesis
    by (intro exI [of _ "(network_stream b)\<lparr>mclient := Inr (with_network (0, []) b)\<rparr>"] exI [of _ "with_network (0, []) b"] exI [of _ ?t]) simp
qed

lemma right_read:
  assumes "mlinks m = [(0, l)]" "Link_init (sock_reactor \<lparr>rx = [the_frame], wx = [100], tx = []\<rparr>, the_frame) = Inr l"
  shows "\<exists>m' l'. tunnel_step right_end W m m' \<and> mclient m' = mclient m \<and> mqueue m' = mqueue m \<and> mlinks m' = [(0, l')]
     \<and> waiting_recv_packet l' = Some the_packet \<and> \<not> timed_out l'"
proof -
  let ?s = "(sock_reactor \<lparr>rx = [], wx = [100], tx = []\<rparr>, the_frame) :: example_stream"
  note l = example_link [OF assms(2)]
  have rd: "sread example_ops (lstream l) LINK_MTU = Inr (the_frame, ?s)" "sread example_ops ?s k = Inr ([], ?s)" for k
    using the_frame_length
    by (simp_all add: l(1) example_ops_def logged_ops_def FD_ops_def FD_read_def sock_kernel_def sock_read_def sock_reactor_def LINK_MTU_def)
  let ?l = "l\<lparr>lstream := ?s, lrecv_buffer := the_frame\<rparr>"
  let ?m = "lschedule Task_on_recv_ready (?l\<lparr>waiting_recv_packet := Some the_packet\<rparr>)\<lparr>lrecv_buffer := []\<rparr>"
  have "Link_try_parse_recv_packet 9 ?l = Inr (True, ?m)"
    using link_frame_size [of the_packet 0 "[]"] the_frame_length
    by (simp add: Link_try_parse_recv_packet_def LINK_MTU_def HEADER_SIZE_def Link_parse_recv_packet_def l
        read_at_def lschedule_def link_frame_def)
  moreover have full: "Link_parse_loop 9 k = Inr k" if "waiting_recv_packet k = Some d" for k :: "example_stream link" and d
    using that by (subst Link_parse_loop.simps) simp
  ultimately have "Link_parse_loop 9 ?l = Inr ?m"
    by (subst Link_parse_loop.simps) (simp add: l lschedule_def)
  then have "\<exists>l'. Link_transport_read_ready 2 example_ops 9 l = Inr l' \<and> waiting_recv_packet l' = Some the_packet \<and> \<not> timed_out l'"
    using l rd full by (simp add: Link_transport_read_ready_def numeral_2_eq_2 lschedule_def the_frame_length)
  then obtain l' where l': "Link_transport_read_ready 2 example_ops 9 l = Inr l'" "waiting_recv_packet l' = Some the_packet"
    "\<not> timed_out l'" by (elim exE conjE)
  let ?n = "m\<lparr>mlinks := update_link 0 l' (mlinks m)\<rparr>"
  have "link_step (eops (tunnel_mux right_end)) l Quiet l'"
    using l'(1) by (auto simp: tunnel_mux_def right_end_def intro: link_step.intros)
  from mux_link [OF _ this, of m 0] assms(1)
  have "mux_step (tunnel_mux right_end) (byte_history.new_stream (t_view right_end)) m [] [] ?n" by simp
  from tunnel_multilink [OF this, of W] l'(2,3) assms(1) show ?thesis
    by (intro exI [of _ ?n] exI [of _ l']) (simp add: update_link_def)
qed

lemma right_run:
  assumes "tunnel_run A right_end a (tunnel_node j) wa wb" "the_frame \<in> wa"
  shows "\<exists>b wb' tr t. tunnel_run A right_end a b wa wb' \<and> mclient b = Inr tr \<and> map_of (children tr) 5 = Some 0
     \<and> ctarget (objects tr 0) = Some t \<and> last_forwarded_packet (objects tr 0) = 1"
proof -
  have v: "t_view right_end = example_view" by (simp add: right_end_def)
  from example_add_link [OF v, of wa j] obtain m1 l where
    m1: "tunnel_step right_end wa (tunnel_node j) m1" "Link_init (idle_sock, []) = Inr l" "mlinks m1 = [(0, l)]" "mqueue m1 = []"
      "mclient m1 = Inr (Transport_create (0, []) j)" by (elim exE conjE)
  let ?s = "(sock_reactor \<lparr>rx = [the_frame], wx = [100], tx = []\<rparr>, the_frame) :: example_stream"
  have "byte_history.arrives (t_view right_end) wa (lstream l) ?s"
    unfolding v byte_history.arrives_def [OF example_history] using example_link(1) [OF m1(2)] assms(2)
    by (auto simp: example_view_def logged_view_def sock_reactor_def sock.fd_inv_def)
  from tunnel_arrival [of m1 0 l, OF _ this] m1(3) have
    m2: "tunnel_step right_end wa m1 (m1\<lparr>mlinks := [(0, l\<lparr>lstream := ?s\<rparr>)]\<rparr>)" by (simp add: update_link_def)
  have "Link_init ?s = Inr (l\<lparr>lstream := ?s\<rparr>)"
    using m1(2) by (auto simp: Link_init_def Stats_add_and_remove_back_def Stats_init_def Stats_add_def)
  from right_read [OF _ this, of "m1\<lparr>mlinks := [(0, l\<lparr>lstream := ?s\<rparr>)]\<rparr>" wa] m1(4,5) obtain m3 l3 where
    m3: "tunnel_step right_end wa (m1\<lparr>mlinks := [(0, l\<lparr>lstream := ?s\<rparr>)]\<rparr>) m3" "mclient m3 = Inr (Transport_create (0, []) j)" "mqueue m3 = []"
      "mlinks m3 = [(0, l3)]" "waiting_recv_packet l3 = Some the_packet" "\<not> timed_out l3" by auto
  from right_recv [OF m3(2,4,5,6,3), of wa] obtain m4 tr t where
    m4: "tunnel_step right_end wa m3 m4" "mclient m4 = Inr tr" "map_of (children tr) 5 = Some 0" "ctarget (objects tr 0) = Some t"
      "last_forwarded_packet (objects tr 0) = 1" by (elim exE conjE)
  from run_right [OF run_right [OF run_right [OF run_right [OF assms(1) m1(1)] m2] m3(1)] m4(1)] m4(2-5) show ?thesis by blast
qed

section \<open>Properties\<close>

text \<open>C1: the tunnel delivers every channel in order, from target to target. Two transports over two multilinks over links over byte
  streams run all their handlers in any order. Connections are added and break anywhere, channels are opened and closed; between the
  nodes a stream brings, byte by byte, no more than an initial part of what a link of the other side has written by then. Then a
  target that one side has connected to a channel has been sent exactly the first \<open>last_forwarded_packet\<close> packets that the target
  at the other side of the channel supplies, in order, once each, and unchanged.\<close>

theorem Tunnel_end_to_end:
  assumes "tunnel_end (n_tops A) ainv aemitted aenc aroom amtu ainbox (t_sops A) (t_view A) A asrc bsrc"
    and "tunnel_end (n_tops B) binv bemitted benc broom bmtu binbox (t_sops B) (t_view B) B bsrc asrc"
    and "tunnel_run A B a b wa wb" "mclient b = Inr tr" "map_of (children tr) chan = Some k" "ctarget (objects tr k) = Some t"
  shows "unat (last_forwarded_packet (objects tr k)) \<le> length (asrc chan)
     \<and> bemitted t = concat (map benc (take (unat (last_forwarded_packet (objects tr k))) (asrc chan)))"
  using tunnel_run_law [OF assms(3,1,2)] tunnel_end.end_inv_target [OF assms(2) _ assms(4-6)] by blast

theorem Tunnel_end_to_end_witness:
  "\<exists>a b wa wb tr t. tunnel_run left_end right_end a b wa wb \<and> mclient b = Inr tr \<and> map_of (children tr) 5 = Some 0
     \<and> ctarget (objects tr 0) = Some t \<and> sock.fd_stream.writer_sent t = length_frame [7]"
proof -
  from left_run [of 1000] obtain a wa where a: "tunnel_run left_end right_end a (tunnel_node 1000) wa {}" "the_frame \<in> wa" by blast
  from right_run [OF a] obtain b wb tr t where
    b: "tunnel_run left_end right_end a b wa wb" "mclient b = Inr tr" "map_of (children tr) 5 = Some 0"
      "ctarget (objects tr 0) = Some t" "last_forwarded_packet (objects tr 0) = 1" by blast
  from Tunnel_end_to_end [OF example_ends b(1-4)] b(5) have "sock.fd_stream.writer_sent t = length_frame [7]" by (simp add: five_def)
  with b(1-4) show ?thesis by blast
qed

end
