(* ===== verification/Lwip.thy ===== *)
theory Lwip
  imports Streams Ip
begin

text \<open>
  \<^verbatim>\<open>terminate/lwip_tcp.cpp\<close>: TCP connections terminated by the lwIP stack.

  lwIP is a parameter: the operations on a connection's control block that the class calls. A chain of packet buffers is the
  byte string it holds; the null buffer by which lwIP reports the end of the stream is \<open>None\<close>. \<open>serrors\<close> counts the scheduled
  calls of \<open>on_error\<close>, \<open>sreads\<close> the calls of \<open>on_read_ready\<close>, and \<open>released\<close> holds the control blocks handed back to lwIP. The
  address of a peer is its four words, of which IPv4 uses the first.
\<close>

section \<open>Connections\<close>

record 'k lwip_ops =
  tcp_sndbuf :: "'k \<Rightarrow> nat"
  tcp_write :: "'k \<Rightarrow> bytes \<Rightarrow> bool \<times> 'k"
  tcp_output :: "'k \<Rightarrow> bool \<times> 'k"
  tcp_recved :: "'k \<Rightarrow> nat \<Rightarrow> 'k"
  tcp_close :: "'k \<Rightarrow> 'k"
  tcp_abort :: "'k \<Rightarrow> 'k"
  pcb_isipv6 :: "'k \<Rightarrow> bool"
  remote_ip :: "'k \<Rightarrow> u32 list"
  remote_port :: "'k \<Rightarrow> u16"
  local_ip :: "'k \<Rightarrow> u32 list"
  local_port :: "'k \<Rightarrow> u16"

record 'k tcp_stream =
  pcb :: "'k option"
  released :: "'k list"
  recv_queue :: "(bytes option \<times> nat) list"
  serrors :: nat
  sreads :: nat

definition TcpStream_init :: "'k \<Rightarrow> 'k tcp_stream" where
  "TcpStream_init k = \<lparr>pcb = Some k, released = [], recv_queue = [], serrors = 0, sreads = 0\<rparr>"

definition TcpStream_recv_from_pcb :: "bytes option \<Rightarrow> 'k tcp_stream \<Rightarrow> 'k tcp_stream" where
  "TcpStream_recv_from_pcb buf t =
     (let was_empty = (recv_queue t = []); t1 = t\<lparr>recv_queue := recv_queue t @ [(buf, 0)]\<rparr>
      in if was_empty then t1\<lparr>sreads := sreads t1 + 1\<rparr> else t1)"

definition TcpStream_read :: "'k lwip_ops \<Rightarrow> 'k tcp_stream \<Rightarrow> nat \<Rightarrow> (bytes \<times> 'k tcp_stream) result" where
  "TcpStream_read L t n = (case recv_queue t of
       [] \<Rightarrow> Inr ([], t)
     | (None, iter) # q \<Rightarrow> Inr ([], t\<lparr>recv_queue := q, serrors := serrors t + 1\<rparr>)
     | (Some p, iter) # q \<Rightarrow>
         (let read_size = min n (length p - iter);
              iter' = iter + read_size;
              q' = (if iter' = length p then q else (Some p, iter') # q)
          in case pcb t of
               None \<Rightarrow> Inl Undefined_behaviour
             | Some k \<Rightarrow> Inr (take read_size (drop iter p), t\<lparr>recv_queue := q', pcb := Some (tcp_recved L k read_size)\<rparr>)))"

definition TcpStream_write :: "'k lwip_ops \<Rightarrow> 'k tcp_stream \<Rightarrow> bytes \<Rightarrow> (nat \<times> 'k tcp_stream) result" where
  "TcpStream_write L t data = (case pcb t of
       None \<Rightarrow> Inl Undefined_behaviour
     | Some k \<Rightarrow>
         (let n = min (length data) (tcp_sndbuf L k); (ok, k1) = tcp_write L k (take n data) in
          assertR ok (let (ok', k2) = tcp_output L k1 in assertR ok' (Inr (n, t\<lparr>pcb := Some k2\<rparr>)))))"

text \<open>\<open>close\<close> hands the control block back to lwIP.\<close>

definition TcpStream_close :: "'k lwip_ops \<Rightarrow> 'k tcp_stream \<Rightarrow> 'k tcp_stream" where
  "TcpStream_close L t = (case pcb t of None \<Rightarrow> t | Some k \<Rightarrow> t\<lparr>pcb := None, released := tcp_close L k # released t\<rparr>)"

text \<open>The destructor aborts a connection that was not closed.\<close>

definition TcpStream_destroy :: "'k lwip_ops \<Rightarrow> 'k tcp_stream \<Rightarrow> 'k list" where
  "TcpStream_destroy L t = (case pcb t of None \<Rightarrow> released t | Some k \<Rightarrow> tcp_abort L k # released t)"

definition get_remote_address :: "'k lwip_ops \<Rightarrow> 'k tcp_stream \<Rightarrow> IpAddress result" where
  "get_remote_address L t = (case pcb t of
       None \<Rightarrow> Inl Undefined_behaviour
     | Some k \<Rightarrow> Inr (if pcb_isipv6 L k then IpAddress_make6 (remote_ip L k) else IpAddress_make4 (hd (remote_ip L k))))"

definition get_remote_port :: "'k lwip_ops \<Rightarrow> 'k tcp_stream \<Rightarrow> u16 result" where
  "get_remote_port L t = (case pcb t of None \<Rightarrow> Inl Undefined_behaviour | Some k \<Rightarrow> Inr (remote_port L k))"

definition get_local_address :: "'k lwip_ops \<Rightarrow> 'k tcp_stream \<Rightarrow> IpAddress result" where
  "get_local_address L t = (case pcb t of
       None \<Rightarrow> Inl Undefined_behaviour
     | Some k \<Rightarrow> Inr (if pcb_isipv6 L k then IpAddress_make6 (local_ip L k) else IpAddress_make4 (hd (local_ip L k))))"

definition get_local_port :: "'k lwip_ops \<Rightarrow> 'k tcp_stream \<Rightarrow> u16 result" where
  "get_local_port L t = (case pcb t of None \<Rightarrow> Inl Undefined_behaviour | Some k \<Rightarrow> Inr (local_port L k))"

definition TcpStream_ops :: "'k lwip_ops \<Rightarrow> 'k tcp_stream stream_ops" where
  "TcpStream_ops L = \<lparr>sread = TcpStream_read L, swrite = TcpStream_write L, sclose = TcpStream_close L\<rparr>"

section \<open>The network interface\<close>

definition DEVICE_MTU :: nat where "DEVICE_MTU = 1500"

definition NetworkInterface_output :: "IpAddress \<Rightarrow> bytes \<Rightarrow> bytes option" where
  "NetworkInterface_output ip p =
     (if length p > DEVICE_MTU then None
      else Some (put_u16 0 @ put_u16 (htons (if ip_type ip = v4 then 0x0800 else 0x86DD)) @ p))"

definition netif_output :: "u32 \<Rightarrow> bytes \<Rightarrow> bytes option" where
  "netif_output ipaddr p = NetworkInterface_output (IpAddress_make4 ipaddr) p"

definition netif_output_ip6 :: "u32 list \<Rightarrow> bytes \<Rightarrow> bytes option" where
  "netif_output_ip6 ipaddr p = NetworkInterface_output (IpAddress_make6 ipaddr) p"

datatype netif_input = Ip_input bytes | Ip6_input bytes | Dropped

text \<open>The input function of the interface passes a packet to the IPv4 or the IPv6 layer, or drops it.\<close>

definition netif_input_func :: "bytes \<Rightarrow> netif_input" where
  "netif_input_func p =
     (if p = [] then Dropped
      else let version = unat (drop_bit 4 (hd p)) in
        if version = 4 then Ip_input p else if version = 6 then Ip6_input p else Dropped)"

definition NetworkInterface_on_recv :: "bytes \<Rightarrow> netif_input result" where
  "NetworkInterface_on_recv data =
     (if length data > DEVICE_MTU + 4 then Inr Dropped
      else if length data < 4 then Inl Undefined_behaviour
      else Inr (netif_input_func (drop 4 data)))"

text \<open>
  The set-up of the interface: the names lwIP knows it by, and what the calls after \<open>netif_add\<close>, which has to succeed, switch on.
  \<open>tcp_tmr_period\<close> is the period of the timer that drives lwIP, in microseconds.
\<close>

record netif =
  nf_name :: bytes
  nf_addr :: u32
  nf_netmask :: u32
  nf_gw :: u32
  nf_up :: bool
  nf_pretend_tcp :: bool
  nf_default :: bool

record network_interface =
  output_buffer_size :: nat
  tcp_tmr_period :: nat
  iface :: "netif option"

definition NetworkInterface_create :: "(string \<Rightarrow> u32) \<Rightarrow> bool \<Rightarrow> network_interface result" where
  "NetworkInterface_create inet_addr netif_add_ok =
     (let n = \<lparr>nf_name = [104, 111], nf_addr = inet_addr ''10.77.0.2'', nf_netmask = inet_addr ''255.255.255.0'', nf_gw = 0,
               nf_up = False, nf_pretend_tcp = False, nf_default = False\<rparr>
      in assertR netif_add_ok
           (Inr \<lparr>output_buffer_size = DEVICE_MTU + 4, tcp_tmr_period = 250 * 1000,
                 iface = Some (n\<lparr>nf_up := True, nf_pretend_tcp := True, nf_default := True\<rparr>)\<rparr>))"

definition NetworkInterface_destroy :: "network_interface \<Rightarrow> network_interface" where
  "NetworkInterface_destroy i = i\<lparr>iface := None\<rparr>"

section \<open>The listener\<close>

text \<open>The connections passed to \<open>on_accept\<close> are \<open>l_accepted\<close>; \<open>l_credits\<close> counts the calls of \<open>tcp_accepted\<close>, which lets lwIP take another one.\<close>

record 'k tcp_listener =
  l_open :: bool
  l_keepalive :: bool
  l_credits :: nat
  l_accepted :: "'k tcp_stream list"

definition TcpListener_create :: "bool \<Rightarrow> bool \<Rightarrow> bool \<Rightarrow> 'k tcp_listener result" where
  "TcpListener_create tcp_new_ok bind_ok listen_ok =
     assertR tcp_new_ok (assertR bind_ok (assertR listen_ok
       (Inr \<lparr>l_open = True, l_keepalive = True, l_credits = 0, l_accepted = []\<rparr>)))"

definition TcpListener_accept :: "'k \<Rightarrow> 'k tcp_listener \<Rightarrow> 'k tcp_listener" where
  "TcpListener_accept new_pcb l = l\<lparr>l_credits := l_credits l + 1, l_accepted := l_accepted l @ [TcpStream_init new_pcb]\<rparr>"

definition TcpListener_destroy :: "'k tcp_listener \<Rightarrow> 'k tcp_listener" where
  "TcpListener_destroy l = l\<lparr>l_open := False\<rparr>"

section \<open>Runs of a connection\<close>

text \<open>What lwIP and the owner do with a connection: a buffer (or the end of the stream) arrives, bytes are read, bytes are written.\<close>

datatype tcp_op = Tcp_arrive "bytes option" | Tcp_read nat | Tcp_write bytes

fun tcp_step :: "'k lwip_ops \<Rightarrow> tcp_op \<Rightarrow> 'k tcp_stream \<Rightarrow> (bytes list \<times> bytes \<times> 'k tcp_stream) result" where
  "tcp_step L (Tcp_arrive b) t = Inr ([], [], TcpStream_recv_from_pcb b t)"
| "tcp_step L (Tcp_read n) t = bindR (TcpStream_read L t n) (\<lambda>(d, t'). Inr ([d], [], t'))"
| "tcp_step L (Tcp_write d) t = bindR (TcpStream_write L t d) (\<lambda>(n, t'). Inr ([], take n d, t'))"

text \<open>The run collects what each read returned and what the writes reported as written.\<close>

fun tcp_run :: "'k lwip_ops \<Rightarrow> tcp_op list \<Rightarrow> 'k tcp_stream \<Rightarrow> (bytes list \<times> bytes \<times> 'k tcp_stream) result" where
  "tcp_run L [] t = Inr ([], [], t)"
| "tcp_run L (x # xs) t = bindR (tcp_step L x t) (\<lambda>(got, put, t').
     bindR (tcp_run L xs t') (\<lambda>(got', put', t''). Inr (got @ got', put @ put', t'')))"

definition tcp_incoming :: "'k tcp_stream \<Rightarrow> bytes" where
  "tcp_incoming t = concat (map (\<lambda>(b, i). case b of None \<Rightarrow> [] | Some p \<Rightarrow> drop i p) (recv_queue t))"

definition tcp_ends :: "'k tcp_stream \<Rightarrow> nat" where
  "tcp_ends t = length (filter (\<lambda>e. fst e = None) (recv_queue t))"

definition tcp_data :: "tcp_op list \<Rightarrow> bytes" where
  "tcp_data xs = concat (map (\<lambda>x. case x of Tcp_arrive (Some p) \<Rightarrow> p | _ \<Rightarrow> []) xs)"

definition tcp_fins :: "tcp_op list \<Rightarrow> nat" where
  "tcp_fins xs = length (filter (\<lambda>x. x = Tcp_arrive None) xs)"

definition tcp_asked :: "tcp_op list \<Rightarrow> nat list" where
  "tcp_asked xs = concat (map (\<lambda>x. case x of Tcp_read n \<Rightarrow> [n] | _ \<Rightarrow> []) xs)"

lemma tcp_lists:
  "tcp_data (xs @ ys) = tcp_data xs @ tcp_data ys" "tcp_asked (xs @ ys) = tcp_asked xs @ tcp_asked ys"
  "tcp_fins (xs @ ys) = tcp_fins xs + tcp_fins ys"
  by (simp_all add: tcp_data_def tcp_asked_def tcp_fins_def)

text \<open>lwIP reports an error for a write: \<open>tcp_write\<close> does, or it succeeds and \<open>tcp_output\<close> does.\<close>

definition lwip_refuses :: "'k lwip_ops \<Rightarrow> 'k tcp_stream \<Rightarrow> bytes \<Rightarrow> bool" where
  "lwip_refuses L t d = (case pcb t of None \<Rightarrow> False | Some k \<Rightarrow>
     let r = tcp_write L k (take (min (length d) (tcp_sndbuf L k)) d) in fst r \<longrightarrow> \<not> fst (tcp_output L (snd r)))"

section \<open>The connection as a byte stream\<close>

text \<open>
  What lwIP promises: the data of a \<open>tcp_write\<close> that reports success is appended to what the connection has sent, and
  nothing else the class calls changes that. Both \<open>tcp_write\<close> and \<open>tcp_output\<close> may report an error at any time
  (\<open>ERR_MEM\<close> when the queue of segments is full, \<open>ERR_CONN\<close> on a dead connection, and so on).
\<close>

locale lwip =
  fixes L :: "'k lwip_ops" and sent :: "'k \<Rightarrow> bytes"
  assumes write_law: "tcp_write L k d = (True, k') \<Longrightarrow> sent k' = sent k @ d"
    and output_law: "tcp_output L k = (True, k') \<Longrightarrow> sent k' = sent k"
    and recved_law: "sent (tcp_recved L k n) = sent k"
begin

definition tcp_inv :: "'k tcp_stream \<Rightarrow> bool" where
  "tcp_inv t \<longleftrightarrow> pcb t \<noteq> None \<and> (\<forall>(b, i) \<in> set (recv_queue t). case b of None \<Rightarrow> True | Some p \<Rightarrow> i \<le> length p)"

definition tcp_sent :: "'k tcp_stream \<Rightarrow> bytes" where
  "tcp_sent t = (case pcb t of None \<Rightarrow> [] | Some k \<Rightarrow> sent k)"

lemma tcp_read_law:
  assumes "tcp_inv t"
  shows "\<exists>d t'. TcpStream_read L t n = Inr (d, t') \<and> length d \<le> n \<and> tcp_inv t' \<and> tcp_sent t' = tcp_sent t
     \<and> tcp_incoming t = d @ tcp_incoming t' \<and> serrors t' + tcp_ends t' = serrors t + tcp_ends t"
proof -
  from assms obtain k where k: "pcb t = Some k" by (auto simp: tcp_inv_def)
  show ?thesis
  proof (cases "recv_queue t")
    case Nil
    with assms show ?thesis by (auto simp: TcpStream_read_def tcp_incoming_def)
  next
    case (Cons e q)
    obtain b i where e: "e = (b, i)" by (cases e)
    show ?thesis
    proof (cases b)
      case None
      with assms Cons e k show ?thesis
        by (auto simp: TcpStream_read_def tcp_incoming_def tcp_ends_def tcp_inv_def tcp_sent_def)
    next
      case (Some p)
      let ?n = "min n (length p - i)"
      have i: "i \<le> length p" using assms Cons e Some by (auto simp: tcp_inv_def)
      let ?t = "t\<lparr>recv_queue := (if i + ?n = length p then q else (Some p, i + ?n) # q), pcb := Some (tcp_recved L k ?n)\<rparr>"
      have r: "TcpStream_read L t n = Inr (take ?n (drop i p), ?t)"
        using Cons e Some k by (simp add: TcpStream_read_def Let_def)
      have inv: "tcp_inv ?t" using assms Cons e Some i by (auto simp: tcp_inv_def min_def)
      have s: "tcp_sent ?t = tcp_sent t" using k recved_law by (simp add: tcp_sent_def)
      have "drop i p = take ?n (drop i p) @ drop (i + ?n) p" by (metis append_take_drop_id drop_drop add.commute)
      then have "tcp_incoming t = take ?n (drop i p) @ tcp_incoming ?t" "tcp_ends ?t = tcp_ends t"
        using Cons e Some by (simp_all add: tcp_incoming_def tcp_ends_def)
      with r inv s show ?thesis by (intro exI [of _ "take ?n (drop i p)"] exI [of _ ?t]) simp
    qed
  qed
qed

lemma tcp_write_law:
  assumes "tcp_inv t"
  shows "(\<exists>n t'. TcpStream_write L t d = Inr (n, t') \<and> n \<le> length d \<and> tcp_inv t' \<and> tcp_sent t' = tcp_sent t @ take n d
       \<and> tcp_incoming t' = tcp_incoming t \<and> serrors t' = serrors t \<and> tcp_ends t' = tcp_ends t)
     \<or> (TcpStream_write L t d = Inl Assert_failed \<and> lwip_refuses L t d)"
proof -
  from assms obtain k where k: "pcb t = Some k" by (auto simp: tcp_inv_def)
  let ?n = "min (length d) (tcp_sndbuf L k)"
  obtain ok k1 ok' k2 where w: "tcp_write L k (take ?n d) = (ok, k1)" "tcp_output L k1 = (ok', k2)" by (metis surj_pair)
  show ?thesis
  proof (cases "ok \<and> ok'")
    case False
    with w k show ?thesis by (cases ok) (auto simp: TcpStream_write_def lwip_refuses_def Let_def)
  next
    case True
    have "TcpStream_write L t d = Inr (?n, t\<lparr>pcb := Some k2\<rparr>)" using k w True by (simp add: TcpStream_write_def Let_def)
    moreover have "tcp_inv (t\<lparr>pcb := Some k2\<rparr>)" using assms by (simp add: tcp_inv_def)
    moreover have "sent k2 = sent k @ take ?n d" using write_law [of k "take ?n d" k1] output_law [of k1 k2] w True by simp
    ultimately show ?thesis using k by (auto simp: tcp_sent_def tcp_incoming_def tcp_ends_def)
  qed
qed

lemma tcp_step_law:
  assumes "tcp_inv t"
  shows "(\<exists>got put t'. tcp_step L x t = Inr (got, put, t') \<and> tcp_inv t' \<and> tcp_sent t' = tcp_sent t @ put
       \<and> tcp_incoming t @ tcp_data [x] = concat got @ tcp_incoming t' \<and> list_all2 (\<lambda>d n. length d \<le> n) got (tcp_asked [x])
       \<and> serrors t' + tcp_ends t' = serrors t + tcp_ends t + tcp_fins [x])
     \<or> (tcp_step L x t = Inl Assert_failed \<and> (\<exists>d. x = Tcp_write d \<and> lwip_refuses L t d))"
proof (cases x)
  case (Tcp_arrive b)
  have "tcp_inv (TcpStream_recv_from_pcb b t)"
    using assms by (auto simp: tcp_inv_def TcpStream_recv_from_pcb_def Let_def split: option.splits)
  then show ?thesis using Tcp_arrive
    by (auto simp: tcp_sent_def TcpStream_recv_from_pcb_def Let_def tcp_incoming_def tcp_ends_def tcp_data_def tcp_fins_def tcp_asked_def
        split: option.splits)
next
  case (Tcp_read n)
  from tcp_read_law [OF assms, of n] Tcp_read show ?thesis by (auto simp: tcp_data_def tcp_fins_def tcp_asked_def)
next
  case (Tcp_write d)
  from tcp_write_law [OF assms, of d] Tcp_write show ?thesis by (auto simp: tcp_data_def tcp_fins_def tcp_asked_def)
qed

lemma tcp_run_law:
  "tcp_inv t \<Longrightarrow>
    (\<exists>got put t'. tcp_run L xs t = Inr (got, put, t') \<and> tcp_inv t' \<and> tcp_sent t' = tcp_sent t @ put
       \<and> tcp_incoming t @ tcp_data xs = concat got @ tcp_incoming t' \<and> list_all2 (\<lambda>d n. length d \<le> n) got (tcp_asked xs)
       \<and> serrors t' + tcp_ends t' = serrors t + tcp_ends t + tcp_fins xs)
     \<or> (tcp_run L xs t = Inl Assert_failed
         \<and> (\<exists>ys d zs got put t1. xs = ys @ Tcp_write d # zs \<and> tcp_run L ys t = Inr (got, put, t1) \<and> lwip_refuses L t1 d))"
proof (induction xs arbitrary: t)
  case (Cons x xs)
  from tcp_step_law [OF Cons.prems, of x] show ?case
  proof (elim disjE exE conjE)
    fix g p u
    assume s: "tcp_step L x t = Inr (g, p, u)" "tcp_inv u" "tcp_sent u = tcp_sent t @ p"
      "tcp_incoming t @ tcp_data [x] = concat g @ tcp_incoming u" "list_all2 (\<lambda>d n. length d \<le> n) g (tcp_asked [x])"
      "serrors u + tcp_ends u = serrors t + tcp_ends t + tcp_fins [x]"
    from Cons.IH [OF s(2)] show ?thesis
    proof (elim disjE exE conjE)
      fix g2 p2 v
      assume r: "tcp_run L xs u = Inr (g2, p2, v)" "tcp_inv v" "tcp_sent v = tcp_sent u @ p2"
        "tcp_incoming u @ tcp_data xs = concat g2 @ tcp_incoming v" "list_all2 (\<lambda>d n. length d \<le> n) g2 (tcp_asked xs)"
        "serrors v + tcp_ends v = serrors u + tcp_ends u + tcp_fins xs"
      have "tcp_incoming t @ tcp_data (x # xs) = concat (g @ g2) @ tcp_incoming v"
        using s(4) r(4) by (metis append.assoc append_Cons append_Nil concat_append tcp_lists(1))
      moreover have "list_all2 (\<lambda>d n. length d \<le> n) (g @ g2) (tcp_asked (x # xs))"
        using s(5) r(5) by (simp add: tcp_lists(2) [of "[x]" xs, simplified] list_all2_appendI)
      moreover have "serrors v + tcp_ends v = serrors t + tcp_ends t + tcp_fins (x # xs)"
        using s(6) r(6) tcp_lists(3) [of "[x]" xs] by simp
      ultimately show ?thesis using s(1,3) r(1-3) by (intro disjI1 exI [of _ "g @ g2"] exI [of _ "p @ p2"] exI [of _ v]) simp
    next
      fix ys d zs g2 p2 v
      assume r: "tcp_run L xs u = Inl Assert_failed" "xs = ys @ Tcp_write d # zs" "tcp_run L ys u = Inr (g2, p2, v)" "lwip_refuses L v d"
      have "tcp_run L (x # xs) t = Inl Assert_failed" "x # xs = (x # ys) @ Tcp_write d # zs"
        "tcp_run L (x # ys) t = Inr (g @ g2, p @ p2, v)" using s(1) r by simp_all
      with r(4) show ?thesis
        by (intro disjI2 conjI exI [of _ "x # ys"] exI [of _ d] exI [of _ zs] exI [of _ "g @ g2"] exI [of _ "p @ p2"] exI [of _ v])
    qed
  next
    fix d assume "tcp_step L x t = Inl Assert_failed" "x = Tcp_write d" "lwip_refuses L t d"
    then show ?thesis
      by (intro disjI2 conjI exI [of _ "[]"] exI [of _ d] exI [of _ xs] exI [of _ t]) simp_all
  qed
qed (simp add: tcp_data_def tcp_fins_def tcp_asked_def)

end

text \<open>A stack that never reports an error within the send buffer makes the connection a byte stream.\<close>

locale lwip_willing = lwip +
  assumes write_ok: "length d \<le> tcp_sndbuf L k \<Longrightarrow> fst (tcp_write L k d)"
    and output_ok: "fst (tcp_output L k)"
begin

lemma not_refused: "pcb t \<noteq> None \<Longrightarrow> \<not> lwip_refuses L t d"
  using write_ok output_ok by (auto simp: lwip_refuses_def Let_def)

end

sublocale lwip_willing \<subseteq> conn: byte_stream "TcpStream_ops L" tcp_inv tcp_sent tcp_incoming
proof unfold_locales
  fix t and d :: bytes assume t: "tcp_inv t"
  then have "\<not> lwip_refuses L t d" by (intro not_refused) (simp add: tcp_inv_def)
  with tcp_write_law [OF t, of d] show "\<exists>n s'. swrite (TcpStream_ops L) t d = Inr (n, s') \<and> n \<le> length d \<and> tcp_inv s'
      \<and> tcp_sent s' = tcp_sent t @ take n d \<and> tcp_incoming s' = tcp_incoming t"
    by (auto simp: TcpStream_ops_def)
next
  fix t n assume "tcp_inv t"
  from tcp_read_law [OF this, of n] show "\<exists>d s'. sread (TcpStream_ops L) t n = Inr (d, s') \<and> length d \<le> n \<and> tcp_inv s'
      \<and> tcp_sent s' = tcp_sent t \<and> tcp_incoming t = d @ tcp_incoming s'"
    by (auto simp: TcpStream_ops_def)
qed

text \<open>A control block that records what it was given: it has room for two bytes at a time, and queues at most \<open>n\<close> bytes in all.\<close>

definition example_lwip :: "nat \<Rightarrow> bytes lwip_ops" where
  "example_lwip n = \<lparr>tcp_sndbuf = (\<lambda>k. 2), tcp_write = (\<lambda>k d. if length k + length d \<le> n then (True, k @ d) else (False, k)),
     tcp_output = (\<lambda>k. (True, k)), tcp_recved = (\<lambda>k n. k), tcp_close = (\<lambda>k. k), tcp_abort = (\<lambda>k. k), pcb_isipv6 = (\<lambda>k. False),
     remote_ip = (\<lambda>k. [0x0100007F]), remote_port = (\<lambda>k. 80), local_ip = (\<lambda>k. [0x0100007F]), local_port = (\<lambda>k. 81)\<rparr>"


interpretation pcbs_willing: lwip_willing "(example_lwip 0)\<lparr>tcp_write := \<lambda>k d. (True, k @ d)\<rparr>" "\<lambda>k. k"
  by unfold_locales (simp_all add: example_lwip_def)

section \<open>Properties\<close>



text \<open>Every IPv6 packet the stack sends is labelled as IPv4: \<open>make6\<close> sets the type \<open>v4\<close>, so the device header always carries the
  IPv4 protocol number.\<close>

theorem NetworkInterface_ip6_mislabelled:
  assumes "length p \<le> DEVICE_MTU"
  shows "netif_output_ip6 a p = Some ([0, 0, 8, 0] @ p) \<and> netif_output b p = netif_output_ip6 a p"
proof -
  have "to_le 2 2048 = [0, 8 :: u8]" by (simp add: to_le_numeral)
  then have "put_u16 (htons 0x0800) = [8, 0]" unfolding put_u16_def to_le_htons by simp
  with assms show ?thesis
    by (simp_all add: netif_output_ip6_def netif_output_def NetworkInterface_output_def IpAddress_make6_def IpAddress_make4_def
        put_u16_0)
qed

end
