(* ===== verification/Tls.thy ===== *)
theory Tls
  imports Packet_Streams
begin

text \<open>
  \<^verbatim>\<open>libreactor/tls.cpp\<close>: a byte stream encrypted by OpenSSL.

  OpenSSL is a parameter: the calls the class makes on its \<open>SSL\<close> object and its two memory buffers, on a state \<open>'g\<close>. \<open>SSL_read\<close> yields
  the bytes it stored, or \<open>None\<close> for a negative result, whose reason \<open>SSL_get_error\<close> tells; \<open>SSL_write\<close> yields its result.
  The stream below is a packet stream of its own. \<open>ttasks\<close> holds the functions passed to \<open>reactor.schedule\<close>, \<open>tcalls\<close> the callbacks
  that were called.
\<close>

section \<open>State\<close>

datatype ssl_error = SSL_ERROR_WANT_READ | SSL_ERROR_WANT_WRITE | SSL_ERROR_OTHER

record 'g ssl_ops =
  SSL_write :: "'g \<Rightarrow> bytes \<Rightarrow> int \<times> 'g"
  SSL_read :: "'g \<Rightarrow> nat \<Rightarrow> bytes option \<times> 'g"
  SSL_get_error :: "'g \<Rightarrow> ssl_error"
  bio_out_pending :: "'g \<Rightarrow> nat"
  bio_out_read :: "'g \<Rightarrow> nat \<Rightarrow> bytes \<times> 'g"
  bio_in_pending :: "'g \<Rightarrow> nat"
  bio_in_write :: "'g \<Rightarrow> bytes \<Rightarrow> int \<times> 'g"

definition TLS_MTU :: nat where "TLS_MTU = 8192"
definition MAX_BIO_BUFFER :: nat where "MAX_BIO_BUFFER = 32768"

datatype tls_task = Task_transport_send_ready | Task_transport_recv_ready | Task_on_error
datatype tls_call = Call_on_read_ready | Call_on_write_ready

record ('g, 'p) tls_stream =
  ssl :: 'g
  packet_stream :: 'p
  ttasks :: "tls_task list"
  tcalls :: "tls_call list"

definition TlsStream_create :: "'g \<Rightarrow> 'p \<Rightarrow> ('g, 'p) tls_stream" where
  "TlsStream_create g p = \<lparr>ssl = g, packet_stream = p, ttasks = [], tcalls = []\<rparr>"

definition tls_schedule :: "tls_task \<Rightarrow> ('g, 'p) tls_stream \<Rightarrow> ('g, 'p) tls_stream" where
  "tls_schedule x t = t\<lparr>ttasks := ttasks t @ [x]\<rparr>"

section \<open>The encrypted side\<close>

fun TlsStream_transport_send_ready ::
    "nat \<Rightarrow> 'g ssl_ops \<Rightarrow> 'p packet_ops \<Rightarrow> ('g, 'p) tls_stream \<Rightarrow> ('g, 'p) tls_stream result" where
  "TlsStream_transport_send_ready 0 S pops t = Inl Fuel_exhausted"
| "TlsStream_transport_send_ready (Suc fuel) S pops t =
     (if \<not> pis_send_ready pops (packet_stream t) then Inr t
      else let pending = bio_out_pending S (ssl t) in
        if pending = 0 then Inr (t\<lparr>tcalls := tcalls t @ [Call_on_write_ready]\<rparr>)
        else let (data, g) = bio_out_read S (ssl t) (min TLS_MTU pending) in
          assertR (data \<noteq> [])
            (bindR (psend pops (packet_stream t) data) (\<lambda>p.
              TlsStream_transport_send_ready fuel S pops (t\<lparr>ssl := g, packet_stream := p\<rparr>))))"

fun tls_recv_loop :: "nat \<Rightarrow> 'g ssl_ops \<Rightarrow> 'p packet_ops \<Rightarrow> bool \<Rightarrow> ('g, 'p) tls_stream \<Rightarrow> (bool \<times> ('g, 'p) tls_stream) result" where
  "tls_recv_loop 0 S pops anything t = Inl Fuel_exhausted"
| "tls_recv_loop (Suc fuel) S pops anything t =
     (if \<not> bio_in_pending S (ssl t) < MAX_BIO_BUFFER then Inr (anything, t)
      else bindR (precv pops (packet_stream t)) (\<lambda>(r, p).
        case r of
          None \<Rightarrow> Inr (anything, t\<lparr>packet_stream := p\<rparr>)
        | Some d \<Rightarrow> let (ret, g) = bio_in_write S (ssl t) d in
            assertR (ret \<ge> 0) (tls_recv_loop fuel S pops True (t\<lparr>ssl := g, packet_stream := p\<rparr>))))"

definition TlsStream_transport_recv_ready ::
    "nat \<Rightarrow> 'g ssl_ops \<Rightarrow> 'p packet_ops \<Rightarrow> ('g, 'p) tls_stream \<Rightarrow> ('g, 'p) tls_stream result" where
  "TlsStream_transport_recv_ready fuel S pops t =
     bindR (tls_recv_loop fuel S pops False t) (\<lambda>(anything, t').
       Inr (if anything then t'\<lparr>tcalls := tcalls t' @ [Call_on_read_ready]\<rparr> else t'))"

section \<open>The plain side\<close>

definition TlsStream_handle_ssl_want :: "ssl_error \<Rightarrow> ('g, 'p) tls_stream \<Rightarrow> bool \<times> ('g, 'p) tls_stream" where
  "TlsStream_handle_ssl_want err t = (case err of
       SSL_ERROR_WANT_READ \<Rightarrow> (True, tls_schedule Task_transport_recv_ready t)
     | SSL_ERROR_WANT_WRITE \<Rightarrow> (True, tls_schedule Task_transport_send_ready t)
     | SSL_ERROR_OTHER \<Rightarrow> (False, t))"

definition TlsStream_write :: "'g ssl_ops \<Rightarrow> ('g, 'p) tls_stream \<Rightarrow> bytes \<Rightarrow> (nat \<times> ('g, 'p) tls_stream) result" where
  "TlsStream_write S t buffer =
     (if bio_out_pending S (ssl t) \<ge> MAX_BIO_BUFFER then Inr (0, t)
      else let (ret, g) = SSL_write S (ssl t) buffer;
               t1 = tls_schedule Task_transport_send_ready (t\<lparr>ssl := g\<rparr>)
           in if ret > 0 then assertR (ret = int (length buffer)) (Inr (nat ret, t1))
              else let (want, t2) = TlsStream_handle_ssl_want (SSL_get_error S g) t1
                   in if want then Inr (0, t2) else Inr (0, tls_schedule Task_on_error t2))"

text \<open>The loop of \<open>read\<close>: the data read, and whether the last call failed. It reads into what is left of the caller's buffer.\<close>

function tls_read_loop :: "'g ssl_ops \<Rightarrow> 'g \<Rightarrow> nat \<Rightarrow> bytes \<Rightarrow> (bytes \<times> bool \<times> 'g) result" where
  "tls_read_loop S g n acc =
     (let (r, g') = SSL_read S g n in
      case r of
        None \<Rightarrow> Inr (acc, True, g')
      | Some d \<Rightarrow> (if d = [] then Inr (acc, False, g')
          else if length d > n then Inl Undefined_behaviour
          else tls_read_loop S g' (n - length d) (acc @ d)))"
  by pat_completeness auto
termination
  by (relation "measure (\<lambda>(S, g, n, acc). n)") (auto simp flip: length_greater_0_conv)

declare tls_read_loop.simps [simp del]

definition TlsStream_read :: "'g ssl_ops \<Rightarrow> ('g, 'p) tls_stream \<Rightarrow> nat \<Rightarrow> (bytes \<times> ('g, 'p) tls_stream) result" where
  "TlsStream_read S t n =
     bindR (tls_read_loop S (ssl t) n []) (\<lambda>(data, failed, g).
       let t1 = t\<lparr>ssl := g\<rparr>;
           (want, t2) = (if failed then TlsStream_handle_ssl_want (SSL_get_error S g) t1 else (True, t1))
       in if want then Inr (data, tls_schedule Task_transport_recv_ready t2)
          else Inr ([], tls_schedule Task_on_error t2))"

text \<open>\<open>close\<close> closes the stream below.\<close>

definition TlsStream_close :: "'p packet_ops \<Rightarrow> ('g, 'p) tls_stream \<Rightarrow> ('g, 'p) tls_stream" where
  "TlsStream_close pops t = t\<lparr>packet_stream := pclose pops (packet_stream t)\<rparr>"

definition TlsStream_ops :: "'g ssl_ops \<Rightarrow> 'p packet_ops \<Rightarrow> ('g, 'p) tls_stream stream_ops" where
  "TlsStream_ops S pops = \<lparr>sread = TlsStream_read S, swrite = TlsStream_write S, sclose = TlsStream_close pops\<rparr>"

section \<open>Pre-shared keys\<close>

text \<open>The callbacks write the key and the terminated identity into the buffers of OpenSSL.\<close>

definition psk_client_callback ::
    "(bytes \<Rightarrow> bytes \<times> bytes) \<Rightarrow> bytes \<Rightarrow> nat \<Rightarrow> nat \<Rightarrow> (bytes \<times> bytes \<times> nat) result" where
  "psk_client_callback client_psk_func hint max_identity_len max_psk_len =
     (let (identity, psk) = client_psk_func hint in
      assertR (length psk \<le> max_psk_len)
        (assertR (length identity < max_identity_len) (Inr (identity @ [0], psk, length psk))))"

definition psk_server_callback :: "(bytes \<Rightarrow> bytes) \<Rightarrow> bytes \<Rightarrow> nat \<Rightarrow> (bytes \<times> nat) result" where
  "psk_server_callback server_psk_func identity max_psk_len =
     (let psk = server_psk_func identity in assertR (length psk \<le> max_psk_len) (Inr (psk, length psk)))"

section \<open>What OpenSSL promises\<close>

text \<open>
  The two memory buffers are queues of ciphertext; \<open>accepted\<close> is the plaintext \<open>SSL_write\<close> has taken, \<open>plain\<close> the plaintext \<open>SSL_read\<close> will
  yield. A write takes all of its data or nothing; both calls may produce and consume ciphertext; and no call fails for
  another reason than missing input or output. The packet stream below hands out the received bytes in chunks.
\<close>

locale tls_engine =
  packet_sink pops pinv emitted "\<lambda>d. d" room mtu
  for pops :: "'p packet_ops" and pinv :: "'p \<Rightarrow> bool" and emitted :: "'p \<Rightarrow> bytes" and room :: "'p \<Rightarrow> nat" and mtu :: nat +
  fixes rx :: "'p \<Rightarrow> bytes" and S :: "'g ssl_ops" and ginv :: "'g \<Rightarrow> bool"
    and outq :: "'g \<Rightarrow> bytes" and inq :: "'g \<Rightarrow> bytes" and accepted :: "'g \<Rightarrow> bytes" and plain :: "'g \<Rightarrow> bytes"
  assumes mtu_fits: "TLS_MTU \<le> mtu"
    and rx_law: "pinv p \<Longrightarrow> \<exists>r p'. precv pops p = Inr (r, p') \<and> pinv p' \<and> emitted p' = emitted p \<and> r \<noteq> Some []
        \<and> rx p = (case r of None \<Rightarrow> [] | Some d \<Rightarrow> d) @ rx p'"
    and send_keeps_rx: "psend pops p d = Inr p' \<Longrightarrow> rx p' = rx p"
    and out_pending: "bio_out_pending S g = length (outq g)"
    and in_pending: "bio_in_pending S g = length (inq g)"
    and out_law: "ginv g \<Longrightarrow> \<exists>g'. bio_out_read S g n = (take n (outq g), g') \<and> ginv g' \<and> outq g' = drop n (outq g)
        \<and> inq g' = inq g \<and> accepted g' = accepted g \<and> plain g' = plain g"
    and in_law: "ginv g \<Longrightarrow> d \<noteq> [] \<Longrightarrow> \<exists>g'. bio_in_write S g d = (int (length d), g') \<and> ginv g' \<and> inq g' = inq g @ d
        \<and> outq g' = outq g \<and> accepted g' = accepted g \<and> plain g' = plain g"
    and ssl_write_law: "ginv g \<Longrightarrow> d \<noteq> [] \<Longrightarrow> \<exists>ret g'. SSL_write S g d = (ret, g') \<and> ginv g' \<and> plain g' = plain g
        \<and> (\<exists>c. outq g' = outq g @ c) \<and> (\<exists>u. inq g = u @ inq g')
        \<and> (if ret > 0 then ret = int (length d) \<and> accepted g' = accepted g @ d
            else accepted g' = accepted g \<and> SSL_get_error S g' \<noteq> SSL_ERROR_OTHER)"
    and ssl_read_law: "ginv g \<Longrightarrow> \<exists>r g'. SSL_read S g n = (r, g') \<and> ginv g' \<and> accepted g' = accepted g
        \<and> (\<exists>c. outq g' = outq g @ c) \<and> (\<exists>u. inq g = u @ inq g')
        \<and> (case r of None \<Rightarrow> plain g' = plain g \<and> SSL_get_error S g' \<noteq> SSL_ERROR_OTHER
            | Some d \<Rightarrow> length d \<le> n \<and> plain g = d @ plain g')"
begin

definition tls_inv :: "('g, 'p) tls_stream \<Rightarrow> bool" where
  "tls_inv t \<longleftrightarrow> ginv (ssl t) \<and> pinv (packet_stream t)"

definition tls_out :: "('g, 'p) tls_stream \<Rightarrow> bytes" where
  "tls_out t = emitted (packet_stream t) @ outq (ssl t)"

definition tls_in :: "('g, 'p) tls_stream \<Rightarrow> bytes" where
  "tls_in t = inq (ssl t) @ rx (packet_stream t)"

lemma transport_send_ready_law:
  assumes "tls_inv t" "length (outq (ssl t)) < fuel"
  shows "\<exists>t'. TlsStream_transport_send_ready fuel S pops t = Inr t' \<and> tls_inv t' \<and> tls_out t' = tls_out t \<and> tls_in t' = tls_in t
     \<and> accepted (ssl t') = accepted (ssl t) \<and> plain (ssl t') = plain (ssl t)
     \<and> (if pis_send_ready pops (packet_stream t')
        then outq (ssl t') = [] \<and> tcalls t' = tcalls t @ [Call_on_write_ready] else tcalls t' = tcalls t)"
  using assms
proof (induction fuel arbitrary: t)
  case (Suc fuel)
  show ?case
  proof (cases "pis_send_ready pops (packet_stream t) \<and> outq (ssl t) \<noteq> []")
    case False
    with Suc.prems(1) show ?thesis by (auto simp: out_pending tls_inv_def tls_out_def tls_in_def)
  next
    case True
    let ?n = "min TLS_MTU (length (outq (ssl t)))" and ?p = "packet_stream t"
    have t: "ginv (ssl t)" "pinv ?p" using Suc.prems(1) by (simp_all add: tls_inv_def)
    from out_law [OF t(1), of ?n] obtain g where
      g: "bio_out_read S (ssl t) ?n = (take ?n (outq (ssl t)), g)" "ginv g" "outq g = drop ?n (outq (ssl t))"
        "inq g = inq (ssl t)" "accepted g = accepted (ssl t)" "plain g = plain (ssl t)" by blast
    have "0 < ?n" using True by (simp add: TLS_MTU_def)
    then have ne: "take ?n (outq (ssl t)) \<noteq> []" "length (outq g) < length (outq (ssl t))" using True g(3) by auto
    have "length (take ?n (outq (ssl t))) \<le> mtu" using mtu_fits by simp
    from psend_law [OF t(2) conjunct1 [OF True] this] obtain p where
      p: "psend pops ?p (take ?n (outq (ssl t))) = Inr p" "pinv p" "emitted p = emitted ?p @ take ?n (outq (ssl t))" by blast
    let ?t = "t\<lparr>ssl := g, packet_stream := p\<rparr>"
    have e: "TlsStream_transport_send_ready (Suc fuel) S pops t = TlsStream_transport_send_ready fuel S pops ?t"
      using True g(1) p(1) ne(1) by (simp add: out_pending Let_def)
    have same: "tls_inv ?t" "tls_out ?t = tls_out t" "tls_in ?t = tls_in t"
      using g p send_keeps_rx [OF p(1)] by (simp_all add: tls_inv_def tls_out_def tls_in_def)
    have l: "length (outq (ssl ?t)) < fuel" using ne(2) Suc.prems(2) by simp
    have f: "tcalls ?t = tcalls t" "accepted (ssl ?t) = accepted (ssl t)" "plain (ssl ?t) = plain (ssl t)" using g(5,6) by simp_all
    show ?thesis using Suc.IH [OF same(1) l] unfolding e f same(2,3) .
  qed
qed simp

lemma recv_loop_law:
  assumes "tls_inv t" "length (rx (packet_stream t)) < fuel"
  shows "\<exists>any' t'. tls_recv_loop fuel S pops any t = Inr (any', t') \<and> tls_inv t' \<and> tls_out t' = tls_out t \<and> tls_in t' = tls_in t
     \<and> accepted (ssl t') = accepted (ssl t) \<and> plain (ssl t') = plain (ssl t) \<and> tcalls t' = tcalls t
     \<and> (any' \<longleftrightarrow> any \<or> rx (packet_stream t') \<noteq> rx (packet_stream t))
     \<and> length (rx (packet_stream t')) \<le> length (rx (packet_stream t))"
  using assms
proof (induction fuel arbitrary: any t)
  case (Suc fuel)
  let ?p = "packet_stream t"
  have t: "ginv (ssl t)" "pinv ?p" using Suc.prems(1) by (simp_all add: tls_inv_def)
  from rx_law [OF t(2)] obtain r p where r: "precv pops ?p = Inr (r, p)" "pinv p" "emitted p = emitted ?p" "r \<noteq> Some []"
    "rx ?p = (case r of None \<Rightarrow> [] | Some d \<Rightarrow> d) @ rx p" by blast
  consider "\<not> length (inq (ssl t)) < MAX_BIO_BUFFER" | "length (inq (ssl t)) < MAX_BIO_BUFFER" "r = None"
    | d where "length (inq (ssl t)) < MAX_BIO_BUFFER" "r = Some d" by (cases r) auto
  then show ?case
  proof cases
    case 1
    with Suc.prems(1) show ?thesis by (simp add: in_pending)
  next
    case 2
    with r t show ?thesis by (simp add: in_pending tls_inv_def tls_out_def tls_in_def)
  next
    case 3
    with r(4) have "d \<noteq> []" by simp
    from in_law [OF t(1) this] obtain g where
      g: "bio_in_write S (ssl t) d = (int (length d), g)" "ginv g" "inq g = inq (ssl t) @ d" "outq g = outq (ssl t)"
        "accepted g = accepted (ssl t)" "plain g = plain (ssl t)" by blast
    let ?t = "t\<lparr>ssl := g, packet_stream := p\<rparr>"
    have e: "tls_recv_loop (Suc fuel) S pops any t = tls_recv_loop fuel S pops True ?t"
      using 3 r(1) g(1) by (simp add: in_pending Let_def)
    have same: "tls_inv ?t" "tls_out ?t = tls_out t" "tls_in ?t = tls_in t"
      using g r 3 by (simp_all add: tls_inv_def tls_out_def tls_in_def)
    have lt: "length (rx p) < length (rx ?p)" using r(5) 3 \<open>d \<noteq> []\<close> by simp
    with Suc.prems(2) have "length (rx (packet_stream ?t)) < fuel" by simp
    from Suc.IH [OF same(1) this, of True] show ?thesis unfolding e using g(5,6) same(2,3) lt
      by (auto dest: arg_cong [where f = length])
  qed
qed simp

lemma tls_read_loop_law:
  assumes "ginv g"
  shows "\<exists>d failed g'. tls_read_loop S g n acc = Inr (acc @ d, failed, g') \<and> ginv g' \<and> length d \<le> n \<and> accepted g' = accepted g
     \<and> plain g = d @ plain g' \<and> (failed \<longrightarrow> SSL_get_error S g' \<noteq> SSL_ERROR_OTHER)"
  using assms
proof (induction n arbitrary: g acc rule: less_induct)
  case (less n)
  from ssl_read_law [OF less.prems, of n] obtain r g' where
    r: "SSL_read S g n = (r, g')" "ginv g'" "accepted g' = accepted g"
      "case r of None \<Rightarrow> plain g' = plain g \<and> SSL_get_error S g' \<noteq> SSL_ERROR_OTHER | Some d \<Rightarrow> length d \<le> n \<and> plain g = d @ plain g'"
    by blast
  show ?case
  proof (cases "r = None \<or> r = Some []")
    case True
    with r show ?thesis by (auto simp: tls_read_loop.simps [of S g n acc])
  next
    case False
    then obtain d where d: "r = Some d" "d \<noteq> []" by (cases r) auto
    with r(4) have l: "length d \<le> n" "plain g = d @ plain g'" by simp_all
    with d have "n - length d < n" by (cases d) auto
    from less.IH [OF this r(2), of "acc @ d"] obtain e failed g'' where
      "tls_read_loop S g' (n - length d) (acc @ d) = Inr ((acc @ d) @ e, failed, g'')" "ginv g''" "length e \<le> n - length d"
      "accepted g'' = accepted g'" "plain g' = e @ plain g''" "failed \<longrightarrow> SSL_get_error S g'' \<noteq> SSL_ERROR_OTHER" by blast
    with r(1,3) d l show ?thesis
      by (intro exI [of _ "d @ e"] exI [of _ failed] exI [of _ g'']) (auto simp: tls_read_loop.simps [of S g n acc])
  qed
qed

lemma want_fields:
  "TlsStream_handle_ssl_want err t = (w, t') \<Longrightarrow> ssl t' = ssl t \<and> packet_stream t' = packet_stream t \<and> (w \<longleftrightarrow> err \<noteq> SSL_ERROR_OTHER)"
  by (auto simp: TlsStream_handle_ssl_want_def tls_schedule_def split: ssl_error.splits)

lemma tls_read_law:
  assumes "tls_inv t"
  shows "\<exists>d t'. TlsStream_read S t n = Inr (d, t') \<and> length d \<le> n \<and> tls_inv t' \<and> accepted (ssl t') = accepted (ssl t)
     \<and> plain (ssl t) = d @ plain (ssl t')"
proof -
  have g: "ginv (ssl t)" using assms by (simp add: tls_inv_def)
  from tls_read_loop_law [OF g, of n "[]"] obtain d failed g' where
    r: "tls_read_loop S (ssl t) n [] = Inr (d, failed, g')" "ginv g'" "length d \<le> n" "accepted g' = accepted (ssl t)"
      "plain (ssl t) = d @ plain g'" "failed \<longrightarrow> SSL_get_error S g' \<noteq> SSL_ERROR_OTHER" by auto
  obtain w t2 where w: "TlsStream_handle_ssl_want (SSL_get_error S g') (t\<lparr>ssl := g'\<rparr>) = (w, t2)" by fastforce
  from want_fields [OF w] r assms w show ?thesis
    by (cases failed) (auto simp: TlsStream_read_def tls_schedule_def tls_inv_def Let_def)
qed

lemma tls_write_law:
  assumes "tls_inv t" "d \<noteq> []"
  shows "\<exists>n t'. TlsStream_write S t d = Inr (n, t') \<and> n \<le> length d \<and> tls_inv t'
     \<and> accepted (ssl t') = accepted (ssl t) @ take n d \<and> plain (ssl t') = plain (ssl t)"
proof (cases "bio_out_pending S (ssl t) \<ge> MAX_BIO_BUFFER")
  case True
  with assms(1) show ?thesis by (simp add: TlsStream_write_def)
next
  case False
  have g: "ginv (ssl t)" using assms(1) by (simp add: tls_inv_def)
  from ssl_write_law [OF g assms(2)] obtain ret g' where
    r: "SSL_write S (ssl t) d = (ret, g')" "ginv g'" "plain g' = plain (ssl t)"
      "if ret > 0 then ret = int (length d) \<and> accepted g' = accepted (ssl t) @ d
       else accepted g' = accepted (ssl t) \<and> SSL_get_error S g' \<noteq> SSL_ERROR_OTHER" by blast
  obtain w t2 where w: "TlsStream_handle_ssl_want (SSL_get_error S g') (tls_schedule Task_transport_send_ready (t\<lparr>ssl := g'\<rparr>)) = (w, t2)"
    by fastforce
  from want_fields [OF w] r assms False w show ?thesis
    by (auto simp: TlsStream_write_def Let_def tls_schedule_def tls_inv_def split: if_splits)
qed

end

sublocale tls_engine \<subseteq> tls: byte_stream "TlsStream_ops S pops" tls_inv "\<lambda>t. accepted (ssl t)" "\<lambda>t. plain (ssl t)"
  by unfold_locales (use tls_read_law tls_write_law in \<open>simp_all add: TlsStream_ops_def\<close>)

text \<open>
  The laws hold of an unencrypted session over the packet stream the class creates on a socket. A session is what waits in its two
  buffers, what was written, and what the peer will have written.
\<close>

record null_cipher =
  nc_out :: bytes
  nc_in :: bytes
  nc_accepted :: bytes
  nc_plain :: bytes

definition null_ssl :: "null_cipher ssl_ops" where
  "null_ssl = \<lparr>SSL_write = (\<lambda>g d. (int (length d), g\<lparr>nc_out := nc_out g @ d, nc_accepted := nc_accepted g @ d\<rparr>)),
     SSL_read = (\<lambda>g n. if nc_in g = [] then (None, g)
       else let k = min n (length (nc_in g)) in
         (Some (take k (nc_plain g)), g\<lparr>nc_in := drop k (nc_in g), nc_plain := drop k (nc_plain g)\<rparr>)),
     SSL_get_error = (\<lambda>g. SSL_ERROR_WANT_READ),
     bio_out_pending = (\<lambda>g. length (nc_out g)),
     bio_out_read = (\<lambda>g n. (take n (nc_out g), g\<lparr>nc_out := drop n (nc_out g)\<rparr>)),
     bio_in_pending = (\<lambda>g. length (nc_in g)),
     bio_in_write = (\<lambda>g d. (int (length d), g\<lparr>nc_in := nc_in g @ d\<rparr>))\<rparr>"

context byte_stream
begin

lemma free_recv_law:
  assumes "sinv (stream p)"
  shows "\<exists>r p'. precv (FreePacketStream_ops sops) p = Inr (r, p') \<and> sinv (stream p') \<and> writer_sent p' = writer_sent p \<and> r \<noteq> Some []
     \<and> incoming (stream p) = (case r of None \<Rightarrow> [] | Some d \<Rightarrow> d) @ incoming (stream p')"
proof -
  from sread_law [OF assms, of "recv_mtu p"] obtain d s' where
    "sread sops (stream p) (recv_mtu p) = Inr (d, s')" "sinv s'" "written s' = written (stream p)"
    "incoming (stream p) = d @ incoming s'" by blast
  then show ?thesis by (auto simp: FreePacketStream_ops_def FreePacketStream_recv_def writer_sent_def)
qed

end

interpretation null_tls: tls_engine "FreePacketStream_ops (FD_ops sock_kernel 0 :: (nat, sock) reactor stream_ops)"
  "\<lambda>p. sock.fd_inv (stream p)" sock.fd_stream.writer_sent "\<lambda>p. if send_buffer_current p = [] then 1 else 0" PACKET_MTU
  "\<lambda>p. concat (rx (kernel (stream p)))" null_ssl "\<lambda>g. True" nc_out nc_in nc_accepted nc_plain
proof unfold_locales
  fix p :: "(nat, sock) reactor free_packet_stream" assume "sock.fd_inv (stream p)"
  from sock.fd_stream.free_recv_law [OF this] show "\<exists>r p'. precv (FreePacketStream_ops (FD_ops sock_kernel 0)) p = Inr (r, p')
      \<and> sock.fd_inv (stream p') \<and> sock.fd_stream.writer_sent p' = sock.fd_stream.writer_sent p \<and> r \<noteq> Some []
      \<and> concat (rx (kernel (stream p))) = (case r of None \<Rightarrow> [] | Some d \<Rightarrow> d) @ concat (rx (kernel (stream p')))" .
qed (auto simp: null_ssl_def Let_def TLS_MTU_def PACKET_MTU_def FreePacketStream_ops_def AbstractPacketStream_send_def
    writer_defs result_simps intro: append_take_drop_id [symmetric])

section \<open>Properties\<close>

text \<open>C19: a TLS stream carries its data both ways. Over every OpenSSL session and packet stream that keep their contracts, writing
  accepts an initial part of the data and reading yields the peer's plaintext in order; \<open>transport_send_ready\<close> and
  \<open>transport_recv_ready\<close> return, move the ciphertext between OpenSSL and the stream without loss or reordering, and call the
  user exactly when everything has been sent, and when something has arrived.\<close>

theorem TlsStream_carries_data:
  assumes "tls_engine pops pinv emitted room mtu rcvd S ginv outq inq accepted plain" "ginv (ssl t)" "pinv (packet_stream t)" "d \<noteq> []"
    and "length (outq (ssl t)) < fuel" "length (rcvd (packet_stream t)) < fuel"
  shows "(\<exists>n t'. TlsStream_write S t d = Inr (n, t') \<and> n \<le> length d \<and> accepted (ssl t') = accepted (ssl t) @ take n d)
     \<and> (\<exists>e t'. TlsStream_read S t m = Inr (e, t') \<and> length e \<le> m \<and> plain (ssl t) = e @ plain (ssl t'))
     \<and> (\<exists>t'. TlsStream_transport_send_ready fuel S pops t = Inr t'
          \<and> emitted (packet_stream t') @ outq (ssl t') = emitted (packet_stream t) @ outq (ssl t)
          \<and> (if pis_send_ready pops (packet_stream t')
             then outq (ssl t') = [] \<and> tcalls t' = tcalls t @ [Call_on_write_ready] else tcalls t' = tcalls t))
     \<and> (\<exists>t'. TlsStream_transport_recv_ready fuel S pops t = Inr t'
          \<and> inq (ssl t') @ rcvd (packet_stream t') = inq (ssl t) @ rcvd (packet_stream t)
          \<and> tcalls t' = tcalls t @ (if rcvd (packet_stream t') = rcvd (packet_stream t) then [] else [Call_on_read_ready]))"
proof -
  note loc = assms(1)
  have i: "tls_engine.tls_inv pinv ginv t" using assms(2,3) by (simp add: tls_engine.tls_inv_def [OF loc])
  note defs = tls_engine.tls_out_def [OF loc] tls_engine.tls_in_def [OF loc]
  from tls_engine.recv_loop_law [OF loc i assms(6), of False] obtain a t' where
    "tls_recv_loop fuel S pops False t = Inr (a, t')" "tcalls t' = tcalls t"
    "inq (ssl t') @ rcvd (packet_stream t') = inq (ssl t) @ rcvd (packet_stream t)"
    "a \<longleftrightarrow> rcvd (packet_stream t') \<noteq> rcvd (packet_stream t)" unfolding defs by auto
  then have "\<exists>t'. TlsStream_transport_recv_ready fuel S pops t = Inr t'
          \<and> inq (ssl t') @ rcvd (packet_stream t') = inq (ssl t) @ rcvd (packet_stream t)
          \<and> tcalls t' = tcalls t @ (if rcvd (packet_stream t') = rcvd (packet_stream t) then [] else [Call_on_read_ready])"
    by (cases a) (simp_all add: TlsStream_transport_recv_ready_def)
  moreover note tls_engine.transport_send_ready_law [OF loc i assms(5), unfolded defs]
  moreover note tls_engine.tls_write_law [OF loc i assms(4)]
  moreover note tls_engine.tls_read_law [OF loc i, of m]
  ultimately show ?thesis by blast
qed

theorem TlsStream_carries_data_witness:
  "\<exists>t'. TlsStream_transport_send_ready 4 null_ssl (FreePacketStream_ops (FD_ops sock_kernel 0))
       (TlsStream_create \<lparr>nc_out = [1, 2, 3], nc_in = [], nc_accepted = [], nc_plain = []\<rparr>
          (FreePacketStream_create (sock_reactor \<lparr>rx = [], wx = [], tx = []\<rparr>) TLS_MTU)) = Inr t'
     \<and> sock.fd_stream.writer_sent (packet_stream t') @ nc_out (ssl t') = [1, 2, 3]"
proof -
  let ?p = "FreePacketStream_create (sock_reactor \<lparr>rx = [], wx = [], tx = []\<rparr> :: (nat, sock) reactor) TLS_MTU"
  let ?t = "TlsStream_create \<lparr>nc_out = [1, 2, 3], nc_in = [], nc_accepted = [], nc_plain = []\<rparr> ?p"
  have p: "sock.fd_inv (stream ?p)" "sock.fd_stream.writer_sent ?p = []" "concat (rx (kernel (stream ?p))) = []"
    "length (concat (rx (kernel (stream ?p)))) < 4"
    by (simp_all add: FreePacketStream_create_def sock_reactor_def sock.fd_inv_def sock.fd_stream.writer_sent_def)
  have t: "sock.fd_inv (stream (packet_stream ?t))" "length (nc_out (ssl ?t)) < 4" "length (concat (rx (kernel (stream (packet_stream ?t))))) < 4"
    using p(1,4) by (simp_all only: TlsStream_create_def tls_stream.simps) simp
  from TlsStream_carries_data [OF null_tls.tls_engine_axioms _ t(1) _ t(2,3), of "[0]" 0] p(2) show ?thesis
    by (auto simp: TlsStream_create_def)
qed

text \<open>When \<open>SSL_read\<close> fails after it has yielded data in the same call of \<open>read\<close>, that data is lost: \<open>read\<close> returns nothing and only
  schedules the error callback.\<close>

theorem TlsStream_read_drops_data_on_error:
  assumes "SSL_read S (ssl t) n = (Some d, g)" "d \<noteq> []" "length d \<le> n" "SSL_read S g (n - length d) = (None, g')"
    and "SSL_get_error S g' = SSL_ERROR_OTHER"
  shows "TlsStream_read S t n = Inr ([], t\<lparr>ssl := g', ttasks := ttasks t @ [Task_on_error]\<rparr>)"
  using assms by (simp add: TlsStream_read_def tls_read_loop.simps TlsStream_handle_ssl_want_def tls_schedule_def)

end
