(* ===== verification/Relay.thy ===== *)
theory Relay
  imports Packet_Streams
begin

text \<open>
  \<open>packetutil::pipe_both\<close> of \<^verbatim>\<open>libreactor/packet_stream_util.cpp\<close>: two byte streams joined in both directions, as the server joins the
  TLS stream of a client with the socket of its child process.

  Each stream gets a \<open>FreePacketStream\<close>, and each direction a \<open>Piper\<close>; the two pipers share the two packet streams, so the state is
  that of the streams and what each piper holds. A handler of a piper runs on the piper made of these parts.
\<close>

record ('a, 'b) relay =
  side_a :: "'a free_packet_stream"
  side_b :: "'b free_packet_stream"
  current_ab :: "bytes option"
  current_ba :: "bytes option"
  relay_mtu :: nat
  tasks_ab :: "piper_task list"
  tasks_ba :: "piper_task list"

definition pipe_both :: "'a \<Rightarrow> 'b \<Rightarrow> nat \<Rightarrow> ('a, 'b) relay" where
  "pipe_both a b mtu =
     (let pa = FreePacketStream_create a mtu; pb = FreePacketStream_create b mtu;
          ab = Piper_create pa pb mtu; ba = Piper_create pb pa mtu
      in \<lparr>side_a = pa, side_b = pb, current_ab = current ab, current_ba = current ba, relay_mtu = mtu,
          tasks_ab = ptasks ab, tasks_ba = ptasks ba\<rparr>)"

definition piper_ab :: "('a, 'b) relay \<Rightarrow> ('a free_packet_stream, 'b free_packet_stream) piper" where
  "piper_ab r = \<lparr>pin = side_a r, pout = side_b r, current = current_ab r, pbuffer = relay_mtu r, ptasks = tasks_ab r\<rparr>"

definition piper_ba :: "('a, 'b) relay \<Rightarrow> ('b free_packet_stream, 'a free_packet_stream) piper" where
  "piper_ba r = \<lparr>pin = side_b r, pout = side_a r, current = current_ba r, pbuffer = relay_mtu r, ptasks = tasks_ba r\<rparr>"

definition put_ab :: "('a free_packet_stream, 'b free_packet_stream) piper \<Rightarrow> ('a, 'b) relay \<Rightarrow> ('a, 'b) relay" where
  "put_ab p r = r\<lparr>side_a := pin p, side_b := pout p, current_ab := current p, tasks_ab := ptasks p\<rparr>"

definition put_ba :: "('b free_packet_stream, 'a free_packet_stream) piper \<Rightarrow> ('a, 'b) relay \<Rightarrow> ('a, 'b) relay" where
  "put_ba p r = r\<lparr>side_b := pin p, side_a := pout p, current_ba := current p, tasks_ba := ptasks p\<rparr>"

text \<open>The callbacks of the packet streams are the handlers of the pipers; readiness to write of a byte stream is handled by its packet
  stream.\<close>

datatype relay_handler = A_recv_ready | B_recv_ready | A_send_ready | B_send_ready | A_write_ready | B_write_ready

definition relay_run :: "'a stream_ops \<Rightarrow> 'b stream_ops \<Rightarrow> relay_handler \<Rightarrow> ('a, 'b) relay \<Rightarrow> ('a, 'b) relay result" where
  "relay_run aops bops h r = (case h of
       A_recv_ready \<Rightarrow> bindR (Piper_recv_ready (FreePacketStream_ops aops) (piper_ab r)) (\<lambda>p. Inr (put_ab p r))
     | B_recv_ready \<Rightarrow> bindR (Piper_recv_ready (FreePacketStream_ops bops) (piper_ba r)) (\<lambda>p. Inr (put_ba p r))
     | B_send_ready \<Rightarrow> bindR (Piper_send_ready (FreePacketStream_ops bops) (piper_ab r)) (\<lambda>p. Inr (put_ab p r))
     | A_send_ready \<Rightarrow> bindR (Piper_send_ready (FreePacketStream_ops aops) (piper_ba r)) (\<lambda>p. Inr (put_ba p r))
     | A_write_ready \<Rightarrow> bindR (FreeWriterPacketStream_write_ready aops (side_a r)) (\<lambda>s. Inr (r\<lparr>side_a := s\<rparr>))
     | B_write_ready \<Rightarrow> bindR (FreeWriterPacketStream_write_ready bops (side_b r)) (\<lambda>s. Inr (r\<lparr>side_b := s\<rparr>)))"

inductive relay_step :: "'a stream_ops \<Rightarrow> 'b stream_ops \<Rightarrow> ('a, 'b) relay \<Rightarrow> ('a, 'b) relay \<Rightarrow> bool"
  for aops :: "'a stream_ops" and bops :: "'b stream_ops" where
  relay_step: "relay_run aops bops h r = Inr r' \<Longrightarrow> relay_step aops bops r r'"

section \<open>One direction\<close>

definition held :: "bytes option \<Rightarrow> bytes" where
  "held c = (case c of None \<Rightarrow> [] | Some d \<Rightarrow> d)"

definition held_ok :: "bytes option \<Rightarrow> nat \<Rightarrow> bool" where
  "held_ok c n \<longleftrightarrow> n \<le> PACKET_MTU \<and> length (held c) \<le> n"

context byte_stream
begin

lemma relay_recv_law:
  assumes "sinv (stream (pin p))" "recv_mtu (pin p) = pbuffer p" "held_ok (current p) (pbuffer p)"
  shows "\<exists>p'. Piper_recv_ready (FreePacketStream_ops sops) p = Inr p' \<and> pout p' = pout p \<and> pbuffer p' = pbuffer p
     \<and> sinv (stream (pin p')) \<and> recv_mtu (pin p') = recv_mtu (pin p) \<and> held_ok (current p') (pbuffer p)
     \<and> writer_sent (pin p') = writer_sent (pin p)
     \<and> held (current p') @ incoming (stream (pin p')) = held (current p) @ incoming (stream (pin p))"
proof (cases "current p")
  case None
  from sread_law [OF assms(1), of "recv_mtu (pin p)"] obtain d s where
    "sread sops (stream (pin p)) (recv_mtu (pin p)) = Inr (d, s)" "length d \<le> recv_mtu (pin p)" "sinv s"
    "written s = written (stream (pin p))" "incoming (stream (pin p)) = d @ incoming s" by blast
  with None assms(2,3) show ?thesis
    by (auto simp: Piper_recv_ready_def FreePacketStream_ops_def FreePacketStream_recv_def held_def held_ok_def writer_sent_def)
qed (use assms in \<open>simp add: Piper_recv_ready_def\<close>)

lemma relay_send_law:
  assumes "held_ok (current p) (pbuffer p)"
  shows "\<exists>p'. Piper_send_ready (FreePacketStream_ops sops) p = Inr p' \<and> pin p' = pin p \<and> pbuffer p' = pbuffer p
     \<and> stream (pout p') = stream (pout p) \<and> recv_mtu (pout p') = recv_mtu (pout p) \<and> held_ok (current p') (pbuffer p)
     \<and> writer_sent (pout p') @ held (current p') = writer_sent (pout p) @ held (current p)"
  using assms
  by (auto simp: Piper_send_ready_def FreePacketStream_ops_def held_def held_ok_def writer_defs writer_sent_def split: option.splits)

lemma relay_write_law:
  assumes "sinv (stream p)"
  shows "\<exists>p'. FreeWriterPacketStream_write_ready sops p = Inr p' \<and> sinv (stream p') \<and> writer_sent p' = writer_sent p
     \<and> incoming (stream p') = incoming (stream p) \<and> free_packet_stream.more p' = free_packet_stream.more p \<and> recv_mtu p' = recv_mtu p"
proof -
  from write_loop_law [OF assms, of "send_buffer_current p"] obtain s cur where
    "write_loop sops (stream p) (send_buffer_current p) = Inr (s, cur)" "sinv s"
    "written s @ cur = written (stream p) @ send_buffer_current p" "incoming s = incoming (stream p)" by blast
  then show ?thesis
    by (auto simp: FreeWriterPacketStream_write_ready_def writer_sent_def Let_def schedule_def call_def)
qed

end

section \<open>Both directions\<close>

locale relayed =
  a: byte_stream aops ainv awritten aincoming + b: byte_stream bops binv bwritten bincoming
  for aops :: "'a stream_ops" and ainv :: "'a \<Rightarrow> bool" and awritten :: "'a \<Rightarrow> bytes" and aincoming :: "'a \<Rightarrow> bytes"
    and bops :: "'b stream_ops" and binv :: "'b \<Rightarrow> bool" and bwritten :: "'b \<Rightarrow> bytes" and bincoming :: "'b \<Rightarrow> bytes"
begin

definition relay_inv :: "('a, 'b) relay \<Rightarrow> bool" where
  "relay_inv r \<longleftrightarrow> ainv (stream (side_a r)) \<and> binv (stream (side_b r))
     \<and> recv_mtu (side_a r) = relay_mtu r \<and> recv_mtu (side_b r) = relay_mtu r
     \<and> held_ok (current_ab r) (relay_mtu r) \<and> held_ok (current_ba r) (relay_mtu r)"

text \<open>What one side has been given, is about to be given and is still to come from the other: constant.\<close>

definition flow_ab :: "('a, 'b) relay \<Rightarrow> bytes" where
  "flow_ab r = b.writer_sent (side_b r) @ held (current_ab r) @ aincoming (stream (side_a r))"

definition flow_ba :: "('a, 'b) relay \<Rightarrow> bytes" where
  "flow_ba r = a.writer_sent (side_a r) @ held (current_ba r) @ bincoming (stream (side_b r))"

lemma relay_run_law:
  assumes "relay_inv r"
  shows "\<exists>r'. relay_run aops bops h r = Inr r' \<and> relay_inv r' \<and> flow_ab r' = flow_ab r \<and> flow_ba r' = flow_ba r"
proof (cases h)
  case A_recv_ready
  from a.relay_recv_law [of "piper_ab r"] assms show ?thesis
    by (auto simp: A_recv_ready relay_run_def relay_inv_def flow_ab_def flow_ba_def piper_ab_def put_ab_def)
next
  case B_recv_ready
  from b.relay_recv_law [of "piper_ba r"] assms show ?thesis
    by (auto simp: B_recv_ready relay_run_def relay_inv_def flow_ab_def flow_ba_def piper_ba_def put_ba_def)
next
  case B_send_ready
  from b.relay_send_law [of "piper_ab r"] assms show ?thesis
    by (auto simp: B_send_ready relay_run_def relay_inv_def flow_ab_def flow_ba_def piper_ab_def put_ab_def simp flip: append_assoc)
next
  case A_send_ready
  from a.relay_send_law [of "piper_ba r"] assms show ?thesis
    by (auto simp: A_send_ready relay_run_def relay_inv_def flow_ab_def flow_ba_def piper_ba_def put_ba_def simp flip: append_assoc)
next
  case A_write_ready
  from a.relay_write_law [of "side_a r"] assms show ?thesis
    by (auto simp: A_write_ready relay_run_def relay_inv_def flow_ab_def flow_ba_def)
next
  case B_write_ready
  from b.relay_write_law [of "side_b r"] assms show ?thesis
    by (auto simp: B_write_ready relay_run_def relay_inv_def flow_ab_def flow_ba_def)
qed

lemma relay_steps_law:
  "(relay_step aops bops)\<^sup>*\<^sup>* r r' \<Longrightarrow> relay_inv r \<Longrightarrow> relay_inv r' \<and> flow_ab r' = flow_ab r \<and> flow_ba r' = flow_ba r"
proof (induction rule: rtranclp_induct)
  case (step r' r'')
  from step.hyps(2) obtain h where "relay_run aops bops h r' = Inr r''" by cases
  with relay_run_law [of r' h] step show ?case by auto
qed simp

lemma relay_start: "ainv s \<Longrightarrow> binv t \<Longrightarrow> m \<le> PACKET_MTU \<Longrightarrow> relay_inv (pipe_both s t m)"
  by (simp add: relay_inv_def pipe_both_def Let_def FreePacketStream_create_def Piper_create_def held_ok_def held_def)

end

interpretation sock_relay: relayed "FD_ops sock_kernel 0 :: (nat, sock) reactor stream_ops" sock.fd_inv "\<lambda>r. tx (kernel r)"
  "\<lambda>r. concat (rx (kernel r))" "FD_ops sock_kernel 0 :: (nat, sock) reactor stream_ops" sock.fd_inv "\<lambda>r. tx (kernel r)"
  "\<lambda>r. concat (rx (kernel r))"
  by (rule relayed.intro) unfold_locales

section \<open>Properties\<close>

text \<open>C38: joining two byte streams forwards both directions. Over any two streams, in any order of the six handlers, no handler ever
  fails, and what either side has been given, with what waits in the pipe and what is still to come, is
  exactly what the other side supplies, in order.\<close>

theorem pipe_both_forwards:
  assumes "byte_stream aops ainv awritten aincoming" "byte_stream bops binv bwritten bincoming"
    and "ainv s" "binv t" "m \<le> PACKET_MTU" "(relay_step aops bops)\<^sup>*\<^sup>* (pipe_both s t m) r"
  shows "bwritten (stream (side_b r)) @ send_buffer_current (side_b r) @ held (current_ab r) @ aincoming (stream (side_a r))
           = bwritten t @ aincoming s
       \<and> awritten (stream (side_a r)) @ send_buffer_current (side_a r) @ held (current_ba r) @ bincoming (stream (side_b r))
           = awritten s @ bincoming t
       \<and> returns (relay_run aops bops h r)"
proof -
  have loc: "relayed aops ainv awritten aincoming bops binv bwritten bincoming" using assms(1,2) by (rule relayed.intro)
  from relayed.relay_steps_law [OF loc assms(6) relayed.relay_start [OF loc assms(3-5)]]
  have r: "relayed.relay_inv ainv binv r" and f: "relayed.flow_ab aincoming bwritten r = relayed.flow_ab aincoming bwritten (pipe_both s t m)"
    "relayed.flow_ba awritten bincoming r = relayed.flow_ba awritten bincoming (pipe_both s t m)" by auto
  note sent = byte_stream.writer_sent_def [OF assms(1)] byte_stream.writer_sent_def [OF assms(2)]
  from f relayed.relay_run_law [OF loc r, of h] show ?thesis
    by (auto simp: relayed.flow_ab_def [OF loc] relayed.flow_ba_def [OF loc] sent pipe_both_def Let_def FreePacketStream_create_def
        Piper_create_def held_def returns_def)
qed

theorem pipe_both_forwards_witness:
  "returns (relay_run (FD_ops sock_kernel 0) (FD_ops sock_kernel 0) A_recv_ready
     (pipe_both (sock_reactor \<lparr>rx = [[1, 2]], wx = [], tx = []\<rparr>) (sock_reactor \<lparr>rx = [], wx = [], tx = []\<rparr>) 100))"
proof -
  let ?s = "sock_reactor \<lparr>rx = [[1, 2]], wx = [], tx = []\<rparr>" and ?t = "sock_reactor \<lparr>rx = [], wx = [], tx = []\<rparr>"
  have "sock.fd_inv ?s" "sock.fd_inv ?t" by (simp_all add: sock_reactor_def sock.fd_inv_def)
  from pipe_both_forwards [OF sock.fd_stream.byte_stream_axioms sock.fd_stream.byte_stream_axioms this _ rtranclp.rtrancl_refl,
      of 100 A_recv_ready] show ?thesis by (simp add: PACKET_MTU_def)
qed

end
