(* ===== verification/Byte_Strings.thy ===== *)
theory Byte_Strings
  imports Buffers
begin

text \<open>
  \<^verbatim>\<open>libreactor/bytestring.h, bytestring.cpp\<close>: byte strings shared by reference.

  A \<open>ByteString\<close> is a \<open>shared_ptr\<close> to an \<open>AllocBuffer\<close>: a reference into a store of blocks, or null. A block lives while it is referred
  to, so blocks are never freed here. A new block holds arbitrary bytes, a parameter.
\<close>

record block_store =
  blocks :: "nat \<Rightarrow> bytes"
  next_block :: nat

type_synonym byte_string = "nat option"

definition ByteString_default :: byte_string where
  "ByteString_default = None"

definition ByteString_sized :: "(nat \<Rightarrow> u8) \<Rightarrow> nat \<Rightarrow> block_store \<Rightarrow> byte_string \<times> block_store" where
  "ByteString_sized junk n st = (Some (next_block st),
     st\<lparr>blocks := (blocks st)(next_block st := map junk [0..<n]), next_block := next_block st + 1\<rparr>)"

definition ByteString_as_buffer :: "byte_string \<Rightarrow> block_store \<Rightarrow> bytes result" where
  "ByteString_as_buffer b st = (case b of None \<Rightarrow> Inl Undefined_behaviour | Some r \<Rightarrow> Inr (blocks st r))"

definition ByteString_size :: "byte_string \<Rightarrow> block_store \<Rightarrow> nat result" where
  "ByteString_size b st = bindR (ByteString_as_buffer b st) (\<lambda>d. Inr (length d))"

text \<open>\<open>copy_to\<close>: the assertions of \<open>Buffer::copy_from\<close> are those of the checked accessors.\<close>

definition ByteString_write :: "byte_string \<Rightarrow> nat \<Rightarrow> bytes \<Rightarrow> block_store \<Rightarrow> block_store result" where
  "ByteString_write b i data st = (case b of
       None \<Rightarrow> Inl Undefined_behaviour
     | Some r \<Rightarrow> bindR (write_at i data (blocks st r)) (\<lambda>d. Inr (st\<lparr>blocks := (blocks st)(r := d)\<rparr>)))"

definition ByteString_copy_from :: "(nat \<Rightarrow> u8) \<Rightarrow> bytes \<Rightarrow> block_store \<Rightarrow> (byte_string \<times> block_store) result" where
  "ByteString_copy_from junk buffer st =
     (let (s, st1) = ByteString_sized junk (length buffer) st in bindR (ByteString_write s 0 buffer st1) (\<lambda>st2. Inr (s, st2)))"

definition ByteString_copy_constructor :: "byte_string \<Rightarrow> byte_string" where
  "ByteString_copy_constructor other = other"

definition ByteString_copy :: "(nat \<Rightarrow> u8) \<Rightarrow> byte_string \<Rightarrow> block_store \<Rightarrow> (byte_string \<times> block_store) result" where
  "ByteString_copy junk b st = (case b of
       None \<Rightarrow> Inr (ByteString_default, st)
     | Some r \<Rightarrow> bindR (ByteString_size b st) (\<lambda>n.
         let (s, st1) = ByteString_sized junk n st in
         bindR (ByteString_as_buffer b st1) (\<lambda>d. bindR (ByteString_write s 0 d st1) (\<lambda>st2. Inr (s, st2)))))"

section \<open>Sharing\<close>

definition block_ok :: "byte_string \<Rightarrow> block_store \<Rightarrow> bool" where
  "block_ok b st \<longleftrightarrow> (case b of None \<Rightarrow> True | Some r \<Rightarrow> r < next_block st)"

lemma write_whole: "length data = length d \<Longrightarrow> write_at 0 data d = Inr data"
  by (simp add: write_at_def)

lemma ByteString_copy_from_reads_back:
  "\<exists>s st'. ByteString_copy_from junk buffer st = Inr (s, st') \<and> ByteString_as_buffer s st' = Inr buffer
     \<and> block_ok s st' \<and> (\<forall>b. block_ok b st \<longrightarrow> ByteString_as_buffer b st' = ByteString_as_buffer b st)"
  by (simp add: ByteString_copy_from_def ByteString_sized_def ByteString_write_def write_whole ByteString_as_buffer_def block_ok_def
      split: option.splits)

text \<open>A copy has the same bytes and nothing written to one of the two is seen in the other; the copy constructor shares the bytes, so
  everything written is seen in both.\<close>

theorem ByteString_copy_independent:
  assumes "block_ok b st" "ByteString_copy junk b st = Inr (c, st1)"
  shows "ByteString_as_buffer c st1 = ByteString_as_buffer b st \<and> ByteString_as_buffer b st1 = ByteString_as_buffer b st
     \<and> (\<forall>i data st2. ByteString_write b i data st1 = Inr st2 \<longrightarrow> ByteString_as_buffer c st2 = ByteString_as_buffer c st1)
     \<and> (\<forall>i data st2. ByteString_write c i data st1 = Inr st2 \<longrightarrow> ByteString_as_buffer b st2 = ByteString_as_buffer b st1)
     \<and> (\<forall>i data st2. ByteString_write b i data st1 = Inr st2 \<longrightarrow>
          ByteString_as_buffer (ByteString_copy_constructor b) st2 = ByteString_as_buffer b st2)"
proof (cases b)
  case None
  with assms show ?thesis by (simp add: ByteString_copy_def ByteString_default_def ByteString_as_buffer_def ByteString_copy_constructor_def)
next
  case (Some r)
  with assms(1) have r: "r \<noteq> next_block st" by (simp add: block_ok_def)
  with assms(2) Some have "c = Some (next_block st)" "blocks st1 (next_block st) = blocks st r" "blocks st1 r = blocks st r"
    by (auto simp: ByteString_copy_def ByteString_size_def ByteString_sized_def ByteString_write_def ByteString_as_buffer_def Let_def
        write_whole)
  with r Some show ?thesis
    by (auto simp: ByteString_as_buffer_def ByteString_write_def ByteString_copy_constructor_def result_simps)
qed

end
