(* ===== verification/Sockets.thy ===== *)
theory Sockets
  imports Streams
begin

text \<open>
  \<^verbatim>\<open>libreactor/tcp.cpp\<close>, \<^verbatim>\<open>libreactor/unix_socket.cpp\<close> and \<^verbatim>\<open>terminate/tun.cpp\<close>: what the program decides around the
  system calls. The results of the calls are parameters; a failing call carries its \<open>errno\<close>. Descriptors are numbers.
\<close>

section \<open>Connecting\<close>

datatype connect_call = Connect_done | Connect_in_progress | Connect_error int
datatype sockopt_call = Getsockopt_error int | So_error int
datatype connect_outcome = Conn_ok | Conn_failed int

text \<open>\<open>cresult\<close> is the state of the returned future, \<open>ccompletions\<close> counts how often it was completed, \<open>cwatching\<close> says that the
  callbacks of the descriptor are those of \<open>connect\<close>.\<close>

record tcp_connect =
  cresult :: "connect_outcome option"
  ccompletions :: nat
  cwatching :: bool

definition complete_with :: "connect_outcome \<Rightarrow> tcp_connect \<Rightarrow> tcp_connect result" where
  "complete_with r c = assertR (cresult c = None) (Inr (c\<lparr>cresult := Some r, ccompletions := ccompletions c + 1\<rparr>))"

definition TCP_connect :: "bytes \<Rightarrow> int option \<Rightarrow> connect_call \<Rightarrow> tcp_connect result" where
  "TCP_connect bind_addr bind_error call =
     (let c = \<lparr>cresult = None, ccompletions = 0, cwatching = False\<rparr> in
      case (if bind_addr = [] then None else bind_error) of
        Some e \<Rightarrow> complete_with (Conn_failed e) c
      | None \<Rightarrow> (case call of
            Connect_error e \<Rightarrow> complete_with (Conn_failed e) c
          | Connect_done \<Rightarrow> complete_with Conn_ok c
          | Connect_in_progress \<Rightarrow> Inr (c\<lparr>cwatching := True\<rparr>)))"

text \<open>The callback for both readiness to write and errors.\<close>

definition TCP_connect_ready :: "sockopt_call \<Rightarrow> tcp_connect \<Rightarrow> tcp_connect result" where
  "TCP_connect_ready call c =
     (if \<not> cwatching c then Inr c
      else case call of
        Getsockopt_error e \<Rightarrow> (if cresult c = None then complete_with (Conn_failed e) c else Inr c)
      | So_error r \<Rightarrow>
          (if r \<noteq> 0 then (if cresult c = None then complete_with (Conn_failed r) c else Inr c)
           else if cresult c = None then complete_with Conn_ok c else Inr c))"

section \<open>Listening\<close>

definition errno_check :: "string \<Rightarrow> int option \<Rightarrow> unit result" where
  "errno_check call error = (case error of None \<Rightarrow> Inr () | Some e \<Rightarrow> Inl (Thrown call))"

definition TCP_listen :: "int option \<Rightarrow> int option \<Rightarrow> int option \<Rightarrow> unit result" where
  "TCP_listen reuse_error bind_error listen_error =
     bindR (errno_check ''setsockopt'' reuse_error) (\<lambda>_.
     bindR (errno_check ''bind'' bind_error) (\<lambda>_.
     errno_check ''listen'' listen_error))"

datatype accept_call = Accepted int | Accept_error int

definition EAGAIN :: int where "EAGAIN = 11"
definition EINPROGRESS :: int where "EINPROGRESS = 115"

text \<open>The callback of a listening socket, over the results of \<open>accept\<close>: the descriptors given to the program and how the
  loop ended. For TCP every descriptor gets an option set first, which may fail.\<close>

fun TCP_accept_loop :: "(int \<Rightarrow> int option) \<Rightarrow> accept_call list \<Rightarrow> int list \<times> unit result" where
  "TCP_accept_loop nodelay_error [] = ([], Inl Fuel_exhausted)"
| "TCP_accept_loop nodelay_error (Accepted client # rs) = (case errno_check ''setsockopt'' (nodelay_error client) of
       Inl e \<Rightarrow> ([], Inl e)
     | Inr _ \<Rightarrow> (let (cs, r) = TCP_accept_loop nodelay_error rs in (client # cs, r)))"
| "TCP_accept_loop nodelay_error (Accept_error e # rs) =
     ([], if e = EAGAIN \<or> e = EINPROGRESS then Inr () else Inl (Thrown ''accept''))"

fun UnixSocket_accept_loop :: "accept_call list \<Rightarrow> int list \<times> unit result" where
  "UnixSocket_accept_loop [] = ([], Inl Fuel_exhausted)"
| "UnixSocket_accept_loop (Accepted client # rs) = (let (cs, r) = UnixSocket_accept_loop rs in (client # cs, r))"
| "UnixSocket_accept_loop (Accept_error e # rs) =
     ([], if e = EAGAIN \<or> e = EINPROGRESS then Inr () else Inl (Thrown ''accept''))"

section \<open>Unix sockets\<close>

text \<open>A path given to the kernel ends at its first zero byte; the path of an address has 108 bytes, the last of which stays zero.\<close>

definition c_str :: "bytes \<Rightarrow> bytes" where
  "c_str path = takeWhile (\<lambda>c. c \<noteq> 0) path"

definition make_unix_address :: "bytes \<Rightarrow> bytes" where
  "make_unix_address path = take (108 - 1) (c_str path)"

datatype unix_call = Unix_unlink bytes | Unix_bind bytes | Unix_chmod bytes nat | Unix_listen

text \<open>The calls made, with the result; \<open>error\<close> says which calls fail. The result of \<open>unlink\<close> is not looked at.\<close>

definition UnixSocket_bind :: "(unix_call \<Rightarrow> int option) \<Rightarrow> bytes \<Rightarrow> unix_call list \<times> unit result" where
  "UnixSocket_bind error path =
     (let c1 = Unix_unlink (c_str path); c2 = Unix_bind (make_unix_address path); c3 = Unix_chmod (c_str path) (6 * 64) in
      if error c2 \<noteq> None then ([c1, c2], Inl (Thrown ''bind''))
      else if error c3 \<noteq> None then ([c1, c2, c3], Inl (Thrown ''chmod''))
      else if error Unix_listen \<noteq> None then ([c1, c2, c3, Unix_listen], Inl (Thrown ''listen''))
      else ([c1, c2, c3, Unix_listen], Inr ()))"

definition UnixSocket_connect :: "(bytes \<Rightarrow> int option) \<Rightarrow> bytes \<Rightarrow> unit result" where
  "UnixSocket_connect error path = errno_check ''connect'' (error (make_unix_address path))"

text \<open>A control message as \<open>recvmsg\<close> leaves it. The constants are those of Linux on 64 bits.\<close>

record cmsghdr =
  cmsg_len :: nat
  cmsg_level :: int
  cmsg_type :: int
  cmsg_data :: int

definition SOL_SOCKET :: int where "SOL_SOCKET = 1"
definition SCM_RIGHTS :: int where "SCM_RIGHTS = 1"
definition CMSG_LEN_int :: nat where "CMSG_LEN_int = 16 + 4"

definition do_recv_fd :: "int \<Rightarrow> cmsghdr option \<Rightarrow> int" where
  "do_recv_fd received h =
     (if received < 0 then - 1
      else case h of None \<Rightarrow> - 1
      | Some m \<Rightarrow> if cmsg_len m \<noteq> CMSG_LEN_int \<or> cmsg_level m \<noteq> SOL_SOCKET \<or> cmsg_type m \<noteq> SCM_RIGHTS then - 1 else cmsg_data m)"

text \<open>Waiting for a descriptor: \<open>received\<close> is what \<open>do_recv_fd\<close> returns. The callback replaces itself by one that does nothing.\<close>

record recv_fd =
  rfd_watching :: bool
  rfd_result :: "int option"

definition UnixSocket_on_read :: "int \<Rightarrow> recv_fd \<Rightarrow> recv_fd" where
  "UnixSocket_on_read received r =
     (if rfd_watching r \<and> received \<noteq> - 1 then \<lparr>rfd_watching = False, rfd_result = Some received\<rparr> else r)"

definition UnixSocket_recv_fd :: "int \<Rightarrow> recv_fd" where
  "UnixSocket_recv_fd received = UnixSocket_on_read received \<lparr>rfd_watching = True, rfd_result = None\<rparr>"

section \<open>The tun device\<close>

definition TUN_MTU :: nat where "TUN_MTU = 4096"

record 's tun =
  tun_fd :: 's
  tun_partial :: nat

definition Tun_recv :: "'s stream_ops \<Rightarrow> 's tun \<Rightarrow> (bytes option \<times> 's tun) result" where
  "Tun_recv ops t = bindR (sread ops (tun_fd t) TUN_MTU) (\<lambda>(data, s).
     Inr (if data = [] then None else Some data, t\<lparr>tun_fd := s\<rparr>))"

definition Tun_is_send_ready :: "'s tun \<Rightarrow> bool" where
  "Tun_is_send_ready t = True"

text \<open>\<open>tun_partial\<close> counts the packets that were not written completely, which is only logged.\<close>

definition Tun_send :: "'s stream_ops \<Rightarrow> 's tun \<Rightarrow> bytes \<Rightarrow> 's tun result" where
  "Tun_send ops t data = bindR (swrite ops (tun_fd t) data) (\<lambda>(n, s).
     Inr (t\<lparr>tun_fd := s, tun_partial := tun_partial t + (if n \<noteq> length data then 1 else 0)\<rparr>))"

definition Tun_close :: "'s stream_ops \<Rightarrow> 's tun \<Rightarrow> 's tun" where
  "Tun_close ops t = t\<lparr>tun_fd := sclose ops (tun_fd t)\<rparr>"

section \<open>Properties\<close>

fun connect_events :: "sockopt_call list \<Rightarrow> tcp_connect \<Rightarrow> tcp_connect result" where
  "connect_events [] c = Inr c"
| "connect_events (e # es) c = bindR (TCP_connect_ready e c) (connect_events es)"

lemma connect_events_done: "cresult c \<noteq> None \<Longrightarrow> connect_events es c = Inr c"
  by (induction es) (auto simp: TCP_connect_ready_def split: sockopt_call.splits)

definition event_outcome :: "sockopt_call \<Rightarrow> connect_outcome" where
  "event_outcome e = (case e of Getsockopt_error n \<Rightarrow> Conn_failed n | So_error r \<Rightarrow> if r = 0 then Conn_ok else Conn_failed r)"

text \<open>C36: a connection attempt completes its future exactly once. However many events the descriptor reports afterwards, none
  fails an assertion, and the outcome is that of the call or, if that was still in progress, of the first event.\<close>

theorem TCP_connect_completes_once:
  "\<exists>c d. TCP_connect bind_addr bind_error call = Inr c \<and> connect_events es c = Inr d \<and> ccompletions d = (if cresult d = None then 0 else 1)
     \<and> cresult d = (if bind_addr \<noteq> [] \<and> bind_error \<noteq> None then Some (Conn_failed (the bind_error))
          else case call of Connect_done \<Rightarrow> Some Conn_ok | Connect_error e \<Rightarrow> Some (Conn_failed e)
            | Connect_in_progress \<Rightarrow> (case es of [] \<Rightarrow> None | e # _ \<Rightarrow> Some (event_outcome e)))"
proof (cases "\<not> (bind_addr \<noteq> [] \<and> bind_error \<noteq> None) \<and> call = Connect_in_progress")
  case True
  let ?c = "\<lparr>cresult = None, ccompletions = 0, cwatching = True\<rparr>"
  have c: "TCP_connect bind_addr bind_error call = Inr ?c" using True by (auto simp: TCP_connect_def)
  show ?thesis
  proof (cases es)
    case Nil
    with True c show ?thesis by auto
  next
    case (Cons e es')
    have "TCP_connect_ready e ?c = Inr (?c\<lparr>cresult := Some (event_outcome e), ccompletions := 1\<rparr>)"
      by (auto simp: TCP_connect_ready_def event_outcome_def complete_with_def split: sockopt_call.splits)
    with connect_events_done [of "?c\<lparr>cresult := Some (event_outcome e), ccompletions := 1\<rparr>" es'] True c Cons
    show ?thesis by auto
  qed
next
  case False
  have settled: "connect_events es \<lparr>cresult = Some r, ccompletions = Suc 0, cwatching = False\<rparr>
      = Inr \<lparr>cresult = Some r, ccompletions = Suc 0, cwatching = False\<rparr>" for r
    by (rule connect_events_done) simp
  show ?thesis using False settled
    by (cases "bind_addr = []"; cases bind_error; cases call) (simp_all add: TCP_connect_def complete_with_def)
qed

text \<open>A listening socket hands over every accepted connection in order, and returns when there is none left; a failing \<open>accept\<close>,
  for example for lack of descriptors, is an exception in the event loop after the connections accepted before it.\<close>

lemma UnixSocket_accept_loop_all:
  "UnixSocket_accept_loop (map Accepted cs @ Accept_error e # rs)
     = (cs, if e = EAGAIN \<or> e = EINPROGRESS then Inr () else Inl (Thrown ''accept''))"
  by (induction cs) simp_all

text \<open>On a TCP socket one descriptor whose option cannot be set stops the loop, and that connection is neither served nor closed.\<close>

lemma TCP_accept_loop_all:
  assumes "\<forall>c \<in> set cs. nodelay_error c = None"
  shows "TCP_accept_loop nodelay_error (map Accepted cs @ Accept_error e # rs)
     = (cs, if e = EAGAIN \<or> e = EINPROGRESS then Inr () else Inl (Thrown ''accept''))"
  using assms by (induction cs) (simp_all add: errno_check_def)

lemma TCP_accept_loop_drops:
  assumes "\<forall>c \<in> set cs. nodelay_error c = None" "nodelay_error d = Some n"
  shows "TCP_accept_loop nodelay_error (map Accepted cs @ Accepted d # rs) = (cs, Inl (Thrown ''setsockopt''))"
  using assms by (induction cs) (simp_all add: errno_check_def)

text \<open>A Unix socket accepts connections only after its path has been closed to other users. Whatever calls fail, \<open>listen\<close> is called
  only after \<open>chmod\<close> has succeeded on the path that was bound, provided that path fits into an address. A longer path is cut
  by \<open>bind\<close> but not by \<open>chmod\<close>, so the permissions of another path are changed.\<close>

theorem UnixSocket_bind_private:
  assumes "UnixSocket_bind error path = (calls, r)"
  shows "(Unix_listen \<in> set calls \<longrightarrow> error (Unix_chmod (c_str path) (6 * 64)) = None
           \<and> calls = [Unix_unlink (c_str path), Unix_bind (make_unix_address path), Unix_chmod (c_str path) (6 * 64), Unix_listen])
     \<and> (r = Inr () \<longrightarrow> Unix_listen \<in> set calls \<and> (\<forall>c \<in> set (tl calls). error c = None))
     \<and> (make_unix_address path = c_str path \<longleftrightarrow> length (c_str path) < 108)"
proof -
  have "make_unix_address path = c_str path \<longleftrightarrow> length (c_str path) < 108"
    by (simp add: make_unix_address_def take_all_iff) linarith
  with assms show ?thesis by (auto simp: UnixSocket_bind_def Let_def split: if_splits)
qed

theorem UnixSocket_bind_private_witness:
  "Unix_listen \<in> set (fst (UnixSocket_bind (\<lambda>c. None) [47, 116])) \<and> make_unix_address [47, 116] = c_str [47, 116]"
proof -
  have "snd (UnixSocket_bind (\<lambda>c. None) [47, 116]) = Inr ()" by (simp add: UnixSocket_bind_def Let_def)
  with UnixSocket_bind_private [of "\<lambda>c. None" "[47, 116]", OF prod.collapse [symmetric]] show ?thesis
    by (simp add: c_str_def)
qed

text \<open>Waiting for a descriptor yields the first one sent and none of the events after it.\<close>

lemma UnixSocket_recv_fd_first:
  "rfd_result (foldl (\<lambda>r x. UnixSocket_on_read x r) (UnixSocket_recv_fd x) xs)
     = (case filter (\<lambda>x. x \<noteq> - 1) (x # xs) of [] \<Rightarrow> None | d # _ \<Rightarrow> Some d)"
proof -
  have settled: "foldl (\<lambda>r x. UnixSocket_on_read x r) \<lparr>rfd_watching = False, rfd_result = Some d\<rparr> xs
      = \<lparr>rfd_watching = False, rfd_result = Some d\<rparr>" for d xs
    by (induction xs) (simp_all add: UnixSocket_on_read_def)
  have "rfd_result (foldl (\<lambda>r x. UnixSocket_on_read x r) \<lparr>rfd_watching = True, rfd_result = None\<rparr> ys)
     = (case filter (\<lambda>x. x \<noteq> - 1) ys of [] \<Rightarrow> None | d # _ \<Rightarrow> Some d)" for ys
    by (induction ys) (auto simp: settled UnixSocket_on_read_def [of _ "\<lparr>rfd_watching = True, rfd_result = None\<rparr>"])
  from this [of "x # xs"] show ?thesis by (simp only: UnixSocket_recv_fd_def foldl_Cons)
qed

text \<open>A peer that closes the connection instead of sending a descriptor leaves the future waiting for ever: the empty read carries
  no control message.\<close>

lemma UnixSocket_recv_fd_end_of_file:
  "rfd_result (foldl (\<lambda>r x. UnixSocket_on_read x r) (UnixSocket_recv_fd (do_recv_fd 0 None)) (replicate n (do_recv_fd 0 None))) = None"
  by (simp add: UnixSocket_recv_fd_first do_recv_fd_def)

end
