(* ===== verification/Targets.thy ===== *)
theory Targets
  imports Transport Sockets
begin

text \<open>
  \<^verbatim>\<open>multilink/transport_targets.cpp\<close>: where the targets of a transport come from. A server connects to a host for every channel that
  the client opens, a client makes a channel for every connection it accepts.

  A descriptor \<open>fd\<close> with its packet stream is \<open>stream_of fd\<close>; the future of \<open>TCP::connect\<close> is the state \<open>cresult\<close> of \<open>Sockets\<close>.
  A target is given as \<open>FreePacketStream::create\<close> leaves it; this is \<open>FreePacketStream_create\<close> in \<open>Packet_Streams\<close>, with its two
  calls of \<open>reactor.schedule\<close>, and no part of the functions below.
\<close>

text \<open>\<open>set_recv_buffer\<close> throws if the option cannot be set; futures do not catch that.\<close>

definition connecting_tcp_target :: "int option \<Rightarrow> 't \<Rightarrow> connect_outcome option \<Rightarrow> 't target_future result" where
  "connecting_tcp_target recv_buffer_error fps outcome = (case outcome of
       None \<Rightarrow> Inr Pending
     | Some (Conn_failed e) \<Rightarrow> Inr Failed
     | Some Conn_ok \<Rightarrow> bindR (errno_check ''setsockopt'' recv_buffer_error) (\<lambda>_. Inr (Completed fps)))"

definition unknown_stream_target_creator :: "u64 \<Rightarrow> 't target_future" where
  "unknown_stream_target_creator chan = Failed"

text \<open>The callback of the listening socket, with the counter \<open>next_id\<close>.\<close>

definition listening_tcp_target ::
    "nat \<Rightarrow> 'n packet_ops \<Rightarrow> 't packet_ops \<Rightarrow> 't \<Rightarrow> u64 \<times> ('n, 't) transport \<Rightarrow> (u64 \<times> ('n, 't) transport) result" where
  "listening_tcp_target fuel nops tops t = (\<lambda>(next_id, tr).
     bindR (Transport_add_target fuel nops tops next_id (Completed t) tr) (\<lambda>tr'. Inr (next_id + 1, tr')))"

fun listening_tcp_targets ::
    "nat \<Rightarrow> 'n packet_ops \<Rightarrow> 't packet_ops \<Rightarrow> 't list \<Rightarrow> u64 \<times> ('n, 't) transport \<Rightarrow> (u64 \<times> ('n, 't) transport) result" where
  "listening_tcp_targets fuel nops tops [] s = Inr s"
| "listening_tcp_targets fuel nops tops (t # ts) s =
     bindR (listening_tcp_target fuel nops tops t s) (listening_tcp_targets fuel nops tops ts)"

section \<open>Numbering the channels\<close>

lemma numbered_append:
  "numbered chan n (ds @ es) = numbered chan n ds @ numbered chan (n + of_nat (length ds)) es"
  by (induction ds arbitrary: n) (simp_all add: ac_simps)

lemma stamped_channels:
  "stamped chans f lg ps g \<Longrightarrow> p \<in> set ps \<Longrightarrow> \<exists>j \<in> fst ` set lg. packet_channel p = chans j"
  by (induction rule: stamped.induct) auto

lemma update_new: "k \<notin> fst ` set al \<Longrightarrow> AList.update k v al = al @ [(k, v)]"
  by (induction al) auto

context transport_io
begin

text \<open>The state after the targets \<open>ts\<close> have been added to an empty transport over the network \<open>m\<close>: \<open>ps\<close> are the packets sent, \<open>taken\<close>
  what has been received from each target.\<close>

definition listening :: "'n \<Rightarrow> 't list \<Rightarrow> (nat \<Rightarrow> bytes list) \<Rightarrow> bytes list \<Rightarrow> ('n, 't) transport \<Rightarrow> bool" where
  "listening m ts taken ps tr \<longleftrightarrow> io_ok tr \<and> next_object tr = length ts
     \<and> children tr = map (\<lambda>i. (of_nat i, i)) [0..<length ts]
     \<and> nemitted (network_stream tr) = nemitted m @ concat (map nenc ps) \<and> nroom (network_stream tr) \<le> nroom m
     \<and> (\<forall>k \<ge> length ts. ctarget (objects tr k) = None)
     \<and> (\<forall>p \<in> set ps. unat (packet_channel p) < length ts)
     \<and> (\<forall>i < length ts. cid (objects tr i) = of_nat i \<and> last_sent_packet (objects tr i) = of_nat (length (taken i))
          \<and> filter (\<lambda>p. packet_channel p = of_nat i) ps = numbered (of_nat i) 0 (taken i)
          \<and> (\<exists>t. ctarget (objects tr i) = Some t \<and> tinbox (ts ! i) = taken i @ tinbox t \<and> temitted t = temitted (ts ! i)))"

lemma listening_step:
  assumes "listening m ts taken ps tr" "tinv t" "\<forall>d \<in> set (tinbox t). length d + 16 \<le> nmtu"
    and "length ts + 1 < 2 ^ 64" "nroom m < fuel"
  shows "\<exists>tr' taken' ps'. Transport_add_target fuel nops tops (of_nat (length ts)) (Completed t) tr = Inr tr'
     \<and> listening m (ts @ [t]) taken' ps' tr'"
proof -
  let ?k = "length ts"
  let ?chan = "of_nat ?k :: u64"
  let ?c = "new_child ?chan\<lparr>ctarget := Some t\<rparr>"
  let ?tr1 = "(put_object ?k (new_child ?chan) tr)\<lparr>next_object := ?k + 1, children := AList.update ?chan ?k (children tr)\<rparr>"
  define tr2 where "tr2 = put_object ?k ?c ?tr1"
  note l = assms(1) [unfolded listening_def]
  have inj: "(of_nat i :: u64) = of_nat j \<longleftrightarrow> i = j" if "i \<le> ?k" "j \<le> ?k" for i j
    using that assms(4) by (simp add: word_of_nat_eq_iff take_bit_nat_eq_self)
  have ch: "AList.update ?chan ?k (children tr) = map (\<lambda>i. (of_nat i, i)) [0..<length (ts @ [t])]"
    using l inj by (subst update_new) (auto simp: image_iff)
  have o2: "objects tr2 = (objects tr)(?k := ?c)" by (auto simp: tr2_def put_object_def)
  have f2: "network_stream tr2 = network_stream tr" "next_object tr2 = ?k + 1"
    "children tr2 = map (\<lambda>i. (of_nat i, i)) [0..<length (ts @ [t])]" using ch by (simp_all add: tr2_def put_object_def)
  have same: "put_object ?k (objects tr2 ?k) tr2 = tr2" by (simp add: put_object_def)
  have "child_send_ready tops (objects tr2 ?k) = Inr (objects tr2 ?k)"
    by (simp add: o2 child_send_ready_def new_child_def)
  then have sr: "Transport_target_send_ready tops ?k tr2 = Inr tr2"
    by (simp only: Transport_target_send_ready_def bindR_Inr same)
  have add: "Transport_add_target fuel nops tops ?chan (Completed t) tr = Transport_target_recv_ready fuel nops tops ?k tr2"
    using l sr by (simp add: Transport_add_target_def Transport_target_connected_def Let_def tr2_def put_object_def)
  have io: "io_ok tr2" using l assms(2,3) by (simp add: io_ok_def o2 f2 target_ok_def)
  have "nroom (network_stream tr2) < fuel" using l assms(5) by (simp add: f2)
  from target_recv_ready_law [OF io this] obtain tr' lg qs where
    r: "Transport_target_recv_ready fuel nops tops ?k tr2 = Inr tr'" "sends tr2 [] lg qs tr'"
       "nroom (network_stream tr') \<le> nroom (network_stream tr2)" by blast
  have st: "stamped (\<lambda>k. cid (objects tr2 k)) (\<lambda>k. last_sent_packet (objects tr2 k)) lg qs (\<lambda>k. last_sent_packet (objects tr' k))"
    and ib: "\<And>k. inbox_of (objects tr2 k) = chan_log k lg @ inbox_of (objects tr' k)"
    and dr: "\<And>k. drained (objects tr2 k) (objects tr' k)"
    and em: "nemitted (network_stream tr') = nemitted (network_stream tr2) @ concat (map nenc qs)"
    and kp: "children tr' = children tr2" "next_object tr' = next_object tr2" "io_ok tr'"
    using r(2) by (simp_all add: sends_def)
  have cid2: "cid (objects tr2 i) = of_nat i" if "i \<le> ?k" for i
    using that l by (cases "i = ?k") (simp_all add: o2 new_child_def)
  have low: "j \<le> ?k" if "j \<in> fst ` set lg" for j
  proof (rule ccontr)
    assume "\<not> j \<le> ?k"
    then have "ctarget (objects tr2 j) = None" using l by (simp add: o2)
    with ib [of j] have "chan_log j lg = []" by (simp add: inbox_of_def)
    with that show False by (auto simp: chan_log_def filter_empty_conv)
  qed
  let ?old = "\<lambda>j. if j < ?k then taken j else []"
  let ?taken = "\<lambda>j. ?old j @ chan_log j lg"
  have lsp: "last_sent_packet (objects tr2 i) = of_nat (length (?old i))" if "i \<le> ?k" for i
    using that l by (cases "i = ?k") (simp_all add: o2 new_child_def)
  have ps: "filter (\<lambda>p. packet_channel p = of_nat i) ps = numbered (of_nat i) 0 (?old i)" if "i \<le> ?k" for i
  proof (cases "i = ?k")
    case True
    have "unat ?chan = ?k" using assms(4) by (simp add: unat_of_nat)
    with l True show ?thesis by (auto simp: filter_empty_conv)
  qed (use that l in auto)
  have qs: "filter (\<lambda>p. packet_channel p = of_nat i) qs = numbered (of_nat i) (of_nat (length (?old i))) (chan_log i lg)" if "i \<le> ?k" for i
    using stamped_numbered [OF st, of i] low inj that by (simp only: cid2 lsp)
  have obj: "cid (objects tr' i) = of_nat i \<and> last_sent_packet (objects tr' i) = of_nat (length (?taken i))
       \<and> filter (\<lambda>p. packet_channel p = of_nat i) (ps @ qs) = numbered (of_nat i) 0 (?taken i)
       \<and> (\<exists>u. ctarget (objects tr' i) = Some u \<and> tinbox ((ts @ [t]) ! i) = ?taken i @ tinbox u \<and> temitted u = temitted ((ts @ [t]) ! i))"
    if "i \<le> ?k" for i
  proof -
    have "cid (objects tr' i) = of_nat i" using dr [of i] cid2 [OF that] by (simp add: drained_def)
    moreover have "last_sent_packet (objects tr' i) = of_nat (length (?taken i))"
      using stamped_counter [OF st, of i] lsp [OF that] by simp
    moreover have "filter (\<lambda>p. packet_channel p = of_nat i) (ps @ qs) = numbered (of_nat i) 0 (?taken i)"
      by (simp only: filter_append ps [OF that] qs [OF that] numbered_append add_0)
    moreover obtain v where v: "ctarget (objects tr2 i) = Some v" "tinbox ((ts @ [t]) ! i) = ?old i @ tinbox v" "temitted v = temitted ((ts @ [t]) ! i)"
      proof (cases "i < ?k")
      case True
      with l have "\<exists>t. ctarget (objects tr i) = Some t \<and> tinbox (ts ! i) = taken i @ tinbox t \<and> temitted t = temitted (ts ! i)" by simp
      with True that show ?thesis by (auto simp: o2 nth_append intro: that)
    next
      case False
      with \<open>i \<le> ?k\<close> have "i = ?k" by simp
      then show ?thesis by (intro that [of t]) (simp_all add: o2)
    qed
    moreover from dr [of i] v(1) obtain u where "ctarget (objects tr' i) = Some u" "temitted u = temitted v"
      by (auto simp: drained_def option_rel_Some1)
    ultimately show ?thesis using ib [of i] by (auto simp: inbox_of_def)
  qed
  have none: "ctarget (objects tr' i) = None" if "?k < i" for i
    using that l dr [of i] by (auto simp: drained_def o2)
  have chans: "unat (packet_channel p) < length (ts @ [t])" if "p \<in> set (ps @ qs)" for p
  proof (cases "p \<in> set ps")
    case True
    with l show ?thesis by (auto intro: less_SucI)
  next
    case False
    with that have "p \<in> set qs" by simp
    from stamped_channels [OF st this] obtain j where j: "j \<in> fst ` set lg" "packet_channel p = cid (objects tr2 j)" by blast
    from low [OF j(1)] j(2) cid2 assms(4) show ?thesis by (simp add: unat_of_nat)
  qed
  have "listening m (ts @ [t]) ?taken (ps @ qs) tr'"
    unfolding listening_def using kp em r(3) l f2 obj chans none by (simp add: Suc_le_eq less_Suc_eq_le)
  with add r(1) show ?thesis by auto
qed

lemma listening_all:
  assumes "listening m ts taken ps tr" "\<forall>t \<in> set us. tinv t \<and> (\<forall>d \<in> set (tinbox t). length d + 16 \<le> nmtu)"
    and "length (ts @ us) < 2 ^ 64" "nroom m < fuel"
  shows "\<exists>tr' taken' ps'. listening_tcp_targets fuel nops tops us (of_nat (length ts), tr) = Inr (of_nat (length (ts @ us)), tr')
     \<and> listening m (ts @ us) taken' ps' tr'"
  using assms
proof (induction us arbitrary: ts taken ps tr)
  case (Cons t us)
  from listening_step [OF Cons.prems(1), of t fuel] Cons.prems(2-4) obtain tr1 tk1 ps1 where
    1: "Transport_add_target fuel nops tops (of_nat (length ts)) (Completed t) tr = Inr tr1" "listening m (ts @ [t]) tk1 ps1 tr1" by auto
  from Cons.IH [OF 1(2)] Cons.prems(2-4) 1(1) show ?case by (auto simp: listening_tcp_target_def ac_simps)
qed auto

lemma listening_start: "ninv m \<Longrightarrow> listening m [] (\<lambda>_. []) [] (Transport_create m mtu)"
  by (simp add: listening_def io_ok_def target_ok_def Transport_create_def new_child_def)

end

section \<open>Properties\<close>

text \<open>C30: connections accepted by a client become channels numbered from zero in the order of their acceptance. Over a multilink
  every one of them is added without failure; the packets sent for each channel are what its connection supplied, in
  order, numbered from zero; and nothing is sent to a connection before something arrives for it.\<close>

theorem listening_targets_numbered:
  fixes m :: "('a, 'b) multilink"
  assumes "env_ok env" "packet_duplex tops tinv temitted tenc troom tgtmtu tinbox" "QUEUE_SIZE < fuel" "mqueue m = []"
    and "\<forall>t \<in> set ts. tinv t \<and> (\<forall>d \<in> set (tinbox t). length d + 16 \<le> MULTILINK_MTU)" "length ts < 2 ^ 64"
  shows "\<exists>tr taken. listening_tcp_targets fuel (Multilink_ops env) tops ts (0, Transport_create m mtu) = Inr (of_nat (length ts), tr)
     \<and> children tr = map (\<lambda>i. (of_nat i, i)) [0..<length ts]
     \<and> (\<forall>p \<in> set (mqueue (network_stream tr)). unat (packet_channel p) < length ts)
     \<and> (\<forall>i < length ts. filter (\<lambda>p. packet_channel p = of_nat i) (mqueue (network_stream tr)) = numbered (of_nat i) 0 (taken i)
          \<and> (\<exists>t. ctarget (objects tr i) = Some t \<and> tinbox (ts ! i) = taken i @ tinbox t \<and> temitted t = temitted (ts ! i)))"
proof -
  note io = transport_over_mux [OF assms(2), of env]
  have len: "length ([] @ ts) < 2 ^ 64" and room: "QUEUE_SIZE - length (mqueue m) < fuel" using assms(3,6) by simp_all
  from transport_io.listening_all [OF io transport_io.listening_start [OF io assms(1)] assms(5) len room, of mtu, unfolded append_Nil list.size(3) of_nat_0]
  obtain tr taken ps where r:
    "listening_tcp_targets fuel (Multilink_ops env) tops ts (0, Transport_create m mtu) = Inr (of_nat (length ts), tr)"
    "transport_io.listening (\<lambda>m :: ('a, 'b) multilink. env_ok env) mqueue (\<lambda>d. [d]) (\<lambda>m. QUEUE_SIZE - length (mqueue m)) MULTILINK_MTU
       tinv temitted tinbox m ts taken ps tr" by auto
  from r(2) show ?thesis unfolding transport_io.listening_def [OF io] using r(1) assms(4)
    by (intro exI [of _ tr] exI [of _ taken]) auto
qed

theorem listening_targets_numbered_witness:
  "\<exists>tr. listening_tcp_targets 41 (Multilink_ops example_env) example_tops [example_target, example_target]
       (0, Transport_create (Multilink_init []) 100) = Inr (2, tr) \<and> map fst (children tr) = [0, 1]"
proof -
  have ok: "\<forall>t \<in> set [example_target, example_target]. sock.fd_stream.length_inv t \<and> (\<forall>d \<in> set (sock.fd_stream.length_inbox t). length d + 16 \<le> MULTILINK_MTU)"
    using example_target_ok by simp
  have q: "QUEUE_SIZE < 41" "mqueue (Multilink_init []) = []" by (simp_all add: QUEUE_SIZE_def Multilink_init_def)
  from listening_targets_numbered [OF example_env_ok sock.fd_stream.length_stream.packet_duplex_axioms q ok, of 100]
  show ?thesis by (auto simp: upt_rec)
qed

text \<open>A channel that the client did not open is refused at once: a close packet for it goes out, or waits for the network to become
  ready, and the channel never gets a target.\<close>

lemma unknown_stream_is_closed:
  assumes "Transport_add_target fuel nops tops chan (unknown_stream_target_creator chan) tr = Inr tr'" "special_packet_queue tr = []"
  shows "(\<exists>net. psend nops (network_stream tr) (transport_packet CLOSE_CHANNEL chan []) = Inr net \<and> network_stream tr' = net \<and> special_packet_queue tr' = [])
       \<or> special_packet_queue tr' = [(CLOSE_CHANNEL, chan)]"
    and "ctarget (objects tr' (next_object tr)) = None"
  using assms
  by (auto simp: Transport_add_target_def unknown_stream_target_creator_def Transport_target_error_def Transport_send_special_packet_def
      Let_def drop_target_def put_object_def new_child_def result_simps split: if_splits option.splits)

text \<open>A connection attempt gives its channel a target exactly when it succeeds; a receive buffer that cannot be set ends the
  server.\<close>

lemma connecting_target_cases:
  "connecting_tcp_target e t r = (if r = None then Inr Pending else if r \<noteq> Some Conn_ok then Inr Failed
     else if e = None then Inr (Completed t) else Inl (Thrown ''setsockopt''))"
  by (cases r; cases e) (auto simp: connecting_tcp_target_def errno_check_def split: connect_outcome.splits)

end
