(* ===== verification/App.thy ===== *)
theory App
  imports Buffers Misc "HOL-Library.Multiset"
begin

text \<open>
  \<^verbatim>\<open>app/client.cpp\<close>, \<^verbatim>\<open>app/server.cpp\<close>, \<^verbatim>\<open>app/rpc.cpp\<close> and \<^verbatim>\<open>app/server_child.cpp\<close>: how a client and a server agree on a link.

  Strings are byte strings. The connections themselves are the modelled streams; what is left here are the messages, the identity
  file and the client's bookkeeping of its links.
\<close>

section \<open>The welcome message\<close>

definition client_welcome :: "bytes \<Rightarrow> bytes \<Rightarrow> bytes result" where
  "client_welcome client_id bind_addr =
     (let welcome = replicate 128 0 in
      bindR (assertR (length client_id \<le> 16) (write_at 0 client_id welcome)) (\<lambda>w.
        assertR (length bind_addr \<le> length w - 16) (write_at 16 bind_addr w)))"

text \<open>\<open>while (link_name.back() == 0) link_name.pop_back();\<close> the last character of an empty string does not exist.\<close>

function strip_zeros :: "bytes \<Rightarrow> bytes result" where
  "strip_zeros s = (if s = [] then Inl Undefined_behaviour else if last s = 0 then strip_zeros (butlast s) else Inr s)"
  by pat_completeness auto
termination
  by (relation "measure length") auto

declare strip_zeros.simps [simp del]

lemma strip_zeros_snoc: "strip_zeros (s @ [0]) = strip_zeros s"
  by (subst strip_zeros.simps) simp

definition server_welcome :: "bytes \<Rightarrow> (bytes \<times> bytes) result" where
  "server_welcome welcome =
     bindR (slice_bytes 0 16 welcome) (\<lambda>multilink_id.
     bindR (slice_bytes 16 (length welcome - 16) welcome) (\<lambda>name.
     bindR (strip_zeros name) (\<lambda>link_name. Inr (multilink_id, link_name))))"

section \<open>The identity file\<close>

text \<open>\<open>None\<close> is a file that cannot be opened; the empty key tells OpenSSL that the identity is unknown.\<close>

fun find_identity :: "bytes list \<Rightarrow> bytes \<Rightarrow> bytes result" where
  "find_identity [] identity = Inr []"
| "find_identity (line # ls) identity =
     (let prefix = identity @ [58] in
      if length line > length prefix \<and> take (length prefix) line = prefix
      then hex_decode (drop (length prefix) line)
      else find_identity ls identity)"

definition file_identity_callback :: "bytes list option \<Rightarrow> bytes \<Rightarrow> bytes result" where
  "file_identity_callback file identity = (case file of None \<Rightarrow> Inr [] | Some ls \<Rightarrow> find_identity ls identity)"

section \<open>Messages to the child process\<close>

text \<open>The JSON text is a parameter; the length is stored into 32 bits.\<close>

definition send_message :: "bytes \<Rightarrow> bytes" where
  "send_message msg = put_u32 (of_nat (length msg)) @ msg"

definition RPC_message_length :: "bytes \<Rightarrow> nat result" where
  "RPC_message_length data =
     (let len = unat (get_u32 data) in if len > 1024 * 1024 then Inl (Thrown ''requested buffer too big'') else Inr len)"

text \<open>
  One round of \<open>read_message\<close> on the bytes that have arrived: \<open>None\<close> while it waits for more, otherwise the message and the bytes it
  has left in the stream. The two exact reads are those of \<open>Ioutil\<close>.
\<close>

definition RPC_read_message :: "bytes \<Rightarrow> (bytes \<times> bytes) option result" where
  "RPC_read_message arrived =
     (if length arrived < 4 then Inr None
      else bindR (RPC_message_length (take 4 arrived)) (\<lambda>len.
        let rest = drop 4 arrived in
        Inr (if len = 0 \<or> length rest < len then None else Some (take len rest, drop len rest))))"

text \<open>What the child does with a message: \<open>cmd\<close> and \<open>name\<close> are the fields the JSON library finds.\<close>

record child =
  c_abandoned :: "nat list"
  c_written :: "(nat \<times> bytes) list"
  c_links :: "(nat \<times> bytes) list"

definition child_callback :: "nat \<Rightarrow> bytes \<Rightarrow> bytes \<Rightarrow> child \<Rightarrow> child" where
  "child_callback fd cmd name c =
     (if cmd = [97, 100, 100, 45, 108, 105, 110, 107]
      then c\<lparr>c_abandoned := c_abandoned c @ [fd], c_written := c_written c @ [(fd, [111, 107, 10])], c_links := c_links c @ [(fd, name)]\<rparr>
      else c)"

section \<open>The client's links\<close>

text \<open>
  \<open>c_connecting\<close> holds the addresses with a connection being set up, \<open>c_ml_links\<close> those of links in the multilink, \<open>c_timers\<close>
  those to be tried again. \<open>statics\<close> are the addresses of the command line, which \<open>on_init\<close> adds.
\<close>

record client =
  running_links :: "bytes multiset"
  instance_id :: bytes
  c_connecting :: "bytes list"
  c_ml_links :: "bytes list"
  c_timers :: "bytes list"
  c_inits :: nat

definition Client_create :: client where
  "Client_create = \<lparr>running_links = {#}, instance_id = [], c_connecting = [], c_ml_links = [], c_timers = [], c_inits = 0\<rparr>"

definition Client_add_bind_address :: "bytes \<Rightarrow> client \<Rightarrow> client" where
  "Client_add_bind_address a c =
     (if a \<in># running_links c then c
      else c\<lparr>running_links := add_mset a (running_links c), c_connecting := c_connecting c @ [a]\<rparr>)"

definition Client_link_closed :: "bytes \<Rightarrow> client \<Rightarrow> client" where
  "Client_link_closed a c =
     c\<lparr>running_links := (if a \<in># running_links c then running_links c - {#a#} else running_links c), c_timers := c_timers c @ [a]\<rparr>"

definition Client_reload_nm :: "bytes list \<Rightarrow> client \<Rightarrow> client" where
  "Client_reload_nm addresses c =
     foldl (\<lambda>c a. Client_add_bind_address a c) c (filter (\<lambda>a. a \<notin># running_links c) addresses)"

text \<open>What \<open>on_init\<close> meets: whether the target can be created, or throws, and the addresses of the interfaces if the
  integration with the network manager is on.\<close>

record init_env =
  ie_target_ok :: bool
  ie_nm :: "bytes list option"

definition Client_on_init :: "bytes list \<Rightarrow> init_env \<Rightarrow> client \<Rightarrow> client result" where
  "Client_on_init statics e c =
     (let c1 = c\<lparr>c_inits := c_inits c + 1\<rparr> in
      if \<not> ie_target_ok e then Inl (Thrown ''target'')
      else let c2 = (case ie_nm e of None \<Rightarrow> c1 | Some addresses \<Rightarrow> Client_reload_nm addresses c1)
        in Inr (foldl (\<lambda>c a. Client_add_bind_address a c) c2 statics))"

definition Client_abort_instance :: "bytes list \<Rightarrow> init_env \<Rightarrow> client \<Rightarrow> client result" where
  "Client_abort_instance statics e c = Client_on_init statics e (c\<lparr>instance_id := []\<rparr>)"

text \<open>The continuation that has read the instance identifier. Futures do not catch what their continuations throw, so an exception
  in it leaves the event loop.\<close>

definition Client_connected :: "bytes list \<Rightarrow> init_env \<Rightarrow> bytes \<Rightarrow> bytes \<Rightarrow> client \<Rightarrow> client result" where
  "Client_connected statics e a inst c =
     (let c1 = c\<lparr>c_connecting := remove1 a (c_connecting c)\<rparr>;
          c2 = (if instance_id c1 = [] then c1\<lparr>instance_id := inst\<rparr> else c1)
      in if instance_id c2 = inst then Inr (c2\<lparr>c_ml_links := c_ml_links c2 @ [a]\<rparr>) else Client_abort_instance statics e c2)"

definition Client_failed :: "bytes \<Rightarrow> client \<Rightarrow> client" where
  "Client_failed a c = Client_link_closed a (c\<lparr>c_connecting := remove1 a (c_connecting c)\<rparr>)"

section \<open>Histories of a client\<close>

text \<open>The events of a client's life, each allowed where the code can meet it.\<close>

inductive client_step :: "bytes list \<Rightarrow> client \<Rightarrow> client \<Rightarrow> bool" for statics :: "bytes list" where
  client_init: "Client_on_init statics e c = Inr d \<Longrightarrow> client_step statics c d"
| client_connected: "a \<in> set (c_connecting c) \<Longrightarrow> inst \<noteq> [] \<Longrightarrow> Client_connected statics e a inst c = Inr d \<Longrightarrow> client_step statics c d"
| client_failed: "a \<in> set (c_connecting c) \<Longrightarrow> client_step statics c (Client_failed a c)"
| client_link_lost: "a \<in> set (c_ml_links c) \<Longrightarrow>
    client_step statics c (Client_link_closed a (c\<lparr>c_ml_links := remove1 a (c_ml_links c)\<rparr>))"
| client_timer: "a \<in> set (c_timers c) \<Longrightarrow>
    client_step statics c (Client_add_bind_address a (c\<lparr>c_timers := remove1 a (c_timers c)\<rparr>))"
| client_reload: "client_step statics c (Client_reload_nm addresses c)"

inductive client_trace :: "bytes list \<Rightarrow> client \<Rightarrow> client \<Rightarrow> bool" for statics :: "bytes list" where
  client_trace_nil: "client_trace statics c c"
| client_trace_snoc: "client_trace statics c d \<Longrightarrow> client_step statics d e \<Longrightarrow> client_trace statics c e"

text \<open>\<open>lost\<close> are the addresses counted as running that have neither a connection nor a link.\<close>

definition client_inv :: "bytes multiset \<Rightarrow> client \<Rightarrow> bool" where
  "client_inv lost c \<longleftrightarrow> running_links c = mset (c_connecting c) + mset (c_ml_links c) + lost
     \<and> (\<forall>a. count (mset (c_connecting c) + mset (c_ml_links c) + lost) a \<le> 1)"

lemma client_inv_add: "client_inv lost c \<Longrightarrow> client_inv lost (Client_add_bind_address a c)"
  by (auto simp: client_inv_def Client_add_bind_address_def not_in_iff)

lemma client_inv_adds: "client_inv lost c \<Longrightarrow> client_inv lost (foldl (\<lambda>c a. Client_add_bind_address a c) c as)"
  by (induction as arbitrary: c) (simp_all add: client_inv_add)

lemma client_inv_reload: "client_inv lost c \<Longrightarrow> client_inv lost (Client_reload_nm addresses c)"
  by (simp add: Client_reload_nm_def client_inv_adds)

lemma client_inv_init: "client_inv lost c \<Longrightarrow> Client_on_init statics e c = Inr d \<Longrightarrow> client_inv lost d"
proof -
  assume "client_inv lost c" and d: "Client_on_init statics e c = Inr d"
  then have "client_inv lost (c\<lparr>c_inits := c_inits c + 1\<rparr>)" by (simp add: client_inv_def)
  with d show ?thesis
    by (auto simp: Client_on_init_def Let_def client_inv_reload client_inv_adds split: option.splits if_splits)
qed

lemma client_inv_closed:
  assumes "running_links c = add_mset a (mset (c_connecting c) + mset (c_ml_links c) + lost)"
    and "\<forall>b. count (add_mset a (mset (c_connecting c) + mset (c_ml_links c) + lost)) b \<le> 1"
  shows "client_inv lost (Client_link_closed a c)"
proof -
  have "count (mset (c_connecting c) + mset (c_ml_links c) + lost) b \<le> 1" for b
    by (rule order_trans [OF _ assms(2) [rule_format, of b]]) simp
  then show ?thesis using assms(1) by (simp add: client_inv_def Client_link_closed_def)
qed

lemma remove1_out:
  assumes "a \<in> set xs"
  obtains ys where "remove1 a xs = ys" "mset xs = add_mset a (mset ys)"
  using assms by (metis insert_DiffM mset_remove1 set_mset_mset)

text \<open>An address is lost when its connection discovers a new instance.\<close>

definition loses :: "bytes \<Rightarrow> client \<Rightarrow> bool" where
  "loses inst c \<longleftrightarrow> instance_id c \<noteq> [] \<and> instance_id c \<noteq> inst"

lemma client_inv_connected:
  assumes "client_inv lost c" "a \<in> set (c_connecting c)" "Client_connected statics e a inst c = Inr d"
  shows "client_inv (if loses inst c then add_mset a lost else lost) d"
proof -
  from remove1_out [OF assms(2)] obtain cs where m: "remove1 a (c_connecting c) = cs" "mset (c_connecting c) = add_mset a (mset cs)" .
  show ?thesis
  proof (cases "loses inst c")
    case False
    then have "d = c\<lparr>c_connecting := cs, instance_id := inst, c_ml_links := c_ml_links c @ [a]\<rparr>"
      using assms(3) by (auto simp: Client_connected_def Let_def m(1) loses_def split: if_splits)
    with False assms(1) m show ?thesis by (simp add: client_inv_def)
  next
    case True
    then have r: "Client_on_init statics e (c\<lparr>c_connecting := cs, instance_id := []\<rparr>) = Inr d"
      using assms(3) by (simp add: Client_connected_def Client_abort_instance_def Let_def m(1) loses_def)
    have "client_inv (add_mset a lost) (c\<lparr>c_connecting := cs, instance_id := []\<rparr>)"
      using assms(1) m by (simp add: client_inv_def)
    from client_inv_init [OF this r] True show ?thesis by simp
  qed
qed

lemma client_step_inv:
  assumes "client_step statics c d" "client_inv lost c"
  shows "\<exists>more. client_inv (lost + more) d"
  using assms(1)
proof cases
  case (client_init e)
  from client_inv_init [OF assms(2) client_init] show ?thesis by (auto intro: exI [of _ "{#}"])
next
  case (client_connected a inst e)
  from client_inv_connected [OF assms(2) client_connected(1,3)] show ?thesis
    by (auto split: if_splits intro: exI [of _ "{#}"] exI [of _ "{#a#}"])
next
  case (client_failed a)
  from remove1_out [OF client_failed(2)] obtain cs where m: "remove1 a (c_connecting c) = cs" "mset (c_connecting c) = add_mset a (mset cs)" .
  have "client_inv lost (Client_failed a c)"
    unfolding Client_failed_def m(1) by (rule client_inv_closed) (use assms(2) m(2) in \<open>simp_all add: client_inv_def\<close>)
  with client_failed(1) show ?thesis by (auto intro: exI [of _ "{#}"])
next
  case (client_link_lost a)
  from remove1_out [OF client_link_lost(2)] obtain cs where m: "remove1 a (c_ml_links c) = cs" "mset (c_ml_links c) = add_mset a (mset cs)" .
  have "client_inv lost d"
    unfolding client_link_lost(1) m(1) by (rule client_inv_closed) (use assms(2) m(2) in \<open>simp_all add: client_inv_def\<close>)
  then show ?thesis by (auto intro: exI [of _ "{#}"])
next
  case (client_timer a)
  have "client_inv lost d" unfolding client_timer(1)
    by (rule client_inv_add) (use assms(2) in \<open>simp add: client_inv_def\<close>)
  then show ?thesis by (auto intro: exI [of _ "{#}"])
next
  case (client_reload addresses)
  have "client_inv lost d" unfolding client_reload Client_reload_nm_def by (rule client_inv_adds) (rule assms(2))
  then show ?thesis by (auto intro: exI [of _ "{#}"])
qed

lemma client_trace_inv:
  "client_trace statics c d \<Longrightarrow> client_inv lost c \<Longrightarrow> \<exists>more. client_inv (lost + more) d"
proof (induction rule: client_trace.induct)
  case (client_trace_nil c)
  then show ?case by (auto intro: exI [of _ "{#}"])
next
  case (client_trace_snoc c d e)
  then obtain more where "client_inv (lost + more) d" by blast
  from client_step_inv [OF client_trace_snoc.hyps(2) this] show ?case by (auto simp: add.assoc)
qed

lemma client_inv_start: "client_inv {#} Client_create"
  by (simp add: client_inv_def Client_create_def)

section \<open>Properties\<close>

lemma strip_zeros_padded:
  assumes "d = [] \<or> last d \<noteq> 0"
  shows "strip_zeros (d @ replicate n 0) = (if d = [] then Inl Undefined_behaviour else Inr d)"
proof (induction n)
  case 0
  from assms show ?case by (auto simp: strip_zeros.simps [of d])
next
  case (Suc n)
  have "d @ replicate (Suc n) 0 = (d @ replicate n 0) @ [0]" by (simp only: replicate_Suc replicate_append_same append_assoc)
  then show ?case using Suc.IH by (simp only: strip_zeros_snoc)
qed

text \<open>C20: the welcome message is read back as it was written: the server gets the client's identifier and the
  name of the link, if the name is not empty, fits and does not end in a zero byte. A name that does not fit fails an
  assertion of the client; the empty name makes the server read the last character of an empty string.\<close>

theorem App_welcome_roundtrip:
  assumes "length client_id = 16"
  shows "(addr \<noteq> [] \<and> length addr \<le> 112 \<and> last addr \<noteq> 0 \<longrightarrow> bindR (client_welcome client_id addr) server_welcome = Inr (client_id, addr))
     \<and> (112 < length addr \<longrightarrow> client_welcome client_id addr = Inl Assert_failed)
     \<and> bindR (client_welcome client_id []) server_welcome = Inl Undefined_behaviour"
proof -
  have w: "client_welcome client_id d = Inr (client_id @ d @ replicate (112 - length d) 0)" if "length d \<le> 112" for d
    using assms that by (simp add: client_welcome_def write_at_def)
  have s: "server_welcome (client_id @ d @ replicate (112 - length d) 0)
      = (if d = [] then Inl Undefined_behaviour else Inr (client_id, d))" if "length d \<le> 112" "d = [] \<or> last d \<noteq> 0" for d
    using assms that strip_zeros_padded [OF that(2), of "112 - length d"] by (simp add: server_welcome_def slice_bytes_def)
  have "112 < length addr \<longrightarrow> client_welcome client_id addr = Inl Assert_failed"
    using assms by (simp add: client_welcome_def write_at_def assertR_def)
  moreover have "addr \<noteq> [] \<and> length addr \<le> 112 \<and> last addr \<noteq> 0 \<longrightarrow> bindR (client_welcome client_id addr) server_welcome = Inr (client_id, addr)"
    using w [of addr] s [of addr] by simp
  moreover have "bindR (client_welcome client_id []) server_welcome = Inl Undefined_behaviour"
    using w [of "[]"] s [of "[]"] by (simp)
  ultimately show ?thesis by blast
qed

theorem App_welcome_roundtrip_witness:
  "bindR (client_welcome (replicate 16 7) [49, 48]) server_welcome = Inr (replicate 16 7, [49, 48])"
  using App_welcome_roundtrip [of "replicate 16 7" "[49, 48]"] by simp

text \<open>C21: the client keeps at most one connection or link per address. Over every history each address is counted as running at
  most once, and every connection being set up and every link in the multilink is counted.\<close>

theorem Client_one_link_per_address:
  assumes "client_trace statics Client_create c"
  shows "mset (c_connecting c) + mset (c_ml_links c) \<subseteq># running_links c \<and> (\<forall>a. count (running_links c) a \<le> 1)"
proof -
  from client_trace_inv [OF assms client_inv_start] obtain lost where "client_inv ({#} + lost) c" by blast
  then show ?thesis by (simp add: client_inv_def)
qed

theorem Client_one_link_per_address_witness:
  "count (running_links (Client_reload_nm [[1], [1]] Client_create)) [1] \<le> 1"
  using Client_one_link_per_address [OF client_trace_snoc [OF client_trace_nil client_reload]] by blast

text \<open>When the server has been restarted and the target can be created again, the address whose connection discovers it is lost for
  good: it stays counted as running although it has neither a connection nor a link, and no later event connects it again. If the
  target cannot be created, because the port or the device is still in use, the exception ends the client.\<close>

theorem Client_abort_loses_address:
  assumes "client_trace statics Client_create c" "a \<in> set (c_connecting c)" "inst \<noteq> instance_id c" "instance_id c \<noteq> []"
    and "Client_connected statics e a inst c = Inr c'" "client_trace statics c' d"
  shows "a \<in># running_links d \<and> a \<notin> set (c_connecting d) \<and> a \<notin> set (c_ml_links d)"
proof -
  from client_trace_inv [OF assms(1) client_inv_start] obtain lost where "client_inv lost c" by auto
  from client_inv_connected [OF this assms(2,5)] assms(3,4) have "client_inv (add_mset a lost) c'" by (auto simp: loses_def)
  from client_trace_inv [OF assms(6) this] obtain more where inv: "client_inv (add_mset a lost + more) d" by blast
  then have "count (running_links d) a = count (mset (c_connecting d)) a + count (mset (c_ml_links d)) a + (1 + count lost a + count more a)"
    by (simp add: client_inv_def)
  moreover from this inv have "count (running_links d) a \<le> 1" unfolding client_inv_def by metis
  ultimately have "count (mset (c_connecting d)) a = 0" "count (mset (c_ml_links d)) a = 0" "0 < count (running_links d) a" by linarith+
  then show ?thesis by (simp add: count_eq_zero_iff)
qed

text \<open>Two addresses; the second connection finds another instance than the first.\<close>

definition example_env :: init_env where
  "example_env = \<lparr>ie_target_ok = True, ie_nm = None\<rparr>"

lemma example_restart:
  "\<exists>c d. client_trace [] Client_create c \<and> [2] \<in> set (c_connecting c) \<and> instance_id c = [8]
     \<and> Client_connected [] example_env [2] [9] c = Inr d"
proof -
  let ?c = "Client_reload_nm [[1], [2]] Client_create"
  have c: "[1] \<in> set (c_connecting ?c)"
    by (simp add: Client_reload_nm_def Client_create_def Client_add_bind_address_def)
  obtain d where d: "Client_connected [] example_env [1] [8] ?c = Inr d" "[2] \<in> set (c_connecting d)" "instance_id d = [8]"
    by (simp add: Client_reload_nm_def Client_create_def Client_add_bind_address_def Client_connected_def)
  have "client_trace [] Client_create d"
    by (rule client_trace_snoc [OF client_trace_snoc [OF client_trace_nil client_reload] client_connected [OF c _ d(1)]]) simp
  moreover have "\<exists>d'. Client_connected [] example_env [2] [9] d = Inr d'"
    using d(3) by (simp add: Client_connected_def Client_abort_instance_def Client_on_init_def example_env_def)
  ultimately show ?thesis using d by blast
qed

theorem Client_abort_loses_address_witness: "\<exists>d :: client. [2] \<in># running_links d \<and> [2] \<notin> set (c_ml_links d)"
proof -
  from example_restart obtain c d where cd: "client_trace [] Client_create c" "[2] \<in> set (c_connecting c)" "instance_id c = [8]"
    "Client_connected [] example_env [2] [9] c = Inr d" by blast
  from Client_abort_loses_address [OF cd(1,2) _ _ cd(4) client_trace_nil] cd(3) show ?thesis by auto
qed

lemma Client_abort_may_terminate:
  assumes "inst \<noteq> instance_id c" "instance_id c \<noteq> []" "\<not> ie_target_ok e"
  shows "Client_connected statics e a inst c = Inl (Thrown ''target'')"
  using assms by (simp add: Client_connected_def Client_abort_instance_def Client_on_init_def)

text \<open>A message to the child process is read back with nothing more than its bytes taken from the stream; the empty message
  is never delivered, and a longer one than the limit is refused.\<close>

lemma RPC_message:
  assumes "length msg < 2 ^ 32"
  shows "RPC_read_message (send_message msg @ rest) =
     (if length msg > 1024 * 1024 then Inl (Thrown ''requested buffer too big'') else if msg = [] then Inr None else Inr (Some (msg, rest)))"
proof -
  have "length (put_u32 w) = 4" for w by (simp add: put_u32_def)
  moreover have "unat (of_nat (length msg) :: u32) = length msg" using assms by (simp add: unat_of_nat)
  moreover have "get_u32 (put_u32 (of_nat (length msg))) = of_nat (length msg)" using get_put_u32 [of "of_nat (length msg)" "[]"] by simp
  ultimately show ?thesis by (auto simp: RPC_read_message_def RPC_message_length_def send_message_def Let_def)
qed

end
