(* ===== verification/Mains.thy ===== *)
theory Mains
  imports App Terminate Sockets Process Packet_Streams
begin

text \<open>
  The main programs and the processes they start: the options of \<^verbatim>\<open>app/client.cpp\<close> and \<^verbatim>\<open>app/server_child.cpp\<close>, the command line and
  the socket by which \<^verbatim>\<open>app/server.cpp\<close> hands a link to its child process, and the addresses of \<^verbatim>\<open>terminate/address.cpp\<close>.

  Option values are those of the option library after it has filled in the defaults. Strings are byte strings.
\<close>

section \<open>The child process\<close>

text \<open>\<open>args\<close> are the options given, \<open>vm\<close> what the program sees: an option with a default always counts as present.\<close>

record child_args =
  a_help :: bool
  a_sock_fd :: "int option"
  a_target_port :: "int option"
  a_target_host :: "bytes option"
  a_connect_bind :: "bytes option"
  a_tun_prefix :: "bytes option"
  a_dry_run :: bool

definition with_default :: "bytes \<Rightarrow> bytes option \<Rightarrow> bytes option" where
  "with_default d v = (case v of None \<Rightarrow> Some d | Some x \<Rightarrow> Some x)"

definition ascii :: "string \<Rightarrow> bytes" where
  "ascii s = map (\<lambda>c. of_nat (of_char c)) s"

definition child_vm :: "child_args \<Rightarrow> child_args" where
  "child_vm args = args\<lparr>a_target_host := with_default (ascii ''127.0.0.1'') (a_target_host args),
     a_connect_bind := with_default (ascii ''0.0.0.0'') (a_connect_bind args),
     a_tun_prefix := with_default (ascii ''mlc'') (a_tun_prefix args)\<rparr>"

datatype child_target = Connect_to bytes int | Terminate_here bytes

datatype child_outcome = Exits int | Serves int child_target "bytes option"

text \<open>The name of the tun device: \<open>15 - prefix.size()\<close> wraps around, becomes a negative \<open>int\<close>, and \<open>resize\<close> throws. The random device is a
  sequence of numbers below 16.\<close>

definition tun_name :: "(nat \<Rightarrow> nat) \<Rightarrow> bytes \<Rightarrow> bytes result" where
  "tun_name rnd prefix =
     (if length prefix > 15 then Inl (Thrown ''length_error'') else Inr (prefix @ random_hex_string (map rnd [0..<15 - length prefix])))"

definition as_option :: "'a option \<Rightarrow> 'a result" where
  "as_option v = (case v of None \<Rightarrow> Inl (Thrown ''bad_any_cast'') | Some x \<Rightarrow> Inr x)"

text \<open>\<open>set_tun\<close> is a call on the terminator, which is null when the target is a connection.\<close>

definition child_setup_tun :: "(nat \<Rightarrow> nat) \<Rightarrow> child_args \<Rightarrow> child_target \<Rightarrow> bytes option result" where
  "child_setup_tun rnd vm target = (case a_tun_prefix vm of
       None \<Rightarrow> Inr None
     | Some prefix \<Rightarrow> bindR (tun_name rnd prefix) (\<lambda>name.
         case target of Connect_to h p \<Rightarrow> Inl Undefined_behaviour | Terminate_here b \<Rightarrow> Inr (Some name)))"

definition child_main :: "(nat \<Rightarrow> nat) \<Rightarrow> child_args \<Rightarrow> child_outcome result" where
  "child_main rnd args =
     (let vm = child_vm args in
      if a_help vm then Inr (Exits 0)
      else if a_target_port vm \<noteq> None \<and> a_tun_prefix vm \<noteq> None then Inr (Exits 1)
      else if a_dry_run vm then Inr (Exits 0)
      else bindR (case a_target_port vm of
             Some port \<Rightarrow> bindR (as_option (a_target_host vm)) (\<lambda>host. Inr (Connect_to host port))
           | None \<Rightarrow> bindR (as_option (a_connect_bind vm)) (\<lambda>bind. Inr (Terminate_here bind))) (\<lambda>target.
        bindR (child_setup_tun rnd vm target) (\<lambda>name.
        bindR (as_option (a_sock_fd vm)) (\<lambda>fd_num. Inr (Serves fd_num target name)))))"

section \<open>Starting the child process\<close>

definition CHILD_PATH :: bytes where "CHILD_PATH = ascii ''./build/server_child''"

definition child_command :: "bytes list \<Rightarrow> nat \<Rightarrow> bytes list" where
  "child_command child_options fd_num = [CHILD_PATH, ascii ''--sock-fd'', to_string fd_num] @ child_options"

definition verify_command :: "bytes list \<Rightarrow> bytes list" where
  "verify_command options = [CHILD_PATH] @ options @ [ascii ''--dry-run'']"

definition handler_path :: "bytes \<Rightarrow> bytes" where
  "handler_path inst_id = ascii ''/tmp/.ml_'' @ inst_id"

text \<open>\<open>ProcessHandler::add_link\<close> up to the pipe: the message goes to the child, then the instance identifier to the client, then three
  bytes are read from the child. \<open>dump\<close> is the JSON text of the type and the name.\<close>

definition add_link_message :: "(bytes \<times> bytes \<Rightarrow> bytes) \<Rightarrow> bytes \<Rightarrow> bytes" where
  "add_link_message dump name = send_message (dump (ascii ''add-link'', name))"

definition add_link_reply :: "bytes \<Rightarrow> bytes result" where
  "add_link_reply inst_id = hex_decode inst_id"

definition add_link_response :: "bytes \<Rightarrow> unit result" where
  "add_link_response s = (if s \<noteq> ascii ''ok'' @ [10] then Inl Aborted else Inr ())"

section \<open>The client\<close>

record client_args =
  cl_help :: bool
  cl_listen_port :: "int option"
  cl_tun_name :: "bytes option"
  cl_psk :: "bytes option"
  cl_static :: "bytes list option"
  cl_nm :: bool

datatype client_target = Listen_on int | Terminate_on bytes

datatype client_outcome = Client_usage | Client_runs client_target bytes

definition client_main :: "client_args \<Rightarrow> client_outcome result" where
  "client_main vm =
     (if cl_help vm \<or> (cl_static vm = None \<and> \<not> cl_nm vm) \<or> \<not> ((cl_listen_port vm = None) \<noteq> (cl_tun_name vm = None))
      then Inr Client_usage
      else bindR (as_option (with_default (ascii ''6d41adad3518a0e8ba0362bd9ef03244'') (cl_psk vm))) (\<lambda>hex.
        bindR (hex_decode hex) (\<lambda>psk.
        case cl_listen_port vm of
          Some port \<Rightarrow> Inr (Client_runs (Listen_on port) psk)
        | None \<Rightarrow> bindR (as_option (cl_tun_name vm)) (\<lambda>name. Inr (Client_runs (Terminate_on name) psk)))))"

text \<open>The packet sizes of the transports: the client leaves room for the header, the server does not.\<close>

definition CLIENT_TRANSPORT_MTU :: nat where "CLIENT_TRANSPORT_MTU = MULTILINK_MTU - TRANSPORT_HEADER_SIZE"
definition SERVER_TRANSPORT_MTU :: nat where "SERVER_TRANSPORT_MTU = MULTILINK_MTU"

section \<open>Addresses\<close>

text \<open>The interfaces that \<open>SIOCGIFCONF\<close> reports, with name, family and address.\<close>

record ifreq =
  ifr_name :: bytes
  ifr_family :: int
  ifr_addr :: u32

definition AF_INET :: int where "AF_INET = 2"

definition bad_interface :: "bytes \<Rightarrow> bool" where
  "bad_interface name \<longleftrightarrow> (\<exists>bad_prefix \<in> set (map ascii [''lo'', ''tun'', ''lxcbr'', ''virbr'']). take (length bad_prefix) name = bad_prefix)"

fun get_addresses :: "ifreq list \<Rightarrow> IpAddress list" where
  "get_addresses [] = []"
| "get_addresses (i # is) =
     (if bad_interface (ifr_name i) \<or> ifr_family i \<noteq> AF_INET then get_addresses is
      else IpAddress_make4 (ifr_addr i) # get_addresses is)"

definition htonl :: "u32 \<Rightarrow> u32" where
  "htonl w = get_u32 (rev (put_u32 w))"

text \<open>The address of the server's tun device: \<open>k\<close> is drawn between the bounds.\<close>

definition tun_address :: "u32 \<Rightarrow> bytes result" where
  "tun_address k = IpAddress_to_string (IpAddress_make4 (htonl k))"

section \<open>Properties\<close>

lemma length_random_hex_string [simp]: "length (random_hex_string rnd) = length rnd"
  by (simp add: random_hex_string_def)

text \<open>The child process never connects to a target port. Since the prefix of the device has a default, giving a target port always
  ends it with status 1, the status with which the server refuses to start. Without one it serves with a device
  whose name is the prefix filled up to 15 characters, and fails for a longer prefix.\<close>

theorem child_main_options:
  assumes "\<not> a_help args"
  shows "(a_target_port args \<noteq> None \<longrightarrow> child_main rnd args = Inr (Exits 1) \<and> Popen_check 1 = Inl (Thrown ''CalledProcessError''))
     \<and> (a_target_port args = None \<and> a_dry_run args \<longrightarrow> child_main rnd args = Inr (Exits 0))
     \<and> (a_target_port args = None \<and> \<not> a_dry_run args \<and> a_sock_fd args = Some n \<and> a_tun_prefix args = Some prefix \<longrightarrow>
          (if 15 < length prefix then child_main rnd args = Inl (Thrown ''length_error'')
           else \<exists>bind_addr name. child_main rnd args = Inr (Serves n (Terminate_here bind_addr) (Some name))
              \<and> length name = 15 \<and> take (length prefix) name = prefix))"
  using assms
  by (auto simp: child_main_def child_vm_def with_default_def child_setup_tun_def as_option_def tun_name_def Let_def Popen_check_def
      split: option.splits)

theorem child_main_options_witness:
  "child_main (\<lambda>_. 0) \<lparr>a_help = False, a_sock_fd = Some 3, a_target_port = Some 80, a_target_host = None, a_connect_bind = None,
     a_tun_prefix = None, a_dry_run = True\<rparr> = Inr (Exits 1)"
  by (rule child_main_options [THEN conjunct1, THEN mp, THEN conjunct1]) simp_all

lemma hex_digit_safe: "k < 16 \<Longrightarrow> hex_digits ! k \<noteq> 0"
proof -
  assume "k < 16"
  then have "hex_digits ! k \<in> set hex_digits" by (intro nth_mem) (simp add: hex_digits_def)
  then show ?thesis by (auto simp: hex_digits_def)
qed

lemma hex_decode_random:
  assumes "even (length rnd)" "\<forall>k \<in> set rnd. k < 16"
  shows "\<exists>i. hex_decode (random_hex_string rnd) = Inr i \<and> 2 * length i = length rnd"
proof -
  have "\<exists>i. hex_decode_pairs (random_hex_string rnd) = Inr i \<and> 2 * length i = length rnd"
    using assms
  proof (induction "length rnd" arbitrary: rnd rule: less_induct)
    case less
    show ?case
    proof (cases rnd)
      case (Cons a as)
      with less.prems(1) obtain b bs where r: "rnd = a # b # bs" by (cases as) auto
      with less.prems less.hyps [of bs] obtain i where "hex_decode_pairs (random_hex_string bs) = Inr i" "2 * length i = length bs" by auto
      with r less.prems(2) show ?thesis by (simp add: random_hex_string_def from_hex_digit_nth)
    qed (simp add: random_hex_string_def)
  qed
  with assms(1) show ?thesis by (simp add: hex_decode_def even_iff_mod_2_eq_zero)
qed

lemma c_str_clean: "0 \<notin> set p \<Longrightarrow> c_str p = p"
  by (auto simp: c_str_def takeWhile_eq_all_conv)

text \<open>C31: handing a link to the child process. The path of its socket fits into an address, the child reads the server's message back
  and takes the connection as a link of the multilink under the client's name, its answer is the one the server waits
  for, so that the server does not abort, and the client is sent the 16 bytes it reads. Only reading back what the JSON
  library writes is assumed.\<close>

theorem add_link_handshake:
  assumes "length rnd = 32" "\<forall>k \<in> set rnd. k < 16" "parse (dump (ascii ''add-link'', name)) = (ascii ''add-link'', name)"
    and "dump (ascii ''add-link'', name) \<noteq> []" "length (dump (ascii ''add-link'', name)) \<le> 1024 * 1024"
  shows "make_unix_address (handler_path (random_hex_string rnd)) = handler_path (random_hex_string rnd)
     \<and> (\<exists>msg reply i. RPC_read_message (add_link_message dump name @ rest) = Inr (Some (msg, rest))
          \<and> child_callback n (fst (parse msg)) (snd (parse msg)) c
              = c\<lparr>c_abandoned := c_abandoned c @ [n], c_written := c_written c @ [(n, reply)], c_links := c_links c @ [(n, name)]\<rparr>
          \<and> add_link_response reply = Inr () \<and> add_link_reply (random_hex_string rnd) = Inr i \<and> length i = 16)"
proof -
  let ?id = "random_hex_string rnd"
  have "0 \<notin> set ?id" using assms(2) hex_digit_safe by (force simp: random_hex_string_def)
  then have clean: "0 \<notin> set (handler_path ?id)" by (simp add: handler_path_def ascii_def)
  have path: "make_unix_address (handler_path ?id) = handler_path ?id"
    using assms(1) by (simp add: make_unix_address_def c_str_clean [OF clean]) (simp add: handler_path_def ascii_def)
  let ?msg = "dump (ascii ''add-link'', name)"
  have "length ?msg < 2 ^ 32" using assms(5) by simp
  then have "RPC_read_message (send_message ?msg @ rest) = Inr (Some (?msg, rest))"
    using RPC_message [of ?msg rest] assms(4,5) by simp
  moreover have "child_callback n (fst (parse ?msg)) (snd (parse ?msg)) c
      = c\<lparr>c_abandoned := c_abandoned c @ [n], c_written := c_written c @ [(n, [111, 107, 10])], c_links := c_links c @ [(n, name)]\<rparr>"
    unfolding assms(3) by (simp add: child_callback_def ascii_def)
  moreover have "add_link_response [111, 107, 10] = Inr ()" by (simp add: add_link_response_def ascii_def)
  moreover obtain i where "hex_decode ?id = Inr i" "2 * length i = length rnd" using hex_decode_random [of rnd] assms(1,2) by auto
  ultimately show ?thesis using path assms(1) by (auto simp: add_link_message_def add_link_reply_def)
qed

text \<open>A JSON library for strings without zero bytes, which separates the two fields by one.\<close>

definition example_dump :: "bytes \<times> bytes \<Rightarrow> bytes" where
  "example_dump m = fst m @ [0] @ snd m"

definition example_parse :: "bytes \<Rightarrow> bytes \<times> bytes" where
  "example_parse s = (c_str s, drop (length (c_str s) + 1) s)"

theorem add_link_handshake_witness:
  "\<exists>i. add_link_reply (random_hex_string (replicate 32 7)) = Inr i \<and> length i = 16"
proof -
  have "example_parse (example_dump (ascii ''add-link'', [49])) = (ascii ''add-link'', [49])"
    by (simp add: example_parse_def example_dump_def ascii_def c_str_def)
  with add_link_handshake [of "replicate 32 7" example_parse example_dump "[49]"] show ?thesis
    by (auto simp: example_dump_def ascii_def)
qed

text \<open>The bytes of an address in network order are the digits of its value in host order.\<close>

lemma octet_digit: "octet j w = unat w div 256 ^ j mod 256"
proof -
  have low: "x AND 0xFF = take_bit 8 x" for x :: u32 by (simp add: take_bit_eq_mask mask_eq_exp_minus_1)
  have "unat w < 2 ^ 32" using unat_less_2p [of w] by simp
  then have "unat (take_bit 8 (drop_bit (8 * j) w)) = take_bit 8 (drop_bit (8 * j) (unat w))"
    by (simp only: unsigned_take_bit_eq unsigned_drop_bit_eq) (simp add: take_bit_nat_eq_self)
  then show ?thesis by (simp only: octet_def low) (simp add: take_bit_eq_mod drop_bit_eq_div power_mult)
qed

lemma digits_4: "(n::nat) < 256 ^ 4 \<Longrightarrow>
  from_le (rev (to_le 4 n)) = n div 256 ^ 3 + 256 * (n div 256 ^ 2 mod 256 + 256 * (n div 256 mod 256 + 256 * (n mod 256)))"
  by (simp add: to_le_numeral unat_of_nat div_mult2_eq [symmetric])

lemma base_256:
  assumes "(a::nat) < 256" "b < 256" "c < 256" "d < 256" "v = a + 256 * (b + 256 * (c + 256 * d))"
  shows "v div 256 ^ 0 mod 256 = a" "v div 256 ^ 1 mod 256 = b" "v div 256 ^ 2 mod 256 = c" "v div 256 ^ 3 mod 256 = d"
proof -
  have digit: "(x + 256 * r) mod 256 = x" "(x + 256 * r) div 256 = r" if "x < 256" for x r :: nat using that by simp_all
  have d: "v div 256 ^ 0 = v" "v div 256 ^ 1 = v div 256" "v div 256 ^ 2 = v div 256 div 256" "v div 256 ^ 3 = v div 256 div 256 div 256"
    by (simp_all add: div_mult2_eq [symmetric])
  have r1: "v div 256 = b + 256 * (c + 256 * d)" unfolding assms(5) by (rule digit(2) [OF assms(1)])
  have r2: "v div 256 div 256 = c + 256 * d" unfolding r1 by (rule digit(2) [OF assms(2)])
  have r3: "v div 256 div 256 div 256 = d" unfolding r2 by (rule digit(2) [OF assms(3)])
  show "v div 256 ^ 0 mod 256 = a" unfolding d(1) unfolding assms(5) by (rule digit(1) [OF assms(1)])
  show "v div 256 ^ 1 mod 256 = b" unfolding d r1 by (rule digit(1) [OF assms(2)])
  show "v div 256 ^ 2 mod 256 = c" unfolding d r2 by (rule digit(1) [OF assms(3)])
  show "v div 256 ^ 3 mod 256 = d" unfolding d r3 using assms(4) by simp
qed

lemma octet_htonl:
  "octet 0 (htonl k) = unat k div 256 ^ 3" "octet 1 (htonl k) = unat k div 256 ^ 2 mod 256"
  "octet 2 (htonl k) = unat k div 256 mod 256" "octet 3 (htonl k) = unat k mod 256"
proof -
  have n: "unat k < 256 ^ 4" using unat_less_2p [of k] by simp
  then have top: "unat k div 256 ^ 3 < 256" by (simp add: less_mult_imp_div_less)
  have "unat (htonl k) = from_le (rev (to_le 4 (unat k)))"
    using from_le_bound [of "rev (to_le 4 (unat k))"] by (simp add: htonl_def get_u32_def put_u32_def unat_of_nat)
  also note digits_4 [OF n]
  finally have v: "unat (htonl k) = unat k div 256 ^ 3 + 256 * (unat k div 256 ^ 2 mod 256 + 256 * (unat k div 256 mod 256 + 256 * (unat k mod 256)))" .
  have lt: "x mod 256 < 256" for x :: nat by simp
  from base_256 [OF top lt lt lt v]
  show "octet 0 (htonl k) = unat k div 256 ^ 3" "octet 1 (htonl k) = unat k div 256 ^ 2 mod 256"
    "octet 2 (htonl k) = unat k div 256 mod 256" "octet 3 (htonl k) = unat k mod 256"
    by (simp_all only: octet_digit)
qed

text \<open>The address of the server's device is a private one: whatever number is drawn between the bounds 10.128.0.1 and
  10.255.255.255, the address is written as 10, a number from 128 to 255, and two more bytes.\<close>

theorem tun_address_private:
  assumes "10 * 2 ^ 24 + 128 * 2 ^ 16 + 1 \<le> unat k" "unat k \<le> 10 * 2 ^ 24 + 255 * 2 ^ 16 + 255 * 2 ^ 8 + 255"
  shows "\<exists>b c d. tun_address k = Inr (decimal 10 @ [46] @ decimal b @ [46] @ decimal c @ [46] @ decimal d)
     \<and> 128 \<le> b \<and> b < 256 \<and> c < 256 \<and> d < 256 \<and> unat k = 10 * 2 ^ 24 + b * 2 ^ 16 + c * 2 ^ 8 + d"
proof -
  let ?n = "unat k"
  have d2: "?n div 256 ^ 2 = ?n div 256 div 256" "?n div 256 ^ 3 = ?n div 256 div 256 div 256" by (simp_all add: div_mult2_eq [symmetric])
  have digit: "x = 256 * (x div 256) + x mod 256" "x mod 256 < 256" for x :: nat by simp_all
  have p: "10 * 2 ^ 24 = (167772160 :: nat)" "(2 :: nat) ^ 16 = 65536" "(2 :: nat) ^ 8 = 256" by simp_all
  have bounds: "176160769 \<le> ?n" "?n \<le> 184549375" using assms by simp_all
  note digits = digit [of ?n] digit [of "?n div 256"] digit [of "?n div 256 div 256"]
  have ten: "?n div 256 ^ 3 = 10" unfolding d2 using bounds digits by linarith
  have b: "128 \<le> ?n div 256 ^ 2 mod 256" unfolding d2 using bounds digits ten [unfolded d2] by linarith
  have split: "?n = 10 * 2 ^ 24 + (?n div 256 ^ 2 mod 256) * 2 ^ 16 + (?n div 256 mod 256) * 2 ^ 8 + ?n mod 256"
    unfolding d2 p using digits ten [unfolded d2] by linarith
  have "tun_address k = Inr (decimal 10 @ [46] @ decimal (?n div 256 ^ 2 mod 256) @ [46] @ decimal (?n div 256 mod 256) @ [46] @ decimal (?n mod 256))"
    by (simp only: tun_address_def IpAddress_to_string_def IpAddress_make4_def octet_htonl ten IpAddress.simps ip_type.case)
  with b split digits show ?thesis by (meson digit(2))
qed

theorem tun_address_private_witness: "\<exists>b. 128 \<le> b \<and> b < 256 \<and> (\<exists>r. tun_address 0x0AC80203 = Inr (decimal 10 @ [46] @ decimal b @ r))"
  using tun_address_private [of "0x0AC80203"] by fastforce

text \<open>A packet of the client's size fits into the multilink with its header. The server gives its transport the size of the multilink's
  packets without leaving room for the header: a connection accepted from the server's device that has that many bytes
  waiting makes the assertion of the multilink fail.\<close>

lemma client_packets_fit:
  assumes "length d \<le> CLIENT_TRANSPORT_MTU" "Multilink_is_send_ready m"
  shows "returns (psend (Multilink_ops env) m (transport_packet chan seq d))"
proof -
  have "length (transport_packet chan seq d) \<le> MULTILINK_MTU"
    using assms(1) by (simp add: CLIENT_TRANSPORT_MTU_def TRANSPORT_HEADER_SIZE_def MULTILINK_MTU_def LINK_MTU_def HEADER_SIZE_def)
  with assms(2) show ?thesis
    by (simp add: Multilink_ops_def AbstractPacketStream_send_def Multilink_send_with_offset_def Multilink_is_send_ready_def Let_def)
qed

theorem server_packets_too_long:
  assumes "ctarget (objects tr k) = Some h" "header_recved h" "recv_mtu (rnew h) = SERVER_TRANSPORT_MTU"
    and "sread ops (stream (rnew h)) SERVER_TRANSPORT_MTU = Inr (d, s)" "MULTILINK_MTU < length d + TRANSPORT_HEADER_SIZE"
  shows "Transport_target_recv_ready_once (Multilink_ops env) (ReadHeaderPacketStream_ops (FreePacketStream_ops ops)) k tr
     = Inl Assert_failed"
proof -
  have "d \<noteq> []" using assms(5) by (auto simp: TRANSPORT_HEADER_SIZE_def MULTILINK_MTU_def LINK_MTU_def HEADER_SIZE_def)
  with assms have r: "precv (ReadHeaderPacketStream_ops (FreePacketStream_ops ops)) h = Inr (Some d, h\<lparr>rnew := (rnew h)\<lparr>stream := s\<rparr>\<rparr>)"
    by (simp add: ReadHeaderPacketStream_ops_def ReadHeaderPacketStream_recv_def FreePacketStream_ops_def FreePacketStream_recv_def)
  have "psend (Multilink_ops env) m (transport_packet chan seq d) = Inl Assert_failed" for m chan seq
    using assms(5) by (simp add: Multilink_ops_def AbstractPacketStream_send_def Multilink_send_with_offset_def TRANSPORT_HEADER_SIZE_def)
  with assms(1) r show ?thesis by (simp add: Transport_target_recv_ready_once_def Let_def)
qed

end
