(* ===== verification/Spawn.thy ===== *)
theory Spawn
  imports Mains Process
begin

text \<open>
  The start of a child process by the server (\<^verbatim>\<open>ProcessHandler\<close> in \<^verbatim>\<open>app/server.cpp\<close>): the socket bound for it, the descriptors it
  inherits through \<^verbatim>\<open>libreactor/process.cpp\<close>, and what the server knows of its end; the server's table of children and
  the connections of clients, with everything that fails on the way.

  The socket's number \<open>s\<close> and file \<open>x\<close> are those the kernel gives; the 32 random digits are a list of numbers below 16.
\<close>

definition ProcessHandler_create :: "nat list \<Rightarrow> (unix_call \<Rightarrow> int option) \<Rightarrow> bytes list \<Rightarrow> nat \<Rightarrow> 'x \<Rightarrow> 'x descriptors \<Rightarrow>
    (popen \<times> (int \<Rightarrow> 'x open_file option) \<times> 'x descriptors) result" where
  "ProcessHandler_create digits errs child_options s x T =
     (let path = handler_path (random_hex_string digits) in
      bindR (snd (UnixSocket_bind errs path)) (\<lambda>_.
        let U = set_close_on_exec (int s) False (T(int s \<mapsto> (Existing x, True)));
            options = Popen_args (child_command child_options s) Popen_init
        in bindR (Process_create options [] U) (\<lambda>(out, child, V). Inr (options, child, V(int s := None)))))"

lemma Popen_args_law:
  "arguments (Popen_args ss p) = arguments p @ ss" "target_fds (Popen_args ss p) = target_fds p"
  unfolding Popen_args_def by (induction ss arbitrary: p) (simp_all add: Popen_arg_def)

text \<open>Without pipes a child has what its parent has and does not close on exec.\<close>

lemma Process_create_plain:
  assumes "target_fds p = [0, 1, 2]"
  shows "Process_create p [] T = Inr ([None, None, None], after_exec T, T)"
proof -
  have "start_process [0, 1, 2] T d = after_exec T d" for d
    by (subst start_process_law) (auto simp: below_three nth_Cons')
  then have "start_process [0, 1, 2] T = after_exec T" ..
  moreover have "[0..<3] = [0, 1, 2 :: nat]" by (simp add: upt_rec)
  ultimately show ?thesis by (simp add: Process_create_def assms)
qed

section \<open>The server's table of child processes\<close>

text \<open>
  \<open>multilinks\<close> maps the identifier of a client to the pointer to its handler, given by the handler's instance identifier; a null
  pointer is \<open>None\<close>. \<open>drawn\<close> counts the random identifiers drawn, and \<open>started\<close> lists the children started.
\<close>

record server =
  multilinks :: "bytes \<rightharpoonup> bytes option"
  drawn :: nat
  started :: "bytes list"

definition server_start :: server where
  "server_start = \<lparr>multilinks = Map.empty, drawn = 0, started = []\<rparr>"

text \<open>
  \<open>get_or_create\<close>: \<open>multilinks[id]\<close> makes an entry with a null pointer. The constructor of the handler draws a random identifier, here
  the next of a given sequence, and throws if its socket cannot be bound; the null pointer then stays in the table.
\<close>

definition Server_get_or_create :: "(nat \<Rightarrow> bytes) \<Rightarrow> (unix_call \<Rightarrow> int option) \<Rightarrow> bytes \<Rightarrow> server \<Rightarrow> bytes result \<times> server" where
  "Server_get_or_create rnd errs multilink_id s = (case multilinks s multilink_id of
       Some (Some inst) \<Rightarrow> (Inr inst, s)
     | _ \<Rightarrow> let inst = rnd (drawn s);
               s1 = s\<lparr>multilinks := (multilinks s)(multilink_id \<mapsto> None), drawn := drawn s + 1\<rparr>
           in case snd (UnixSocket_bind errs (handler_path inst)) of
                Inl e \<Rightarrow> (Inl e, s1)
              | Inr _ \<Rightarrow> (Inr inst,
                  s1\<lparr>multilinks := (multilinks s1)(multilink_id \<mapsto> Some inst), started := started s1 @ [inst]\<rparr>))"

definition Server_on_close :: "bytes \<Rightarrow> server \<Rightarrow> server" where
  "Server_on_close multilink_id s = s\<lparr>multilinks := (multilinks s)(multilink_id := None)\<rparr>"

text \<open>Binding the socket is the only step of the constructor that fails.\<close>

lemma ProcessHandler_create_fails:
  "ProcessHandler_create digits errs child_options s x T = Inl e
     \<longleftrightarrow> snd (UnixSocket_bind errs (handler_path (random_hex_string digits))) = Inl e"
proof -
  have "target_fds (Popen_args ss Popen_init) = [0, 1, 2]" for ss by (simp add: Popen_args_law Popen_init_def)
  then have "\<exists>r. Process_create (Popen_args ss Popen_init) [] V = Inr r" for ss and V :: "'a descriptors"
    using Process_create_plain by blast
  then obtain out child V where
    "Process_create (Popen_args (child_command child_options s) Popen_init) [] (set_close_on_exec (int s) False (T(int s \<mapsto> (Existing x, True))))
       = Inr (out, child, V)" by (metis prod_cases3)
  then show ?thesis
    by (cases "snd (UnixSocket_bind errs (handler_path (random_hex_string digits)))") (simp_all add: ProcessHandler_create_def Let_def)
qed

section \<open>Incoming connections\<close>

text \<open>
  A connection: its welcome, the calls of the system that fail while a socket is bound for it, and the addresses to which connecting fails.
  \<open>Server_incoming\<close> is what \<open>Server::run\<close> does with the welcome up to the pipe: the instance whose child is to take the link, and
  the message sent there. \<open>rnd\<close> yields the identifiers of new instances.
\<close>

type_synonym connection = "bytes \<times> (unix_call \<Rightarrow> int option) \<times> (bytes \<Rightarrow> int option)"

definition Server_incoming :: "(nat \<Rightarrow> bytes) \<Rightarrow> (bytes \<times> bytes \<Rightarrow> bytes) \<Rightarrow> connection \<Rightarrow> server \<Rightarrow> (bytes \<times> bytes) result \<times> server" where
  "Server_incoming rnd dump c srv = (case server_welcome (fst c) of
       Inl e \<Rightarrow> (Inl e, srv)
     | Inr (multilink_id, link_name) \<Rightarrow>
         (let (r, srv') = Server_get_or_create rnd (fst (snd c)) multilink_id srv
          in (bindR r (\<lambda>inst. bindR (UnixSocket_connect (snd (snd c)) (handler_path inst)) (\<lambda>_.
                Inr (inst, add_link_message dump link_name))), srv')))"

text \<open>
  Connections in a row: the links passed on, and what ended the server. An exception leaves the continuation, the reactor and \<open>main\<close>, so
  the connections after it are not served.
\<close>

fun Server_connections :: "(nat \<Rightarrow> bytes) \<Rightarrow> (bytes \<times> bytes \<Rightarrow> bytes) \<Rightarrow> connection list \<Rightarrow> server \<Rightarrow>
    (bytes \<times> bytes) list \<times> failure option \<times> server" where
  "Server_connections rnd dump [] srv = ([], None, srv)"
| "Server_connections rnd dump (c # cs) srv = (case Server_incoming rnd dump c srv of
       (Inl e, srv') \<Rightarrow> ([], Some e, srv')
     | (Inr m, srv') \<Rightarrow> (let (out, r, s) = Server_connections rnd dump cs srv' in (m # out, r, s)))"

text \<open>The child of a client, and the client a connection is from.\<close>

definition child_of :: "server \<Rightarrow> bytes \<Rightarrow> bytes option" where
  "child_of srv client = (case multilinks srv client of Some (Some inst) \<Rightarrow> Some inst | _ \<Rightarrow> None)"

definition client_of :: "connection \<Rightarrow> bytes" where
  "client_of c = (case server_welcome (fst c) of Inl _ \<Rightarrow> [] | Inr (client, _) \<Rightarrow> client)"

text \<open>Why a connection ends the server: its welcome is unreadable, the socket for a new child cannot be bound, or the child cannot be connected to.\<close>

definition connection_fails :: "(nat \<Rightarrow> bytes) \<Rightarrow> server \<Rightarrow> connection \<Rightarrow> failure \<Rightarrow> bool" where
  "connection_fails rnd srv c e \<longleftrightarrow> server_welcome (fst c) = Inl e
     \<or> (child_of srv (client_of c) = None \<and> snd (UnixSocket_bind (fst (snd c)) (handler_path (rnd (drawn srv)))) = Inl e)
     \<or> (\<exists>inst \<in> case child_of srv (client_of c) of None \<Rightarrow> {rnd (drawn srv)} | Some inst \<Rightarrow> {inst}.
          UnixSocket_connect (snd (snd c)) (handler_path inst) = Inl e)"

text \<open>The table: every child started belongs to one client, and was given an identifier drawn before.\<close>

definition table_ok :: "(nat \<Rightarrow> bytes) \<Rightarrow> server \<Rightarrow> bool" where
  "table_ok rnd srv \<longleftrightarrow> ran (child_of srv) = set (started srv) \<and> inj_on (child_of srv) (dom (child_of srv))
     \<and> set (started srv) \<subseteq> rnd ` {..<drawn srv}
     \<and> finite (dom (child_of srv)) \<and> length (started srv) = card (dom (child_of srv))"

lemma child_of_start: "child_of server_start = Map.empty"
  by (rule ext) (simp add: child_of_def server_start_def)

lemma table_ok_start: "table_ok rnd server_start"
  by (simp add: table_ok_def child_of_start) (simp add: server_start_def)

lemma get_or_create_law:
  assumes "inj_on rnd {..drawn srv}" "table_ok rnd srv" "Server_get_or_create rnd errs client srv = (r, srv')"
  shows "table_ok rnd srv' \<and> child_of srv \<subseteq>\<^sub>m child_of srv' \<and> (case r of
      Inl e \<Rightarrow> child_of srv client = None \<and> snd (UnixSocket_bind errs (handler_path (rnd (drawn srv)))) = Inl e
    | Inr inst \<Rightarrow> child_of srv' client = Some inst \<and> dom (child_of srv') = insert client (dom (child_of srv))
        \<and> inst = (case child_of srv client of None \<Rightarrow> rnd (drawn srv) | Some i \<Rightarrow> i))"
proof (cases "child_of srv client")
  case (Some x)
  then have "multilinks srv client = Some (Some x)" by (auto simp: child_of_def split: option.splits)
  with assms Some show ?thesis by (auto simp: Server_get_or_create_def)
next
  case None
  then have none: "multilinks srv client = None \<or> multilinks srv client = Some None"
    by (auto simp: child_of_def split: option.splits)
  let ?n = "rnd (drawn srv)"
  let ?b = "snd (UnixSocket_bind errs (handler_path ?n))"
  show ?thesis
  proof (cases ?b)
    case (Inl e)
    with none assms(3) have s: "r = Inl e" "srv' = srv\<lparr>multilinks := (multilinks srv)(client \<mapsto> None), drawn := drawn srv + 1\<rparr>"
      by (auto simp: Server_get_or_create_def Let_def)
    have c: "child_of srv' = child_of srv" using none by (auto simp: child_of_def s(2) intro!: ext)
    have "{..<drawn srv} \<subseteq> {..<drawn srv + 1}" by auto
    then have "rnd ` {..<drawn srv} \<subseteq> rnd ` {..<drawn srv + 1}" by (rule image_mono)
    then show ?thesis using assms(2) None Inl unfolding table_ok_def c by (auto simp: s)
  next
    case (Inr u)
    with none assms(3) have s: "r = Inr ?n" "srv' = srv\<lparr>multilinks := (multilinks srv)(client \<mapsto> Some ?n), drawn := drawn srv + 1,
        started := started srv @ [?n]\<rparr>"
      by (auto simp: Server_get_or_create_def Let_def)
    have c: "child_of srv' = (child_of srv)(client \<mapsto> ?n)" by (auto simp: child_of_def s(2) intro!: ext)
    have "?n \<notin> rnd ` {..<drawn srv}" by (auto dest: inj_onD [OF assms(1)])
    with assms(2) have new: "?n \<notin> ran (child_of srv)" by (auto simp: table_ok_def)
    have "inj_on (child_of srv') (insert client (dom (child_of srv)))"
      using assms(2) new None unfolding inj_on_def table_ok_def c by (auto simp: ran_def domIff)
    moreover have "ran (child_of srv') = insert ?n (ran (child_of srv))" using None by (simp add: c ran_map_upd)
    moreover have "rnd ` {..<drawn srv + 1} = insert ?n (rnd ` {..<drawn srv})" by (simp add: lessThan_Suc)
    moreover have "client \<notin> dom (child_of srv)" using None by auto
    moreover have "dom (child_of srv') = insert client (dom (child_of srv))" unfolding c by simp
    moreover have "started srv' = started srv @ [?n]" "drawn srv' = drawn srv + 1" by (simp_all add: s(2))
    ultimately have "table_ok rnd srv'" using assms(2) unfolding table_ok_def by auto
    then show ?thesis using None by (auto simp: s(1) c map_le_def)
  qed
qed

text \<open>One connection.\<close>

lemma incoming_law:
  assumes "inj_on rnd {..drawn srv}" "table_ok rnd srv" "Server_incoming rnd dump c srv = (r, srv')"
  shows "table_ok rnd srv' \<and> child_of srv \<subseteq>\<^sub>m child_of srv' \<and> (case r of
      Inl e \<Rightarrow> connection_fails rnd srv c e
    | Inr (inst, msg) \<Rightarrow> child_of srv' (client_of c) = Some inst \<and> dom (child_of srv') = insert (client_of c) (dom (child_of srv))
        \<and> (\<exists>name. server_welcome (fst c) = Inr (client_of c, name) \<and> msg = add_link_message dump name))"
proof (cases "server_welcome (fst c)")
  case (Inl e)
  with assms(3) have "r = Inl e" "srv' = srv" by (simp_all add: Server_incoming_def)
  with assms(2) Inl show ?thesis by (simp add: connection_fails_def)
next
  case (Inr w)
  obtain client name where w: "server_welcome (fst c) = Inr (client, name)" using Inr by (cases w) simp
  then have cl: "client_of c = client" by (simp add: client_of_def)
  obtain g s where g: "Server_get_or_create rnd (fst (snd c)) client srv = (g, s)" by fastforce
  note law = get_or_create_law [OF assms(1,2) g]
  from assms(3) w g have s: "srv' = s" and r: "r = bindR g (\<lambda>inst. bindR (UnixSocket_connect (snd (snd c)) (handler_path inst)) (\<lambda>_.
                Inr (inst, add_link_message dump name)))"
    by (auto simp: Server_incoming_def)
  show ?thesis
  proof (cases g)
    case (Inl e)
    with law r s cl show ?thesis by (auto simp: connection_fails_def)
  next
    case (Inr inst)
    show ?thesis
    proof (cases "UnixSocket_connect (snd (snd c)) (handler_path inst)")
      case (Inl e)
      with law r s cl Inr show ?thesis by (auto simp: connection_fails_def split: option.splits)
    next
      case (Inr u)
      with law r s cl w \<open>g = Inr inst\<close> show ?thesis by auto
    qed
  qed
qed

lemma incoming_draws: "drawn (snd (Server_incoming rnd dump c srv)) \<le> drawn srv + 1"
  by (auto simp: Server_incoming_def Server_get_or_create_def Let_def split: sum.splits option.splits prod.splits)

text \<open>All of them: those before the first failure are passed on to the children of their clients.\<close>

lemma connections_law:
  "inj_on rnd {..<drawn srv + length cs} \<Longrightarrow> table_ok rnd srv \<Longrightarrow> Server_connections rnd dump cs srv = (out, r, srv') \<Longrightarrow>
     table_ok rnd srv' \<and> child_of srv \<subseteq>\<^sub>m child_of srv' \<and> length out \<le> length cs
     \<and> (\<forall>i < length out. child_of srv' (client_of (cs ! i)) = Some (fst (out ! i))
          \<and> (\<exists>name. server_welcome (fst (cs ! i)) = Inr (client_of (cs ! i), name) \<and> snd (out ! i) = add_link_message dump name))
     \<and> (case r of
          None \<Rightarrow> length out = length cs \<and> dom (child_of srv') = client_of ` set cs \<union> dom (child_of srv)
        | Some e \<Rightarrow> length out < length cs \<and> (\<exists>s. Server_connections rnd dump (take (length out) cs) srv = (out, None, s)
             \<and> connection_fails rnd s (cs ! length out) e))"
proof (induction cs arbitrary: srv out r srv')
  case (Cons c cs)
  obtain q n where q: "Server_incoming rnd dump c srv = (q, n)" by fastforce
  have fresh: "inj_on rnd {..drawn srv}" by (rule inj_on_subset [OF Cons.prems(1)]) auto
  note L = incoming_law [OF fresh Cons.prems(2) q]
  show ?case
  proof (cases q)
    case (Inl e)
    with Cons.prems(3) q L show ?thesis by auto
  next
    case (Inr m)
    obtain o1 r1 s1 where o1: "Server_connections rnd dump cs n = (o1, r1, s1)" by (metis prod_cases3)
    with Cons.prems(3) q Inr have eq: "out = m # o1" "r = r1" "srv' = s1" by auto
    have fresh': "inj_on rnd {..<drawn n + length cs}"
      using incoming_draws [of rnd dump c srv] by (intro inj_on_subset [OF Cons.prems(1)]) (auto simp: q)
    from L have "table_ok rnd n" by simp
    note IH = Cons.IH [OF fresh' this o1]
    obtain inst msg where m: "m = (inst, msg)" by (cases m)
    have le: "child_of srv \<subseteq>\<^sub>m child_of s1" using L IH map_le_trans by blast
    have "child_of s1 (client_of c) = Some inst" using L IH Inr m by (auto simp: map_le_def)
    then have at: "child_of s1 (client_of ((c # cs) ! i)) = Some (fst (out ! i))
          \<and> (\<exists>name. server_welcome (fst ((c # cs) ! i)) = Inr (client_of ((c # cs) ! i), name) \<and> snd (out ! i) = add_link_message dump name)"
      if "i < length out" for i
      using that L IH Inr by (cases i) (auto simp: eq m)
    show ?thesis
    proof (cases r1)
      case None
      with L IH le at Inr show ?thesis by (auto simp: eq m)
    next
      case (Some e)
      with IH obtain s where s: "Server_connections rnd dump (take (length o1) cs) n = (o1, None, s)"
        "connection_fails rnd s (cs ! length o1) e" "length o1 < length cs" by auto
      then have "Server_connections rnd dump (take (length out) (c # cs)) srv = (out, None, s)" using q Inr by (simp add: eq)
      with s IH le at Some show ?thesis by (auto simp: eq)
    qed
  qed
qed simp

section \<open>Properties\<close>

text \<open>C32: the server hands its child one socket and keeps none. When the socket is bound and listening, the child is started with the
  socket's number among its options and finds the socket open under this number, so that a child that serves serves this socket;
  of the server's other descriptors it has only those not closed on exec, which no stream of the reactor is. The server is left with the
  descriptors it had before.\<close>

theorem ProcessHandler_hands_over_socket:
  assumes "T (int s) = None" "snd (UnixSocket_bind errs (handler_path (random_hex_string digits))) = Inr ()"
  shows "\<exists>options child. ProcessHandler_create digits errs child_options s x T = Inr (options, child, T)
     \<and> arguments options = [CHILD_PATH, ascii ''--sock-fd'', to_string s] @ child_options
     \<and> (\<forall>args rnd n target name. a_sock_fd args = Some (int s) \<and> child_main rnd args = Inr (Serves n target name) \<longrightarrow>
          child n = Some (Existing x))
     \<and> (\<forall>d. d \<noteq> int s \<longrightarrow> child d = (case T d of Some (f, False) \<Rightarrow> Some f | _ \<Rightarrow> None))"
proof -
  define U where "U = set_close_on_exec (int s) False (T(int s \<mapsto> (Existing x, True)))"
  define options where "options = Popen_args (child_command child_options s) Popen_init"
  have U: "U = T(int s \<mapsto> (Existing x, False))" by (simp add: U_def set_close_on_exec_def)
  have "target_fds options = [0, 1, 2]" by (simp add: options_def Popen_args_law Popen_init_def)
  from Process_create_plain [OF this, of U] have
    "ProcessHandler_create digits errs child_options s x T = Inr (options, after_exec U, U(int s := None))"
    using assms(2) by (simp add: ProcessHandler_create_def U_def options_def Let_def)
  moreover have "U(int s := None) = T" using assms(1) by (auto simp: U)
  moreover have "arguments options = [CHILD_PATH, ascii ''--sock-fd'', to_string s] @ child_options"
    by (simp add: options_def Popen_args_law Popen_init_def child_command_def)
  moreover have "after_exec U n = Some (Existing x)"
    if "a_sock_fd args = Some (int s)" "child_main rnd args = Inr (Serves n target name)" for args rnd n target name
  proof -
    have "n = int s" using that
      by (auto simp: child_main_def child_vm_def as_option_def Let_def result_simps split: if_splits option.splits)
    then show ?thesis by (simp add: U after_exec_def)
  qed
  moreover have "after_exec U d = (case T d of Some (f, False) \<Rightarrow> Some f | _ \<Rightarrow> None)" if "d \<noteq> int s" for d
    using that by (simp add: U after_exec_def)
  ultimately show ?thesis by auto
qed

text \<open>A server with standard descriptors, a connection of a client under 5 and the new socket under 7.\<close>

definition example_descriptors :: "nat descriptors" where
  "example_descriptors = [0 \<mapsto> (Existing 10, False), 1 \<mapsto> (Existing 11, False), 2 \<mapsto> (Existing 12, False), 5 \<mapsto> (Existing 13, True)]"

theorem ProcessHandler_hands_over_socket_witness:
  "\<exists>options child. ProcessHandler_create (replicate 32 0) (\<lambda>_. None) [] 7 42 example_descriptors = Inr (options, child, example_descriptors)
     \<and> child 7 = Some (Existing 42) \<and> child 1 = Some (Existing 11) \<and> child 5 = None"
proof -
  have bound: "snd (UnixSocket_bind (\<lambda>_. None) (handler_path (random_hex_string (replicate 32 0)))) = Inr ()"
    by (simp add: UnixSocket_bind_def Let_def)
  let ?args = "\<lparr>a_help = False, a_sock_fd = Some 7, a_target_port = None, a_target_host = None, a_connect_bind = None,
    a_tun_prefix = None, a_dry_run = False\<rparr>"
  have serves: "\<exists>t m. child_main (\<lambda>_. 0) ?args = Inr (Serves 7 t m)"
    by (simp add: child_main_def child_vm_def with_default_def child_setup_tun_def as_option_def tun_name_def ascii_def Let_def)
  have "example_descriptors (int 7) = None" by (simp add: example_descriptors_def)
  from ProcessHandler_hands_over_socket [where T = example_descriptors and s = 7 and errs = "\<lambda>_. None", OF this bound, of "[]" 42] obtain options child where
    c: "ProcessHandler_create (replicate 32 0) (\<lambda>_. None) [] 7 42 example_descriptors = Inr (options, child, example_descriptors)"
      "\<And>args rnd n target name. a_sock_fd args = Some (int 7) \<Longrightarrow> child_main rnd args = Inr (Serves n target name) \<Longrightarrow>
         child n = Some (Existing 42)"
      "\<And>d. d \<noteq> int 7 \<Longrightarrow> child d = (case example_descriptors d of Some (f, False) \<Rightarrow> Some f | _ \<Rightarrow> None)" by blast
  from serves c(2) [of ?args "\<lambda>_. 0" 7] have "child 7 = Some (Existing 42)" by auto
  moreover have "child 1 = Some (Existing 11)" "child 5 = None" using c(3) [of 1] c(3) [of 5] by (simp_all add: example_descriptors_def)
  ultimately show ?thesis using c(1) by blast
qed

text \<open>The server never learns that a child has ended: nothing waits for the process, its end calls nothing, the entry for the client
  stays, and the next link of this client is sent to the old path, where connecting throws.\<close>

theorem Server_keeps_dead_child:
  assumes "multilinks srv client = Some (Some inst)" "errs (make_unix_address (handler_path inst)) = Some e"
  shows "pcalls (reap p status (Popen_exec p t)) = pcalls t"
    and "Server_get_or_create rnd berrs client srv = (Inr inst, srv)"
    and "UnixSocket_connect errs (handler_path inst) = Inl (Thrown ''connect'')"
  using assms by (simp_all add: reap_def Popen_exec_def Server_get_or_create_def UnixSocket_connect_def errno_check_def)

text \<open>C33: every client has one child and every child one client. Over any sequence of connections, whatever welcomes they bring and
  whatever binding and connecting fails, and as long as no random identifier is drawn twice: the links passed on are those of the connections
  before the first failure, each with its name to the child of its client, and two of them reach the same child exactly if they carry the
  same client identifier. If nothing failed, exactly one child has been started for every client; otherwise the first connection
  not served is one whose welcome is unreadable, for whose new child no socket can be bound, or whose child (a dead one, say) cannot be connected to.\<close>

theorem Server_one_child_per_client:
  assumes "inj_on rnd {..<length cs}" "Server_connections rnd dump cs server_start = (out, r, srv)"
  shows "(\<forall>i < length out. \<exists>name. server_welcome (fst (cs ! i)) = Inr (client_of (cs ! i), name) \<and> snd (out ! i) = add_link_message dump name)
     \<and> (\<forall>i < length out. \<forall>j < length out. fst (out ! i) = fst (out ! j) \<longleftrightarrow> client_of (cs ! i) = client_of (cs ! j))
     \<and> (case r of
          None \<Rightarrow> length out = length cs \<and> set (started srv) = fst ` set out \<and> length (started srv) = card (client_of ` set cs)
        | Some e \<Rightarrow> length out < length cs \<and> (\<exists>s. Server_connections rnd dump (take (length out) cs) server_start = (out, None, s)
             \<and> connection_fails rnd s (cs ! length out) e))"
proof -
  have "inj_on rnd {..<drawn server_start + length cs}" using assms(1) by (simp add: server_start_def)
  note L = connections_law [OF this table_ok_start assms(2)]
  have at: "child_of srv (client_of (cs ! i)) = Some (fst (out ! i))" if "i < length out" for i using L that by blast
  have inj: "inj_on (child_of srv) (dom (child_of srv))" using L by (simp add: table_ok_def)
  have same: "fst (out ! i) = fst (out ! j) \<longleftrightarrow> client_of (cs ! i) = client_of (cs ! j)" if "i < length out" "j < length out" for i j
    using at [OF that(1)] at [OF that(2)] inj by (metis domI inj_on_eq_iff option.inject)
  have "set (started srv) = fst ` set out \<and> length (started srv) = card (client_of ` set cs)" if "r = None"
  proof -
    have n: "length out = length cs" "dom (child_of srv) = client_of ` set cs"
      using L that by (simp_all add: child_of_start)
    have "x \<in> ran (child_of srv) \<longleftrightarrow> x \<in> fst ` set out" for x
    proof
      assume "x \<in> ran (child_of srv)"
      then obtain cl where "child_of srv cl = Some x" by (auto simp: ran_def)
      moreover from this have "cl \<in> client_of ` set cs" using n(2) by blast
      ultimately obtain i where "i < length cs" "client_of (cs ! i) = cl" by (auto simp: in_set_conv_nth)
      with at [of i] n(1) \<open>child_of srv cl = Some x\<close> show "x \<in> fst ` set out" by (metis image_eqI nth_mem option.inject)
    next
      assume "x \<in> fst ` set out"
      then obtain i where "i < length out" "fst (out ! i) = x" by (auto simp: in_set_conv_nth)
      with at [of i] show "x \<in> ran (child_of srv)" by (auto simp: ran_def)
    qed
    then have "ran (child_of srv) = fst ` set out" by blast
    moreover have "table_ok rnd srv" using L by blast
    ultimately show ?thesis using n(2) by (simp add: table_ok_def)
  qed
  with L same show ?thesis by (auto split: option.splits)
qed

definition example_connection :: "u8 \<Rightarrow> u8 \<Rightarrow> connection" where
  "example_connection a b = (replicate 16 a @ b # replicate 111 0, \<lambda>_. None, \<lambda>_. None)"

lemma example_welcome: "b \<noteq> 0 \<Longrightarrow> server_welcome (fst (example_connection a b)) = Inr (replicate 16 a, [b])"
proof -
  have "strip_zeros (b # replicate n 0) = Inr [b]" if "b \<noteq> 0" for n
    using that by (induction n) (simp_all add: strip_zeros.simps [of "[b]"] strip_zeros_snoc flip: replicate_append_same append_Cons)
  then show "b \<noteq> 0 \<Longrightarrow> server_welcome (fst (example_connection a b)) = Inr (replicate 16 a, [b])"
    by (simp add: example_connection_def server_welcome_def slice_bytes_def)
qed

text \<open>Clients 1, 2 and 1 connect; then the child of client 2 is dead, and the server ends.\<close>

theorem Server_one_child_per_client_witness:
  "\<exists>out srv. Server_connections (\<lambda>n. replicate n 65) snd
       [example_connection 1 7, example_connection 2 8, example_connection 1 9, (fst (example_connection 2 7), \<lambda>_. None, \<lambda>_. Some 111), example_connection 1 7]
       server_start = (out, Some (Thrown ''connect''), srv)
     \<and> length out = 3 \<and> fst (out ! 0) = fst (out ! 2) \<and> fst (out ! 0) \<noteq> fst (out ! 1) \<and> length (started srv) = 2"
proof -
  let ?c = "(fst (example_connection 2 7), \<lambda>_. None, \<lambda>_. Some 111) :: connection"
  let ?cs = "[example_connection 1 7, example_connection 2 8, example_connection 1 9, ?c, example_connection 1 7]"
  have ne: "replicate 16 (1 :: u8) \<noteq> replicate 16 2" by simp
  have cl: "client_of (example_connection a b) = replicate 16 a" if "b \<noteq> 0" for a b
    using example_welcome [OF that, of a] by (simp add: client_of_def)
  have free: "fst (snd (example_connection a b)) = (\<lambda>_. None)" "snd (snd (example_connection a b)) = (\<lambda>_. None)" for a b
    by (simp_all add: example_connection_def)
  have "\<exists>out srv. Server_connections (\<lambda>n. replicate n 65) snd ?cs server_start = (out, Some (Thrown ''connect''), srv) \<and> length out = 3
      \<and> length (started srv) = 2"
    using ne by (simp add: Server_incoming_def example_welcome free Server_get_or_create_def server_start_def UnixSocket_bind_def
        UnixSocket_connect_def errno_check_def Let_def)
  then obtain out srv where o: "Server_connections (\<lambda>n. replicate n 65) snd ?cs server_start = (out, Some (Thrown ''connect''), srv)"
    "length out = 3" "length (started srv) = 2" by blast
  have "inj_on (\<lambda>n. replicate n (65 :: u8)) {..<length ?cs}" by (auto intro!: inj_onI dest: arg_cong [where f = length])
  from Server_one_child_per_client [OF this o(1)]
  have same: "fst (out ! i) = fst (out ! j) \<longleftrightarrow> client_of (?cs ! i) = client_of (?cs ! j)" if "i < 3" "j < 3" for i j
    using that by (simp only: o(2) simp_thms)
  have "fst (out ! 0) = fst (out ! 2)" "fst (out ! 0) \<noteq> fst (out ! 1)"
    using same [of 0 2] same [of 0 1] ne by (simp_all add: cl)
  with o show ?thesis by blast
qed

end
