(* ===== verification/Driver.thy ===== *)
theory Driver
  imports Sockets "HOL-Library.AList" "HOL-Library.Multiset"
begin



















section \<open>Histories\<close>



section \<open>Preservation\<close>













section \<open>Properties\<close>



end
