(* ===== verification/Descriptors.thy ===== *)
theory Descriptors
  imports Mains
begin

text \<open>
  The set-up of the program's file descriptors: the parts of \<^verbatim>\<open>libreactor/epoll.cpp, reactor.cpp, misc.cpp, tcp.cpp, unix_socket.cpp\<close>,
  \<^verbatim>\<open>terminate/tun.cpp, address.cpp, terminate.cpp\<close> and \<^verbatim>\<open>app\<close> that only call the system, with the order of the calls, which of their
  results are looked at, and what stays behind when one of them throws.

  \<open>os\<close> is what the kernel keeps of the process: the open descriptors, which of them do not block, are closed on exec, or are watched by the
  event loop; \<open>os_table\<close> are the keys of \<open>Reactor::fds\<close>. Whether a call succeeds is given by \<open>os_answers\<close> in the order of the calls: a negative answer is
  a failure with that \<open>errno\<close>. A successful call that creates a descriptor returns the least number that is free, and a call on a
  descriptor that is not open fails, as POSIX says. An operation keeps the state it reached when it throws.
\<close>

section \<open>System calls\<close>

datatype sys_call =
    Sys_socket bool bool | Sys_open_tun | Sys_epoll_create
  | Sys_close int | Sys_getfl int | Sys_setfl int int | Sys_getfd int | Sys_setfd int int | Sys_epoll_add int
  | Sys_setsockopt int string | Sys_bind int | Sys_connect int | Sys_listen int | Sys_ioctl int string
  | Sys_unlink bytes | Sys_chmod bytes | Sys_run "bytes list"

record os =
  os_open :: "int list"
  os_nonblocking :: "int set"
  os_cloexec :: "int set"
  os_epoll :: "int set"
  os_table :: "int set"
  os_errno :: int
  os_count :: nat
  os_answers :: "nat \<Rightarrow> int"

definition O_NONBLOCK_BIT :: nat where "O_NONBLOCK_BIT = 11"
definition FD_CLOEXEC_BIT :: nat where "FD_CLOEXEC_BIT = 0"

definition fresh_fd :: "int list \<Rightarrow> int" where
  "fresh_fd xs = hd (filter (\<lambda>i. i \<notin> set xs) (map int [0..<Suc (length xs)]))"

text \<open>The descriptor a call is made on.\<close>

fun call_on :: "sys_call \<Rightarrow> int option" where
  "call_on (Sys_close n) = Some n" | "call_on (Sys_getfl n) = Some n" | "call_on (Sys_setfl n f) = Some n"
| "call_on (Sys_getfd n) = Some n" | "call_on (Sys_setfd n f) = Some n" | "call_on (Sys_epoll_add n) = Some n"
| "call_on (Sys_setsockopt n o') = Some n" | "call_on (Sys_bind n) = Some n" | "call_on (Sys_connect n) = Some n"
| "call_on (Sys_listen n) = Some n" | "call_on (Sys_ioctl n r) = Some n"
| "call_on _ = None"

definition set_flag :: "bool \<Rightarrow> int \<Rightarrow> int set \<Rightarrow> int set" where
  "set_flag b n A = (if b then insert n A else A - {n})"

definition new_fd :: "bool \<Rightarrow> bool \<Rightarrow> os \<Rightarrow> int \<times> os" where
  "new_fd nonblock cloexec w =
     (let n = fresh_fd (os_open w) in
      (n, w\<lparr>os_open := n # os_open w, os_nonblocking := set_flag nonblock n (os_nonblocking w),
            os_cloexec := set_flag cloexec n (os_cloexec w)\<rparr>))"

text \<open>The effect of a call that succeeds with answer \<open>a\<close>.\<close>

fun sys_effect :: "sys_call \<Rightarrow> int \<Rightarrow> os \<Rightarrow> int \<times> os" where
  "sys_effect (Sys_socket nb ce) a w = new_fd nb ce w"
| "sys_effect Sys_open_tun a w = new_fd False False w"
| "sys_effect Sys_epoll_create a w = new_fd False False w"
| "sys_effect (Sys_close n) a w = (0, w\<lparr>os_open := remove1 n (os_open w), os_nonblocking := os_nonblocking w - {n},
     os_cloexec := os_cloexec w - {n}, os_epoll := os_epoll w - {n}\<rparr>)"
| "sys_effect (Sys_setfl n f) a w = (0, w\<lparr>os_nonblocking := set_flag (bit f O_NONBLOCK_BIT) n (os_nonblocking w)\<rparr>)"
| "sys_effect (Sys_setfd n f) a w = (0, w\<lparr>os_cloexec := set_flag (bit f FD_CLOEXEC_BIT) n (os_cloexec w)\<rparr>)"
| "sys_effect (Sys_epoll_add n) a w = (0, w\<lparr>os_epoll := insert n (os_epoll w)\<rparr>)"
| "sys_effect c a w = (a, w)"

type_synonym 'a io = "os \<Rightarrow> 'a result \<times> os"

definition syscall :: "sys_call \<Rightarrow> int io" where
  "syscall c w =
     (let a = os_answers w (os_count w); w = w\<lparr>os_count := os_count w + 1\<rparr>;
          bad = (case call_on c of None \<Rightarrow> False | Some n \<Rightarrow> n \<notin> set (os_open w))
      in if bad then (Inr (- 1), w\<lparr>os_errno := 9\<rparr>)
         else if a < 0 then (Inr (- 1), w\<lparr>os_errno := - a\<rparr>)
         else let (r, w) = sys_effect c a w in (Inr r, w))"

definition io_return :: "'a \<Rightarrow> 'a io" where "io_return x w = (Inr x, w)"
definition io_throw :: "string \<Rightarrow> 'a io" where "io_throw e w = (Inl (Thrown e), w)"
definition io_result :: "'a result \<Rightarrow> 'a io" where "io_result r w = (r, w)"

definition io_bind :: "'a io \<Rightarrow> ('a \<Rightarrow> 'b io) \<Rightarrow> 'b io" where
  "io_bind m f w = (case m w of (Inl e, w') \<Rightarrow> (Inl e, w') | (Inr x, w') \<Rightarrow> f x w')"

text \<open>\<open>errno_to_exception\<close>, and the frequent form of a call whose failure throws.\<close>

definition errno_to_exception :: "'a io" where "errno_to_exception = io_throw ''system_error''"

definition checked :: "sys_call \<Rightarrow> int io" where
  "checked c = io_bind (syscall c) (\<lambda>r. if r < 0 then errno_to_exception else io_return r)"

section \<open>Event loop and descriptors\<close>

definition setnonblocking :: "int \<Rightarrow> unit io" where
  "setnonblocking sfd =
     io_bind (syscall (Sys_getfl sfd)) (\<lambda>flags.
     if flags = - 1 then errno_to_exception
     else io_bind (syscall (Sys_setfl sfd (set_bit O_NONBLOCK_BIT flags))) (\<lambda>s.
       if s = - 1 then errno_to_exception else io_return ()))"

definition EPoll_add :: "int \<Rightarrow> bool io" where
  "EPoll_add n = io_bind (syscall (Sys_epoll_add n)) (\<lambda>res. io_return (res \<noteq> - 1))"

text \<open>The descriptor of the event queue; its number is not checked.\<close>

definition EPoll_create :: "int io" where
  "EPoll_create = syscall Sys_epoll_create"

definition EPoll_destroy :: "int \<Rightarrow> unit io" where
  "EPoll_destroy efd = io_bind (syscall (Sys_close efd)) (\<lambda>_. io_return ())"

definition FD_set_close_on_exec :: "bool \<Rightarrow> int \<Rightarrow> unit io" where
  "FD_set_close_on_exec flag n =
     io_bind (syscall (Sys_getfd n)) (\<lambda>flags.
     io_bind (syscall (Sys_setfd n (if flag then set_bit FD_CLOEXEC_BIT flags else unset_bit FD_CLOEXEC_BIT flags))) (\<lambda>_.
     io_return ()))"

definition enter_table :: "int \<Rightarrow> unit io" where
  "enter_table n w = (Inr (), w\<lparr>os_table := insert n (os_table w)\<rparr>)"

definition take_fd :: "int \<Rightarrow> int io" where
  "take_fd n =
     io_bind (setnonblocking n) (\<lambda>_.
     io_bind (enter_table n) (\<lambda>_.
     io_bind (EPoll_add n) (\<lambda>added.
     if \<not> added then errno_to_exception
     else io_bind (FD_set_close_on_exec True n) (\<lambda>_. io_return n))))"

text \<open>\<open>FD::close\<close>, which removes the entry of \<open>- 1\<close> from the table.\<close>

definition FD_close_calls :: "int \<Rightarrow> unit io" where
  "FD_close_calls n =
     io_bind (syscall (Sys_close n)) (\<lambda>_ w. (Inr (), w\<lparr>os_table := os_table w - {- 1}\<rparr>))"

definition set_recv_buffer :: "int \<Rightarrow> unit io" where
  "set_recv_buffer n = io_bind (checked (Sys_setsockopt n ''SO_RCVBUF'')) (\<lambda>_. io_return ())"

section \<open>Sockets\<close>

text \<open>\<open>inet_addr\<close> is a parameter.\<close>

definition make_addr :: "(bytes \<Rightarrow> u32) \<Rightarrow> bytes \<Rightarrow> int \<Rightarrow> int \<times> u32 \<times> u16" where
  "make_addr inet_addr addr port = (AF_INET, inet_addr addr, htons (of_int port))"

definition set_nodelay :: "int \<Rightarrow> unit io" where
  "set_nodelay n = io_bind (checked (Sys_setsockopt n ''TCP_NODELAY'')) (\<lambda>_. io_return ())"

datatype connect_state = Connect_failed | Connect_ready | Connect_pending

text \<open>\<open>TCP::connect\<close> up to the returned future: the descriptor and the state of the future. The result of \<open>socket\<close> is not looked at.\<close>

definition TCP_connect_calls :: "bytes \<Rightarrow> (int \<times> connect_state) io" where
  "TCP_connect_calls bind_addr =
     io_bind (syscall (Sys_socket True True)) (\<lambda>sockfd.
     io_bind (setnonblocking sockfd) (\<lambda>_.
     io_bind (set_nodelay sockfd) (\<lambda>_.
     io_bind (take_fd sockfd) (\<lambda>n.
     io_bind (if bind_addr \<noteq> [] then syscall (Sys_bind sockfd) else io_return 0) (\<lambda>res.
     if res < 0 then io_return (n, Connect_failed)
     else io_bind (syscall (Sys_connect sockfd)) (\<lambda>res w.
       if res < 0 \<and> os_errno w \<noteq> EINPROGRESS then (Inr (n, Connect_failed), w)
       else if res = 0 then (Inr (n, Connect_ready), w)
       else (Inr (n, Connect_pending), w)))))))"

definition TCP_listen_calls :: "int io" where
  "TCP_listen_calls =
     io_bind (syscall (Sys_socket True True)) (\<lambda>sockfd.
     io_bind (setnonblocking sockfd) (\<lambda>_.
     io_bind (take_fd sockfd) (\<lambda>n.
     io_bind (checked (Sys_setsockopt sockfd ''SO_REUSEADDR'')) (\<lambda>_.
     io_bind (checked (Sys_bind sockfd)) (\<lambda>_.
     io_bind (checked (Sys_listen sockfd)) (\<lambda>_. io_return n))))))"

definition UnixSocket_connect_calls :: "int io" where
  "UnixSocket_connect_calls =
     io_bind (syscall (Sys_socket True True)) (\<lambda>sockfd.
     io_bind (checked (Sys_connect sockfd)) (\<lambda>_.
     io_bind (setnonblocking sockfd) (\<lambda>_. take_fd sockfd)))"

definition UnixSocket_bind_calls :: "bytes \<Rightarrow> int io" where
  "UnixSocket_bind_calls path =
     io_bind (syscall (Sys_unlink (c_str path))) (\<lambda>_.
     io_bind (syscall (Sys_socket True True)) (\<lambda>sockfd.
     io_bind (setnonblocking sockfd) (\<lambda>_.
     io_bind (take_fd sockfd) (\<lambda>n.
     io_bind (checked (Sys_bind sockfd)) (\<lambda>_.
     io_bind (checked (Sys_chmod (c_str path))) (\<lambda>_.
     io_bind (checked (Sys_listen sockfd)) (\<lambda>_. io_return n)))))))"

section \<open>Interfaces and the tun device\<close>

text \<open>\<open>ifreqs\<close> is what the kernel reports. The socket is used for one request.\<close>

definition IpAddress_get_addresses :: "ifreq list \<Rightarrow> IpAddress list io" where
  "IpAddress_get_addresses ifreqs =
     io_bind (checked (Sys_socket False False)) (\<lambda>sock.
     io_bind (checked (Sys_ioctl sock ''SIOCGIFCONF'')) (\<lambda>_. io_return (get_addresses ifreqs)))"

text \<open>\<open>kernel_name\<close> is the name the kernel gives the device that was asked for.\<close>

definition Tun_create :: "(bytes \<Rightarrow> bytes) \<Rightarrow> bytes \<Rightarrow> (int \<times> bytes) io" where
  "Tun_create kernel_name name =
     io_bind (checked Sys_open_tun) (\<lambda>n.
     io_bind (checked (Sys_ioctl n ''TUNSETIFF'')) (\<lambda>_.
     io_bind (take_fd n) (\<lambda>n. io_return (n, kernel_name (take 16 (c_str name))))))"

text \<open>\<open>Popen(...).check_call().wait(reactor)\<close>: the answer of the call is the exit status.\<close>

definition check_call :: "bytes list \<Rightarrow> unit io" where
  "check_call args = io_bind (syscall (Sys_run args)) (\<lambda>ret. io_result (Popen_check ret))"

fun check_calls :: "bytes list list \<Rightarrow> unit io" where
  "check_calls [] = io_return ()"
| "check_calls (args # rest) = io_bind (check_call args) (\<lambda>_. check_calls rest)"

definition Terminator_set_tun_calls :: "bytes \<Rightarrow> bytes \<Rightarrow> bool \<Rightarrow> unit io" where
  "Terminator_set_tun_calls dev ip srv = check_calls (set_tun_commands dev ip srv)"

text \<open>\<open>Client::create_terminate_target\<close> up to the transport, and \<open>Server::setup_tun\<close> of the child, for the number \<open>k\<close> drawn.\<close>

definition Client_create_terminate_target :: "(bytes \<Rightarrow> bytes) \<Rightarrow> bytes \<Rightarrow> (int \<times> bytes) io" where
  "Client_create_terminate_target kernel_name name =
     io_bind (Tun_create kernel_name name) (\<lambda>(n, dev).
     io_bind (Terminator_set_tun_calls dev (ascii ''10.77.0.1'') False) (\<lambda>_.
     io_bind (check_call (map ascii [''ip'', ''route'', ''replace'', ''default'', ''dev''] @ [name])) (\<lambda>_. io_return (n, dev))))"

definition Server_setup_tun :: "(bytes \<Rightarrow> bytes) \<Rightarrow> u32 \<Rightarrow> bytes \<Rightarrow> (int \<times> bytes) io" where
  "Server_setup_tun kernel_name k name =
     io_bind (Tun_create kernel_name name) (\<lambda>(n, dev).
     io_bind (io_result (tun_address k)) (\<lambda>ip.
     io_bind (Terminator_set_tun_calls dev ip True) (\<lambda>_. io_return (n, dev))))"

fun address_names :: "IpAddress list \<Rightarrow> bytes list result" where
  "address_names [] = Inr []"
| "address_names (a # as) = bindR (IpAddress_to_string a) (\<lambda>s. bindR (address_names as) (\<lambda>ss. Inr (s # ss)))"

definition Client_reload_nm_calls :: "ifreq list \<Rightarrow> client \<Rightarrow> client io" where
  "Client_reload_nm_calls ifreqs c =
     io_bind (IpAddress_get_addresses ifreqs) (\<lambda>as.
     io_bind (io_result (address_names as)) (\<lambda>names. io_return (Client_reload_nm names c)))"

section \<open>What an operation leaves behind\<close>

text \<open>
  \<open>watched_ok\<close>: what the event loop watches is open, does not block, and is in the table. \<open>holds Z M\<close>: in addition the descriptors \<open>Z\<close> are
  watched and \<open>M\<close> are the open ones. \<open>runs P m Q E\<close>: from a state with \<open>P\<close>, \<open>m\<close> returns with \<open>Q\<close> or throws with \<open>E\<close>.
\<close>

definition watched_ok :: "os \<Rightarrow> bool" where
  "watched_ok w \<longleftrightarrow> os_epoll w \<subseteq> set (os_open w) \<inter> os_nonblocking w \<inter> os_table w
     \<and> distinct (os_open w) \<and> (\<forall>n \<in> set (os_open w). 0 \<le> n)"

definition holds :: "int set \<Rightarrow> int multiset \<Rightarrow> os \<Rightarrow> bool" where
  "holds Z M w \<longleftrightarrow> watched_ok w \<and> Z \<subseteq> os_epoll w \<and> mset (os_open w) = M"

definition leaves :: "int set \<Rightarrow> int multiset \<Rightarrow> os \<Rightarrow> bool" where
  "leaves Z M w \<longleftrightarrow> (\<exists>L. holds Z (M + L) w)"

definition runs :: "(os \<Rightarrow> bool) \<Rightarrow> 'a io \<Rightarrow> ('a \<Rightarrow> os \<Rightarrow> bool) \<Rightarrow> (os \<Rightarrow> bool) \<Rightarrow> bool" where
  "runs P m Q E \<longleftrightarrow> (\<forall>w. P w \<longrightarrow> (case m w of (Inr x, w') \<Rightarrow> Q x w' | (Inl e, w') \<Rightarrow> E w'))"

lemma runsI: "(\<And>w r w'. P w \<Longrightarrow> m w = (r, w') \<Longrightarrow> case r of Inl e \<Rightarrow> E w' | Inr x \<Rightarrow> Q x w') \<Longrightarrow> runs P m Q E"
  unfolding runs_def by (auto split: prod.splits sum.splits)

lemma runsD: "runs P m Q E \<Longrightarrow> P w \<Longrightarrow> m w = (r, w') \<Longrightarrow> case r of Inl e \<Rightarrow> E w' | Inr x \<Rightarrow> Q x w'"
  unfolding runs_def by auto

lemma runs_bind: "runs P m R E \<Longrightarrow> (\<And>x. runs (R x) (f x) Q E) \<Longrightarrow> runs P (io_bind m f) Q E"
proof (rule runsI)
  fix w r w' assume m: "runs P m R E" and f: "\<And>x. runs (R x) (f x) Q E" and w: "P w" and r: "io_bind m f w = (r, w')"
  obtain r1 w1 where r1: "m w = (r1, w1)" by (cases "m w")
  from runsD [OF m w r1] r r1 show "case r of Inl e \<Rightarrow> E w' | Inr x \<Rightarrow> Q x w'"
    by (cases r1) (auto simp: io_bind_def dest: runsD [OF f])
qed

lemma runs_return: "(\<And>w. P w \<Longrightarrow> Q x w) \<Longrightarrow> runs P (io_return x) Q E"
  and runs_throw: "(\<And>w. P w \<Longrightarrow> E w) \<Longrightarrow> runs P errno_to_exception Q E"
  and runs_result: "(\<And>w. P w \<Longrightarrow> case r of Inr x \<Rightarrow> Q x w | Inl e \<Rightarrow> E w) \<Longrightarrow> runs P (io_result r) Q E"
  by (auto simp: runs_def io_return_def errno_to_exception_def io_throw_def io_result_def split: sum.splits)

lemma runs_weaken:
  "runs P m Q E \<Longrightarrow> (\<And>w. P' w \<Longrightarrow> P w) \<Longrightarrow> (\<And>x w. Q x w \<Longrightarrow> Q' x w) \<Longrightarrow> (\<And>w. E w \<Longrightarrow> E' w) \<Longrightarrow> runs P' m Q' E'"
  by (rule runsI) (fastforce dest: runsD split: sum.splits)

lemma runs_assume: "(\<And>w. P w \<Longrightarrow> A) \<Longrightarrow> (A \<Longrightarrow> runs P m Q E) \<Longrightarrow> runs P m Q E"
  by (rule runsI) (blast dest: runsD)

lemma runs_if: "(b \<Longrightarrow> runs P m Q E) \<Longrightarrow> (\<not> b \<Longrightarrow> runs P n Q E) \<Longrightarrow> runs P (if b then m else n) Q E"
  by simp

lemma holds_leaves: "holds Z M w \<Longrightarrow> leaves Z M w" "holds Z (add_mset n M) w \<Longrightarrow> leaves Z M w"
  unfolding leaves_def by (rule exI [of _ "{#}"], simp) (rule exI [of _ "{#n#}"], simp)

lemma fresh_fd_law: "distinct xs \<Longrightarrow> fresh_fd xs \<notin> set xs \<and> 0 \<le> fresh_fd xs"
proof -
  let ?c = "map int [0..<Suc (length xs)]"
  let ?f = "filter (\<lambda>i. i \<notin> set xs) ?c"
  have "?f \<noteq> []"
  proof
    assume "?f = []"
    then have "set ?c \<subseteq> set xs" by (auto simp: filter_empty_conv simp del: upt_Suc)
    then have "card (set ?c) \<le> length xs" by (meson List.finite_set card_length card_mono order_trans)
    moreover have "card (set ?c) = Suc (length xs)"
      using distinct_card [of ?c] by (simp add: distinct_map inj_on_def del: upt_Suc)
    ultimately show False by simp
  qed
  then have "fresh_fd xs \<in> set ?f" unfolding fresh_fd_def by (rule hd_in_set)
  then show ?thesis by (auto simp del: upt_Suc)
qed

definition neutral :: "sys_call \<Rightarrow> bool" where
  "neutral c \<longleftrightarrow> (case c of Sys_socket _ _ \<Rightarrow> False | Sys_open_tun \<Rightarrow> False | Sys_epoll_create \<Rightarrow> False | Sys_close _ \<Rightarrow> False
     | Sys_setfl _ _ \<Rightarrow> False | Sys_epoll_add _ \<Rightarrow> False | _ \<Rightarrow> True)"

lemma holds_fields [simp]:
  "holds Z M (w\<lparr>os_count := k\<rparr>) = holds Z M w" "holds Z M (w\<lparr>os_errno := e\<rparr>) = holds Z M w"
  "holds Z M (w\<lparr>os_cloexec := C\<rparr>) = holds Z M w"
  by (simp_all add: holds_def watched_ok_def)

lemma neutral_runs: "neutral c \<Longrightarrow> runs (holds Z M) (syscall c) (\<lambda>_. holds Z M) E"
  by (cases c) (auto simp: neutral_def runs_def syscall_def Let_def)

lemma checked_runs: "neutral c \<Longrightarrow> (\<And>w. holds Z M w \<Longrightarrow> E w) \<Longrightarrow> runs (holds Z M) (checked c) (\<lambda>_. holds Z M) E"
  unfolding checked_def by (rule runs_bind [OF neutral_runs]) (auto intro: runs_if runs_return runs_throw)

lemma setnonblocking_runs:
  "(\<And>w. holds Z M w \<Longrightarrow> E w) \<Longrightarrow>
     runs (holds Z M) (setnonblocking n) (\<lambda>_ w. holds Z M w \<and> n \<in> os_nonblocking w \<and> n \<in># M \<and> 0 \<le> n) E"
  by (auto simp: runs_def setnonblocking_def io_bind_def syscall_def Let_def errno_to_exception_def io_throw_def io_return_def
      holds_def watched_ok_def set_flag_def bit_set_bit_iff)

lemma take_fd_runs:
  assumes "\<And>w. holds Z M w \<Longrightarrow> E w"
  shows "runs (holds Z M) (take_fd n) (\<lambda>r w. r = n \<and> 0 \<le> n \<and> holds (insert n Z) M w) E"
  unfolding take_fd_def
proof (rule runs_bind [OF setnonblocking_runs])
  let ?N = "\<lambda>w. holds Z M w \<and> n \<in> os_nonblocking w \<and> n \<in># M \<and> 0 \<le> n"
  show "runs ?N (io_bind (enter_table n) (\<lambda>_. io_bind (EPoll_add n) (\<lambda>added. if \<not> added then errno_to_exception
      else io_bind (FD_set_close_on_exec True n) (\<lambda>_. io_return n)))) (\<lambda>r w. r = n \<and> 0 \<le> n \<and> holds (insert n Z) M w) E"
  proof (rule runs_bind [where R = "\<lambda>_ w. ?N w \<and> n \<in> os_table w"])
    show "runs ?N (enter_table n) (\<lambda>_ w. ?N w \<and> n \<in> os_table w) E"
      by (auto simp: runs_def enter_table_def holds_def watched_ok_def)
    show "runs (\<lambda>w. ?N w \<and> n \<in> os_table w) (io_bind (EPoll_add n) (\<lambda>added. if \<not> added then errno_to_exception
        else io_bind (FD_set_close_on_exec True n) (\<lambda>_. io_return n))) (\<lambda>r w. r = n \<and> 0 \<le> n \<and> holds (insert n Z) M w) E"
    proof (rule runs_bind [where R = "\<lambda>b w. holds (if b then insert n Z else Z) M w \<and> 0 \<le> n"])
      show "runs (\<lambda>w. ?N w \<and> n \<in> os_table w) (EPoll_add n) (\<lambda>b w. holds (if b then insert n Z else Z) M w \<and> 0 \<le> n) E"
        by (auto simp: runs_def EPoll_add_def io_bind_def syscall_def Let_def io_return_def holds_def watched_ok_def
            dest: in_multiset_in_set [THEN iffD1])
    next
      fix b
      show "runs (\<lambda>w. holds (if b then insert n Z else Z) M w \<and> 0 \<le> n) (if \<not> b then errno_to_exception
          else io_bind (FD_set_close_on_exec True n) (\<lambda>_. io_return n)) (\<lambda>r w. r = n \<and> 0 \<le> n \<and> holds (insert n Z) M w) E"
      proof (cases b)
        case False
        then show ?thesis using assms by (auto intro: runs_throw)
      next
        case True
        have "runs (\<lambda>w. holds (insert n Z) M w \<and> 0 \<le> n) (FD_set_close_on_exec True n) (\<lambda>_ w. holds (insert n Z) M w \<and> 0 \<le> n) E"
          by (auto simp: FD_set_close_on_exec_def runs_def io_bind_def syscall_def Let_def io_return_def)
        then show ?thesis using True by (auto intro!: runs_bind runs_return)
      qed
    qed
  qed
qed (fact assms)

lemma socket_runs:
  "runs (holds Z M) (syscall (Sys_socket nb ce))
     (\<lambda>r w. if r < 0 then holds Z M w else r \<notin># M \<and> holds Z (add_mset r M) w) E"
  "runs (holds Z M) (syscall Sys_open_tun)
     (\<lambda>r w. if r < 0 then holds Z M w else r \<notin># M \<and> holds Z (add_mset r M) w) E"
  by (auto simp: runs_def syscall_def Let_def new_fd_def holds_def watched_ok_def set_flag_def dest: fresh_fd_law)

lemma runs_pre: "(A \<Longrightarrow> runs P m Q E) \<Longrightarrow> runs (\<lambda>w. A \<and> P w) m Q E"
  by (rule runsI) (auto dest: runsD)

text \<open>The steps of an operation.\<close>

lemma step_setnonblocking:
  assumes "\<And>w. holds Z M w \<Longrightarrow> E w" and "n \<in># M \<Longrightarrow> 0 \<le> n \<Longrightarrow> runs (holds Z M) (f ()) Q E"
  shows "runs (holds Z M) (io_bind (setnonblocking n) f) Q E"
  by (rule runs_bind [OF setnonblocking_runs [OF assms(1)]]) (use assms(2) in \<open>auto simp: runs_def\<close>)

lemma step_take_fd:
  assumes "\<And>w. holds Z M w \<Longrightarrow> E w" and "runs (holds (insert n Z) M) (f n) Q E"
  shows "runs (holds Z M) (io_bind (take_fd n) f) Q E"
  by (rule runs_bind [OF take_fd_runs [OF assms(1)]]) (use assms(2) in \<open>auto simp: runs_def\<close>)

lemma step_checked:
  "neutral c \<Longrightarrow> (\<And>w. holds Z M w \<Longrightarrow> E w) \<Longrightarrow> (\<And>r. runs (holds Z M) (f r) Q E) \<Longrightarrow> runs (holds Z M) (io_bind (checked c) f) Q E"
  by (rule runs_bind [OF checked_runs])

lemma step_neutral:
  "neutral c \<Longrightarrow> (\<And>r. runs (holds Z M) (f r) Q E) \<Longrightarrow> runs (holds Z M) (io_bind (syscall c) f) Q E"
  by (rule runs_bind [OF neutral_runs])

lemma step_new:
  assumes m: "runs (holds Z M) m (\<lambda>r w. if r < 0 then holds Z M w else r \<notin># M \<and> holds Z (add_mset r M) w) E"
    and "\<And>n. n < 0 \<Longrightarrow> runs (holds Z M) (f n) Q E"
    and "\<And>n. 0 \<le> n \<Longrightarrow> n \<notin># M \<Longrightarrow> runs (holds Z (add_mset n M)) (f n) Q E"
  shows "runs (holds Z M) (io_bind m f) Q E"
proof (rule runs_bind [OF m])
  fix n
  show "runs (\<lambda>w. if n < 0 then holds Z M w else n \<notin># M \<and> holds Z (add_mset n M) w) (f n) Q E"
    using assms(2,3) [of n] by (cases "n < 0") (auto intro: runs_pre)
qed

lemmas descriptor_steps = step_setnonblocking step_take_fd step_checked step_neutral

text \<open>A new socket whose number is first looked at by \<open>setnonblocking\<close>, and one that is checked.\<close>

lemma open_socket_runs:
  assumes "\<And>s. s \<notin># M \<Longrightarrow> runs (holds Z (add_mset s M)) (f s) Q E"
    and "\<And>w. holds Z M w \<Longrightarrow> E w" "\<And>w s. holds Z (add_mset s M) w \<Longrightarrow> E w"
  shows "runs (holds Z M) (io_bind (syscall (Sys_socket nb ce)) (\<lambda>s. io_bind (setnonblocking s) (\<lambda>_. f s))) Q E"
  by (rule step_new [OF socket_runs(1)]) (auto intro: step_setnonblocking assms)

lemma checked_open_runs:
  assumes "\<And>s. s \<notin># M \<Longrightarrow> runs (holds Z (add_mset s M)) (f s) Q E" and "\<And>w. holds Z M w \<Longrightarrow> E w"
  shows "runs (holds Z M) (io_bind (checked (Sys_socket nb ce)) f) Q E" "runs (holds Z M) (io_bind (checked Sys_open_tun) f) Q E"
proof -
  have one: "runs (holds Z M) (io_bind (io_bind m (\<lambda>r. if r < 0 then errno_to_exception else io_return r)) f) Q E"
    if m: "runs (holds Z M) m (\<lambda>r w. if r < 0 then holds Z M w else r \<notin># M \<and> holds Z (add_mset r M) w) E" for m
  proof (rule runs_bind [where R = "\<lambda>r w. r \<notin># M \<and> holds Z (add_mset r M) w"])
    show "runs (holds Z M) (io_bind m (\<lambda>r. if r < 0 then errno_to_exception else io_return r))
        (\<lambda>r w. r \<notin># M \<and> holds Z (add_mset r M) w) E"
      by (rule step_new [OF m]) (auto intro: runs_throw runs_return assms(2))
    show "runs (\<lambda>w. s \<notin># M \<and> holds Z (add_mset s M) w) (f s) Q E" for s
      by (rule runs_pre) (rule assms(1))
  qed
  show "runs (holds Z M) (io_bind (checked (Sys_socket nb ce)) f) Q E" "runs (holds Z M) (io_bind (checked Sys_open_tun) f) Q E"
    unfolding checked_def by (rule one [OF socket_runs(1)], rule one [OF socket_runs(2)])
qed

text \<open>Each operation opens at most one descriptor. If it returns, this is the one it hands out.\<close>

abbreviation opens :: "int set \<Rightarrow> int multiset \<Rightarrow> int \<Rightarrow> os \<Rightarrow> bool" where
  "opens Z M n w \<equiv> holds (insert n Z) (add_mset n M) w"

lemma opens_leaves: "opens Z M n w \<Longrightarrow> leaves Z M w"
  unfolding leaves_def holds_def by (rule exI [of _ "{#n#}"]) auto

lemma Tun_create_runs: "runs (holds Z M) (Tun_create kn name) (\<lambda>(n, d). opens Z M n) (leaves Z M)"
  unfolding Tun_create_def
  by (intro checked_open_runs(2) descriptor_steps runs_return) (auto simp: neutral_def intro: holds_leaves)

lemma TCP_connect_runs: "runs (holds Z M) (TCP_connect_calls b) (\<lambda>(n, s). opens Z M n) (leaves Z M)"
  unfolding TCP_connect_calls_def set_nodelay_def
proof (rule open_socket_runs)
  fix n
  have connect: "runs (opens Z M n) (io_bind (syscall (Sys_connect n)) (\<lambda>res w.
       if res < 0 \<and> os_errno w \<noteq> EINPROGRESS then (Inr (n, Connect_failed), w)
       else if res = 0 then (Inr (n, Connect_ready), w) else (Inr (n, Connect_pending), w))) (\<lambda>(n, s). opens Z M n) (leaves Z M)"
    by (rule step_neutral) (auto simp: neutral_def runs_def)
  have bind: "runs (opens Z M n) (if b \<noteq> [] then syscall (Sys_bind n) else io_return 0) (\<lambda>_. opens Z M n) (leaves Z M)"
    by (rule runs_if) (auto simp: neutral_def intro: neutral_runs runs_return)
  have "runs (holds Z (add_mset n M)) (io_bind (checked (Sys_setsockopt n ''TCP_NODELAY'')) (\<lambda>_. io_return ()))
      (\<lambda>_. holds Z (add_mset n M)) (leaves Z M)"
    by (intro descriptor_steps runs_return) (auto simp: neutral_def intro: holds_leaves)
  then show "runs (holds Z (add_mset n M)) (io_bind (io_bind (checked (Sys_setsockopt n ''TCP_NODELAY'')) (\<lambda>_. io_return ()))
     (\<lambda>_. io_bind (take_fd n) (\<lambda>n'. io_bind (if b \<noteq> [] then syscall (Sys_bind n) else io_return 0) (\<lambda>res.
     if res < 0 then io_return (n', Connect_failed)
     else io_bind (syscall (Sys_connect n)) (\<lambda>res w.
       if res < 0 \<and> os_errno w \<noteq> EINPROGRESS then (Inr (n', Connect_failed), w)
       else if res = 0 then (Inr (n', Connect_ready), w)
       else (Inr (n', Connect_pending), w)))))) (\<lambda>(n, s). opens Z M n) (leaves Z M)"
  proof (rule runs_bind)
    fix u
    show "runs (holds Z (add_mset n M)) (io_bind (take_fd n) (\<lambda>n'. io_bind (if b \<noteq> [] then syscall (Sys_bind n) else io_return 0) (\<lambda>res.
     if res < 0 then io_return (n', Connect_failed)
     else io_bind (syscall (Sys_connect n)) (\<lambda>res w.
       if res < 0 \<and> os_errno w \<noteq> EINPROGRESS then (Inr (n', Connect_failed), w)
       else if res = 0 then (Inr (n', Connect_ready), w)
       else (Inr (n', Connect_pending), w))))) (\<lambda>(n, s). opens Z M n) (leaves Z M)"
      by (rule step_take_fd, erule holds_leaves, rule runs_bind [OF bind], rule runs_if, rule runs_return, simp, rule connect)
  qed
qed (erule holds_leaves)+

lemma TCP_listen_runs: "runs (holds Z M) TCP_listen_calls (\<lambda>n. opens Z M n) (leaves Z M)"
  unfolding TCP_listen_calls_def
  by (intro open_socket_runs descriptor_steps runs_return) (auto simp: neutral_def intro: holds_leaves opens_leaves)

lemma UnixSocket_connect_runs: "runs (holds Z M) UnixSocket_connect_calls (\<lambda>n. opens Z M n) (leaves Z M)"
  unfolding UnixSocket_connect_calls_def
proof (rule step_new [OF socket_runs(1)])
  fix n :: int
  show "runs (holds Z M) (io_bind (checked (Sys_connect n)) (\<lambda>_. io_bind (setnonblocking n) (\<lambda>_. take_fd n)))
      (\<lambda>n. opens Z M n) (leaves Z M)" if "n < 0"
    by (rule step_checked, simp add: neutral_def, erule holds_leaves, rule step_setnonblocking, erule holds_leaves) (use that in auto)
  show "runs (holds Z (add_mset n M)) (io_bind (checked (Sys_connect n)) (\<lambda>_. io_bind (setnonblocking n) (\<lambda>_. take_fd n)))
      (\<lambda>n. opens Z M n) (leaves Z M)"
    by (rule step_checked, simp add: neutral_def, erule holds_leaves, rule step_setnonblocking, erule holds_leaves,
        rule runs_weaken [OF take_fd_runs]) (auto intro: holds_leaves)
qed

lemma UnixSocket_bind_runs: "runs (holds Z M) (UnixSocket_bind_calls path) (\<lambda>n. opens Z M n) (leaves Z M)"
  unfolding UnixSocket_bind_calls_def
  by (intro step_neutral open_socket_runs step_take_fd step_checked runs_return) (auto simp: neutral_def intro: holds_leaves opens_leaves)

text \<open>The socket for the list of interfaces stays open.\<close>

lemma get_addresses_runs:
  "runs (holds Z M) (IpAddress_get_addresses ifreqs) (\<lambda>as w. \<exists>n. holds Z (add_mset n M) w) (leaves Z M)"
  unfolding IpAddress_get_addresses_def
  by (intro checked_open_runs(1) step_checked runs_return) (auto simp: neutral_def intro: holds_leaves)

lemma watched_ok_table: "watched_ok w \<Longrightarrow> watched_ok (w\<lparr>os_table := os_table w - {- 1}\<rparr>)"
  unfolding watched_ok_def by fastforce

lemma close_runs:
  assumes "n \<in># M"
  shows "runs (holds Z M) (FD_close_calls n) (\<lambda>_ w. holds (Z - {n}) (M - {#n#}) w \<or> holds Z M w) (\<lambda>_. False)"
  unfolding FD_close_calls_def
proof (rule runs_bind [where R = "\<lambda>_ w. holds (Z - {n}) (M - {#n#}) w \<or> holds Z M w"])
  show "runs (holds Z M) (syscall (Sys_close n)) (\<lambda>_ w. holds (Z - {n}) (M - {#n#}) w \<or> holds Z M w) (\<lambda>_. False)"
  proof (rule runsI)
    fix w r w' assume h: "holds Z M w" and r: "syscall (Sys_close n) w = (r, w')"
    let ?w = "w\<lparr>os_open := remove1 n (os_open w), os_nonblocking := os_nonblocking w - {n},
      os_cloexec := os_cloexec w - {n}, os_epoll := os_epoll w - {n}\<rparr>"
    have "set (remove1 n (os_open w)) = set (os_open w) - {n}" "mset (remove1 n (os_open w)) = M - {#n#}"
      using h by (simp_all add: holds_def watched_ok_def set_remove1_eq)
    then have "holds (Z - {n}) (M - {#n#}) ?w"
      using h by (auto simp: holds_def watched_ok_def)
    then show "case r of Inl e \<Rightarrow> False | Inr x \<Rightarrow> holds (Z - {n}) (M - {#n#}) w' \<or> holds Z M w'"
      using r h by (auto simp: syscall_def Let_def split: if_splits) (simp_all add: holds_def watched_ok_def)
  qed
  show "runs (\<lambda>w. holds (Z - {n}) (M - {#n#}) w \<or> holds Z M w) (\<lambda>w. (Inr (), w\<lparr>os_table := os_table w - {- 1}\<rparr>))
      (\<lambda>_ w. holds (Z - {n}) (M - {#n#}) w \<or> holds Z M w) (\<lambda>_. False)"
    by (rule runsI) (auto simp: holds_def dest: watched_ok_table)
qed

lemma check_calls_runs:
  assumes "\<And>w. holds Z M w \<Longrightarrow> E w"
  shows "runs (holds Z M) (check_call args) (\<lambda>_. holds Z M) E" "runs (holds Z M) (check_calls cs) (\<lambda>_. holds Z M) E"
proof -
  have one: "runs (holds Z M) (check_call args) (\<lambda>_. holds Z M) E" for args
    unfolding check_call_def by (rule step_neutral) (auto simp: neutral_def Popen_check_def assms intro: runs_result split: sum.splits)
  then show "runs (holds Z M) (check_call args) (\<lambda>_. holds Z M) E" .
  show "runs (holds Z M) (check_calls cs) (\<lambda>_. holds Z M) E"
    by (induction cs) (auto intro: runs_return runs_bind one)
qed

lemma create_terminate_target_runs:
  "runs (holds Z M) (Client_create_terminate_target kn name) (\<lambda>(n, d). opens Z M n) (leaves Z M)"
  unfolding Client_create_terminate_target_def Terminator_set_tun_calls_def
  by (rule runs_bind [OF Tun_create_runs])
    (auto intro!: runs_bind [OF check_calls_runs(1)] runs_bind [OF check_calls_runs(2)] runs_return intro: opens_leaves)

section \<open>Histories\<close>

text \<open>
  The operations the program calls in any order. The state holds the descriptors some object of the program still has, and counts the operations
  that returned with a descriptor open that no object has: a connection attempt that fails at once, whose future only carries the
  exception, and a look at the interfaces.
\<close>

datatype fd_operation = Op_connect bytes | Op_listen | Op_unix_connect | Op_unix_bind bytes | Op_target bytes
  | Op_addresses "ifreq list" | Op_close int

fun hand_out :: "int result \<times> os \<Rightarrow> int list \<times> nat \<times> os \<Rightarrow> int list \<times> nat \<times> os" where
  "hand_out (Inr n, w') (owned_fds, lost, w) = (n # owned_fds, lost, w')"
| "hand_out (Inl e, w') (owned_fds, lost, w) = (owned_fds, lost, w')"

fun run_setup :: "(bytes \<Rightarrow> bytes) \<Rightarrow> int list \<times> nat \<times> os \<Rightarrow> fd_operation \<Rightarrow> int list \<times> nat \<times> os" where
  "run_setup kn (owned_fds, lost, w) (Op_connect b) = (case TCP_connect_calls b w of
       (Inr (n, Connect_failed), w') \<Rightarrow> (owned_fds, Suc lost, w')
     | (Inr (n, s), w') \<Rightarrow> (n # owned_fds, lost, w')
     | (Inl e, w') \<Rightarrow> (owned_fds, lost, w'))"
| "run_setup kn (owned_fds, lost, w) Op_listen = hand_out (TCP_listen_calls w) (owned_fds, lost, w)"
| "run_setup kn (owned_fds, lost, w) Op_unix_connect = hand_out (UnixSocket_connect_calls w) (owned_fds, lost, w)"
| "run_setup kn (owned_fds, lost, w) (Op_unix_bind p) = hand_out (UnixSocket_bind_calls p w) (owned_fds, lost, w)"
| "run_setup kn (owned_fds, lost, w) (Op_target name) = (case Client_create_terminate_target kn name w of
       (Inr (n, d), w') \<Rightarrow> (n # owned_fds, lost, w')
     | (Inl e, w') \<Rightarrow> (owned_fds, lost, w'))"
| "run_setup kn (owned_fds, lost, w) (Op_addresses ifreqs) = (case IpAddress_get_addresses ifreqs w of
       (Inr as, w') \<Rightarrow> (owned_fds, Suc lost, w')
     | (Inl e, w') \<Rightarrow> (owned_fds, lost, w'))"
| "run_setup kn (owned_fds, lost, w) (Op_close n) =
     (if n \<in> set owned_fds then (remove1 n owned_fds, lost, snd (FD_close_calls n w)) else (owned_fds, lost, w))"

definition accounted :: "int multiset \<Rightarrow> int list \<times> nat \<times> os \<Rightarrow> bool" where
  "accounted M s = (case s of (owned_fds, lost, w) \<Rightarrow> \<exists>L. holds (set owned_fds) (M + mset owned_fds + L) w \<and> lost \<le> size L)"

lemma accountedI: "holds (set owned_fds) (M + mset owned_fds + L) w \<Longrightarrow> lost \<le> size L \<Longrightarrow> accounted M (owned_fds, lost, w)"
  by (auto simp: accounted_def)

lemma leaves_accounted:
  "leaves (set owned_fds) (M + mset owned_fds + L) w \<Longrightarrow> lost \<le> size L \<Longrightarrow> accounted M (owned_fds, lost, w)"
  unfolding leaves_def by (auto simp: add.assoc intro!: accountedI)

lemma opens_accounted:
  "opens (set owned_fds) (M + mset owned_fds + L) n w \<Longrightarrow> lost \<le> size L \<Longrightarrow> accounted M (n # owned_fds, lost, w)"
  by (auto intro!: accountedI)

lemma lost_accounted:
  "holds (set owned_fds) (add_mset n (M + mset owned_fds + L)) w \<Longrightarrow> lost \<le> size L \<Longrightarrow> accounted M (owned_fds, Suc lost, w)"
  by (rule accountedI [where L = "add_mset n L"]) auto

lemma holds_subset: "holds Z M w \<Longrightarrow> Y \<subseteq> Z \<Longrightarrow> holds Y M w"
  by (auto simp: holds_def)

lemma hand_out_accounted:
  assumes "runs (holds (set owned_fds) (M + mset owned_fds + L)) m (\<lambda>n. opens (set owned_fds) (M + mset owned_fds + L) n) (leaves (set owned_fds) (M + mset owned_fds + L))"
    and "holds (set owned_fds) (M + mset owned_fds + L) w" "lost \<le> size L"
  shows "accounted M (hand_out (m w) (owned_fds, lost, w))"
proof -
  obtain r w' where r: "m w = (r, w')" by (cases "m w")
  from runsD [OF assms(1,2) r] show ?thesis
    using r assms(3) by (cases r) (auto intro: leaves_accounted opens_accounted)
qed

lemma run_setup_accounted:
  assumes "accounted M s"
  shows "accounted M (run_setup kn s c)"
proof -
  obtain owned_fds lost w where s: "s = (owned_fds, lost, w)" by (cases s)
  from assms obtain L where h: "holds (set owned_fds) (M + mset owned_fds + L) w" and l: "lost \<le> size L"
    by (auto simp: s accounted_def)
  let ?M = "M + mset owned_fds + L"
  show ?thesis
  proof (cases c)
    case (Op_connect b)
    obtain r w' where r: "TCP_connect_calls b w = (r, w')" by (cases "TCP_connect_calls b w")
    have "holds (set owned_fds) (add_mset n ?M) w'" if "opens (set owned_fds) ?M n w'" for n
      using that by (auto simp: holds_def)
    with runsD [OF TCP_connect_runs h r] show ?thesis
      using r l Op_connect s
      by (auto intro: leaves_accounted opens_accounted lost_accounted split: sum.splits connect_state.splits)
  next
    case (Op_target name)
    obtain r w' where r: "Client_create_terminate_target kn name w = (r, w')" by (cases "Client_create_terminate_target kn name w")
    from runsD [OF create_terminate_target_runs h r] show ?thesis
      using r l Op_target s by (auto intro: leaves_accounted opens_accounted split: sum.splits)
  next
    case (Op_addresses ifs)
    obtain r w' where r: "IpAddress_get_addresses ifs w = (r, w')" by (cases "IpAddress_get_addresses ifs w")
    from runsD [OF get_addresses_runs h r] show ?thesis
      using r l Op_addresses s by (auto intro: leaves_accounted lost_accounted split: sum.splits)
  next
    case (Op_close n)
    show ?thesis
    proof (cases "n \<in> set owned_fds")
      case True
      obtain r w' where r: "FD_close_calls n w = (r, w')" by (cases "FD_close_calls n w")
      have n: "n \<in># ?M" using True by simp
      let ?rest = "remove1 n owned_fds"
      have "mset owned_fds = add_mset n (mset ?rest)" using True by simp
      then have eq: "?M = add_mset n (M + mset ?rest + L)"
        by (simp only: union_mset_add_mset_left union_mset_add_mset_right)
      have d: "distinct owned_fds"
        using h by (auto simp: holds_def watched_ok_def intro!: distinct_mset_le [where ys = "os_open w"])
      from runsD [OF close_runs [OF n] h r] have w': "holds (set owned_fds - {n}) (?M - {#n#}) w' \<or> holds (set owned_fds) ?M w'"
        by (auto split: sum.splits)
      have "accounted M (remove1 n owned_fds, lost, w')"
        using w'
      proof
        assume "holds (set owned_fds - {n}) (?M - {#n#}) w'"
        then have "holds (set (remove1 n owned_fds)) (M + mset (remove1 n owned_fds) + L) w'"
          unfolding eq using d by (simp add: set_remove1_eq del: mset_remove1)
        then show ?thesis using l by (rule accountedI)
      next
        assume "holds (set owned_fds) ?M w'"
        then have "holds (set ?rest) ?M w'" by (rule holds_subset) (rule set_remove1_subset)
        then have "holds (set ?rest) (M + mset ?rest + add_mset n L) w'"
          unfolding eq by (simp only: union_mset_add_mset_right)
        then show ?thesis by (rule accountedI) (use l in simp)
      qed
      then show ?thesis using True r by (simp add: Op_close s)
    qed (use Op_close s h l accountedI in auto)
  next
    case Op_listen
    with hand_out_accounted [OF TCP_listen_runs h l] show ?thesis by (simp add: s)
  next
    case Op_unix_connect
    with hand_out_accounted [OF UnixSocket_connect_runs h l] show ?thesis by (simp add: s)
  next
    case (Op_unix_bind p)
    with hand_out_accounted [OF UnixSocket_bind_runs h l] show ?thesis by (simp add: s)
  qed
qed

text \<open>C28: Over every history of connecting, listening, opening the tun device, looking at the interfaces and closing, and whatever system calls
  fail: the open descriptors are those there were, those objects of the program have and those lost, each once. Every descriptor an object has is
  watched by the event loop, and what is watched is open, does not block and is in the table. At least one descriptor is lost by every connection
  attempt that fails at once and by every look at the interfaces.\<close>

theorem Descriptors_accounted_for:
  assumes "watched_ok w" and "foldl (run_setup kernel_name) ([], 0, w) cs = (owned_fds, lost, w')"
  shows "\<exists>leaked. mset (os_open w') = mset (os_open w) + mset owned_fds + leaked \<and> lost \<le> size leaked
    \<and> distinct (os_open w') \<and> set owned_fds \<subseteq> os_epoll w'
    \<and> os_epoll w' \<subseteq> set (os_open w') \<inter> os_nonblocking w' \<inter> os_table w'"
proof -
  have "accounted (mset (os_open w)) (foldl (run_setup kernel_name) s cs)" if "accounted (mset (os_open w)) s" for s
    using that by (induction cs arbitrary: s) (simp_all add: run_setup_accounted del: run_setup.simps)
  moreover have "accounted (mset (os_open w)) ([], 0, w)"
    by (rule accountedI [where L = "{#}"]) (use assms(1) in \<open>auto simp: holds_def\<close>)
  ultimately have "accounted (mset (os_open w)) (owned_fds, lost, w')" using assms(2) by metis
  then show ?thesis by (auto simp: accounted_def holds_def watched_ok_def)
qed

text \<open>A process with its standard descriptors, in which the first connection attempt finds the network unreachable.\<close>

definition example_os :: os where
  "example_os = \<lparr>os_open = [2, 1, 0], os_nonblocking = {}, os_cloexec = {}, os_epoll = {}, os_table = {}, os_errno = 0, os_count = 0,
     os_answers = (\<lambda>i. if i = 9 then - 101 else 0)\<rparr>"

lemma example_fd_history:
  "(case foldl (run_setup id) ([], 0, example_os) [Op_connect [], Op_addresses [], Op_connect []] of
      (owned_fds, lost, w') \<Rightarrow> owned_fds = [5] \<and> lost = 2 \<and> os_open w' = [5, 4, 3, 2, 1, 0])"
  by code_simp

theorem Descriptors_accounted_for_witness:
  "\<exists>owned_fds lost w' leaked. foldl (run_setup id) ([], 0, example_os) [Op_connect [], Op_addresses [], Op_connect []] = (owned_fds, lost, w')
     \<and> owned_fds = [5] \<and> os_open w' = [5, 4, 3, 2, 1, 0] \<and> mset (os_open w') = {#2, 1, 0#} + {#5#} + leaked \<and> 2 \<le> size leaked \<and> 5 \<in> os_epoll w'"
proof -
  let ?cs = "[Op_connect [], Op_addresses [], Op_connect []]"
  obtain owned_fds lost w' where r: "foldl (run_setup id) ([], 0, example_os) ?cs = (owned_fds, lost, w')"
    by (cases "foldl (run_setup id) ([], 0, example_os) ?cs")
  have e: "owned_fds = [5]" "lost = 2" "os_open w' = [5, 4, 3, 2, 1, 0]"
    using example_fd_history unfolding r by simp_all
  have "watched_ok example_os" by (simp add: watched_ok_def example_os_def)
  from Descriptors_accounted_for [OF this r] obtain leaked where
    l: "mset (os_open w') = mset (os_open example_os) + mset owned_fds + leaked" "lost \<le> size leaked" "set owned_fds \<subseteq> os_epoll w'"
    by blast
  have start: "os_open example_os = [2, 1, 0]" by (simp add: example_os_def)
  have all: "mset (os_open w') = {#2, 1, 0#} + {#5#} + leaked" using l(1) unfolding e(1) start by simp
  show ?thesis
    by (intro exI [of _ owned_fds] exI [of _ lost] exI [of _ w'] exI [of _ leaked] conjI r e all) (use l e in auto)
qed

end
