(* ===== verification/Handshake.thy ===== *)
theory Handshake
  imports Tls Mains
begin

text \<open>
  How client and server prepare their TLS sessions (\<^verbatim>\<open>libreactor/tls.cpp\<close>, \<^verbatim>\<open>app/client.cpp\<close>, \<^verbatim>\<open>app/server.cpp\<close>) and whether they end up
  with the same key.

  A session's configuration is what the class hands to OpenSSL before any data flows. OpenSSL asks the client's callback for an identity, terminated by a
  zero byte, and a key, and the server's callback for the key of that identity; the handshake succeeds if the keys are the same and not empty.
\<close>

section \<open>Configuration of a session\<close>

datatype ssl_side = Accept_state | Connect_state

record ssl_config =
  ssl_state :: "ssl_side option"
  tlsext_host_name :: bytes
  cipher_list :: bytes
  psk_identity_hint :: bytes
  client_psk_func :: "(bytes \<Rightarrow> bytes \<times> bytes) option"
  server_psk_func :: "(bytes \<Rightarrow> bytes result) option"

definition ssl_new :: ssl_config where
  "ssl_new = \<lparr>ssl_state = None, tlsext_host_name = [], cipher_list = [], psk_identity_hint = [], client_psk_func = None, server_psk_func = None\<rparr>"

definition TlsStream_handshake_as_server :: "ssl_config \<Rightarrow> ssl_config" where
  "TlsStream_handshake_as_server c = c\<lparr>ssl_state := Some Accept_state\<rparr>"

definition TlsStream_handshake_as_client :: "ssl_config \<Rightarrow> ssl_config" where
  "TlsStream_handshake_as_client c = c\<lparr>ssl_state := Some Connect_state\<rparr>"

definition TlsStream_set_host_name :: "bytes \<Rightarrow> ssl_config \<Rightarrow> ssl_config" where
  "TlsStream_set_host_name name c = c\<lparr>tlsext_host_name := name\<rparr>"

definition TlsStream_set_cipher_list :: "bytes \<Rightarrow> ssl_config \<Rightarrow> ssl_config" where
  "TlsStream_set_cipher_list l c = c\<lparr>cipher_list := l\<rparr>"

definition TlsStream_set_psk_identity_hint :: "bytes \<Rightarrow> ssl_config \<Rightarrow> ssl_config" where
  "TlsStream_set_psk_identity_hint hint c = c\<lparr>psk_identity_hint := hint\<rparr>"

definition TlsStream_set_psk_client_callback :: "(bytes \<Rightarrow> bytes \<times> bytes) \<Rightarrow> ssl_config \<Rightarrow> ssl_config" where
  "TlsStream_set_psk_client_callback func c = c\<lparr>client_psk_func := Some func\<rparr>"

definition TlsStream_set_psk_server_callback :: "(bytes \<Rightarrow> bytes result) \<Rightarrow> ssl_config \<Rightarrow> ssl_config" where
  "TlsStream_set_psk_server_callback func c = c\<lparr>server_psk_func := Some func\<rparr>"

lemmas session_defs = ssl_new_def TlsStream_handshake_as_server_def TlsStream_handshake_as_client_def TlsStream_set_cipher_list_def
  TlsStream_set_psk_client_callback_def TlsStream_set_psk_server_callback_def

section \<open>The two programs\<close>

definition CIPHERS :: bytes where "CIPHERS = ascii ''PSK-AES256-CBC-SHA''"

text \<open>The client's sessions, for the identity and the key of its options, and the server's, for its identity file.\<close>

definition Client_session :: "bytes \<Rightarrow> bytes \<Rightarrow> ssl_config" where
  "Client_session identity psk =
     TlsStream_set_cipher_list CIPHERS
      (TlsStream_set_psk_client_callback (\<lambda>hint. (identity, psk))
        (TlsStream_handshake_as_client ssl_new))"

definition Server_session :: "bytes list option \<Rightarrow> ssl_config" where
  "Server_session file =
     TlsStream_handshake_as_server
      (TlsStream_set_psk_server_callback (file_identity_callback file)
        (TlsStream_set_cipher_list CIPHERS ssl_new))"

text \<open>The server's main program: \<open>status\<close> is the exit status of the child process that is run to try its options.\<close>

record server_args =
  s_help :: bool
  s_listen_port :: "int option"
  s_listen_host :: "bytes option"
  s_child_options :: "bytes list option"
  s_identity_file :: "bytes option"

datatype server_outcome = Server_usage | Server_runs bytes int "bytes list" bytes

definition server_main :: "(bytes list \<Rightarrow> int) \<Rightarrow> server_args \<Rightarrow> server_outcome result" where
  "server_main status args =
     (if s_help args then Inr Server_usage
      else let listen_port = (case s_listen_port args of None \<Rightarrow> 4500 | Some p \<Rightarrow> p);
               listen_host = (case s_listen_host args of None \<Rightarrow> ascii ''127.0.0.1'' | Some h \<Rightarrow> h);
               identity_file = (case s_identity_file args of None \<Rightarrow> ascii ''identity_default'' | Some f \<Rightarrow> f);
               child_options = (case s_child_options args of None \<Rightarrow> [] | Some os \<Rightarrow> os)
           in bindR (Popen_check (status (verify_command child_options))) (\<lambda>_.
                Inr (Server_runs listen_host listen_port child_options identity_file)))"

section \<open>The keys\<close>

text \<open>The callbacks as OpenSSL calls them: the keys of client and server.\<close>

definition psk_exchange :: "nat \<Rightarrow> nat \<Rightarrow> ssl_config \<Rightarrow> ssl_config \<Rightarrow> (bytes \<times> bytes) result" where
  "psk_exchange max_identity_len max_psk_len c s = (case (client_psk_func c, server_psk_func s) of
       (Some cf, Some sf) \<Rightarrow>
         bindR (psk_client_callback cf (psk_identity_hint s) max_identity_len max_psk_len) (\<lambda>(identity_out, client_key, n).
         bindR (sf (c_str identity_out)) (\<lambda>key.
         bindR (psk_server_callback (\<lambda>_. key) (c_str identity_out) max_psk_len) (\<lambda>(server_key, m).
           Inr (client_key, server_key))))
     | _ \<Rightarrow> Inl (Thrown ''no callback''))"

definition sessions_match :: "ssl_config \<Rightarrow> ssl_config \<Rightarrow> bool" where
  "sessions_match c s \<longleftrightarrow> ssl_state c = Some Connect_state \<and> ssl_state s = Some Accept_state \<and> cipher_list c = cipher_list s"

text \<open>A line of the identity file that holds the key of an identity.\<close>

definition line_of :: "bytes \<Rightarrow> bytes \<Rightarrow> bool" where
  "line_of identity l \<longleftrightarrow> length (identity @ [58]) < length l \<and> take (length (identity @ [58])) l = identity @ [58]"

definition low_digit :: "u8 \<Rightarrow> u8" where
  "low_digit c = of_nat (unat c mod 16)"

lemma find_identity_find:
  "find_identity ls identity = (case find (line_of identity) ls of
     None \<Rightarrow> Inr [] | Some l \<Rightarrow> hex_decode (drop (length identity + 1) l))"
  by (induction ls) (simp_all add: line_of_def Let_def)

lemma hex_decode_encode: "hex_decode (hex_encode v) = Inr (map low_digit v)"
  unfolding hex_decode_loses_high_digit low_digit_def ..

lemma c_str_terminated: "0 \<notin> set identity \<Longrightarrow> c_str (identity @ [0]) = identity"
  unfolding c_str_def by (induction identity) simp_all

lemma Client_Server_match: "sessions_match (Client_session identity psk) (Server_session file)"
  by (simp add: sessions_match_def Client_session_def Server_session_def session_defs)

text \<open>C34: What client and server hand to OpenSSL fits together: one connects, the other accepts, with the same ciphers. For a client started with an identity and the
  key \<open>v\<close> in hexadecimal, and a server whose file has the key \<open>v'\<close> on the first line of that identity, the handshake gets a key from both,
  and the keys are the same exactly if \<open>v\<close> and \<open>v'\<close> have the same length and agree in the second hexadecimal digit of every byte: the
  right key is accepted, but so is every key that differs from it only in first digits. Without a line for the identity the server has no key.\<close>

theorem Handshake_keys_agree:
  assumes "0 \<notin> set identity" and "length identity < max_identity_len" and "length v \<le> max_psk_len" and "length v' \<le> max_psk_len"
    and "hex_decode (hex_encode v) = Inr psk"
    and "find (line_of identity) ls = (if v' = [] then None else Some (identity @ [58] @ hex_encode v'))"
  shows "sessions_match (Client_session identity psk) (Server_session (Some ls))
    \<and> (\<exists>k k'. psk_exchange max_identity_len max_psk_len (Client_session identity psk) (Server_session (Some ls)) = Inr (k, k')
        \<and> (k = k' \<longleftrightarrow> map low_digit v = map low_digit v') \<and> (k' = [] \<longleftrightarrow> v' = []) \<and> (v = v' \<longrightarrow> k = k'))"
proof -
  have psk: "psk = map low_digit v" using assms(5) by (simp add: hex_decode_encode)
  have key: "file_identity_callback (Some ls) identity = Inr (map low_digit v')"
    using assms(6) by (cases "v' = []") (simp_all add: file_identity_callback_def find_identity_find hex_decode_encode)
  have "psk_exchange max_identity_len max_psk_len (Client_session identity psk) (Server_session (Some ls))
      = Inr (map low_digit v, map low_digit v')"
    using assms(2-4) key
    by (simp add: psk_exchange_def Client_session_def Server_session_def session_defs psk_client_callback_def psk_server_callback_def
        c_str_terminated [OF assms(1)] psk)
  then show ?thesis using Client_Server_match by auto
qed

text \<open>The default key of the client, and an identity file with a key that differs in every first digit.\<close>

theorem Handshake_keys_agree_witness:
  "\<exists>k. psk_exchange 128 256 (Client_session (ascii ''hello'') [13, 1]) (Server_session (Some [ascii ''other:00'', ascii ''hello:0d01'']))
      = Inr (k, k)
    \<and> hex_decode (ascii ''6d41'') = Inr [13, 1]"
proof -
  let ?ls = "[ascii ''other:00'', ascii ''hello:0d01'']"
  have e: "ascii ''6d41'' = hex_encode [0x6d, 0x41]" "ascii ''hello:0d01'' = ascii ''hello'' @ [58] @ hex_encode [0x0d, 0x01]"
    by (simp_all add: ascii_def hex_encode_def hex2_def hex_digits_def)
  have d: "hex_decode (hex_encode [0x6d, 0x41]) = Inr [13, 1]"
    by (simp add: hex_decode_encode low_digit_def)
  have f: "find (line_of (ascii ''hello'')) ?ls = (if [0x0d, 0x01 :: u8] = [] then None else Some (ascii ''hello'' @ [58] @ hex_encode [0x0d, 0x01]))"
    by (simp add: line_of_def ascii_def hex_encode_def hex2_def hex_digits_def)
  have h: "0 \<notin> set (ascii ''hello'')" "length (ascii ''hello'') < 128" by (simp_all add: ascii_def)
  have "\<exists>k k'. psk_exchange 128 256 (Client_session (ascii ''hello'') [13, 1]) (Server_session (Some ?ls)) = Inr (k, k')
      \<and> (k = k' \<longleftrightarrow> map low_digit [0x6d, 0x41] = map low_digit [0x0d, 0x01])"
    using Handshake_keys_agree [OF h _ _ d f, of 256] by auto
  then show ?thesis using d unfolding e(1) by (auto simp: low_digit_def)
qed

end
