(* ===== verification/Spec2Isabelle.thy ===== *)
theory Spec2Isabelle
  imports Buffers Streams Reactor Future Timer Throttled Packet_Streams Ioutil Misc Process
    Queues Stats Link Std_Heap Multilink Transport Tunnel Ip Terminate Mux_Pair End_To_End Lwip Tls Relay Byte_Strings Sockets Targets App Mains Spawn Driver
    Descriptors Handshake
begin

text \<open>
  Verification of Multilink, a user-level tunnel that bundles several network connections into one.

  \<^bold>\<open>The program.\<close> A client and a server are joined by several TCP connections, each over another interface. On each of them runs a
  \<^emph>\<open>link\<close>, which frames packets, measures bandwidth and round-trip time and keeps sent packets until they are acknowledged. The
  \<^emph>\<open>multilink\<close> distributes the packets of its client over the links by estimated completion time and re-queues what a dead
  link leaves behind. Packets therefore arrive in any order, and sometimes twice. The \<^emph>\<open>transport\<close> above it numbers the packets of
  each channel and restores their order for the channel's target. Targets are TCP connections, or the \<^emph>\<open>terminator\<close>: a tun device whose
  TCP connections end in the lwIP stack and whose other packets pass as they are. Everything runs on one thread, in an
  event loop that calls the callbacks of streams, timers, signals and futures.

  \<^bold>\<open>How the code is modelled.\<close> A class is a record with the fields of the class, a method is a function on it, a callback that only
  notifies is counted or returned as a value. Integers keep their width where the code computes with them (\<open>Prelude\<close>).
  Assertions, exceptions, aborts and undefined behaviour are the left values of \<open>'a result\<close>. Abstract classes are records of
  operations; what their users may assume is a locale: \<open>byte_stream\<close>, \<open>packet_sink\<close>, \<open>packet_source\<close>, \<open>packet_duplex\<close>,
  \<open>packet_bag\<close> and \<open>packet_network\<close> in \<open>Streams\<close>. Implementations are shown to satisfy them by sublocale and interpretation: a file
  descriptor is a byte stream if the kernel keeps its contract, a \<open>LengthPacketStream\<close> over any byte stream is a packet duplex, a multilink
  is a packet network, an lwIP connection is a byte stream as long as lwIP refuses nothing. The properties of the users hold over every implementation.

  \<^bold>\<open>Theories.\<close>
  \<^item> \<open>Prelude\<close>: words and byte strings, little endian fields, results, reachability.
  \<^item> \<open>Buffers\<close> (\<^verbatim>\<open>libreactor/buffer.h, buffer.cpp\<close>): views with bounds checks, typed access, and the ownership of allocations
    over an explicit store. No sequence of operations frees twice or leaks.
  \<^item> \<open>Byte_Strings\<close> (\<^verbatim>\<open>libreactor/bytestring.cpp\<close>): byte strings shared by reference.
  \<^item> \<open>Streams\<close> (\<^verbatim>\<open>libreactor/reactor.h, packet_stream.h\<close>): the interfaces and their contracts.
  \<^item> \<open>Reactor\<close> (\<^verbatim>\<open>libreactor/reactor.cpp, epoll.cpp, signals.cpp\<close>): file descriptors, the event loop, signal flags.
  \<^item> \<open>Future\<close> (\<^verbatim>\<open>libreactor/future.h\<close>): futures in an explicit store; continuations behave alike in either order of attachment and
    completion, joins work, a second consumer replaces the first, and waiting ends with the step that completes the future; an
    exception thrown on is cut down to \<open>std::exception\<close>.
  \<^item> \<open>Timer\<close> (\<^verbatim>\<open>libreactor/timer.cpp\<close>): the event queue is the standard heap; due events run in order of time.
  \<^item> \<open>Throttled\<close> (\<^verbatim>\<open>libreactor/throttled.cpp\<close>): the rate bound and the delay queue.
  \<^item> \<open>Packet_Streams\<close> (\<^verbatim>\<open>libreactor/packet_stream_util.cpp\<close>): packets over a byte stream, with and without length framing, and
    pipes between packet streams.
  \<^item> \<open>Relay\<close>: two byte streams joined by pipes in both directions, as the server joins client and child.
  \<^item> \<open>Ioutil\<close> (\<^verbatim>\<open>libreactor/ioutil.cpp, streamutil.cpp\<close>): reading and writing an exact number of bytes.
  \<^item> \<open>Misc\<close> (\<^verbatim>\<open>libreactor/misc.cpp, logging.cpp, buffer.cpp\<close>): hexadecimal coding and escaping.
  \<^item> \<open>Process\<close> (\<^verbatim>\<open>libreactor/process.cpp\<close>): the descriptors of parent and child, pipes, the process table, the handler of SIGCHLD.
  \<^item> \<open>Queues\<close> (\<^verbatim>\<open>multilink/packet_queue.cpp, write_queue.cpp\<close>): bounded queues.
  \<^item> \<open>Stats\<close> (\<^verbatim>\<open>multilink/multilink_stats.cpp\<close>): sliding windows and bandwidth.
  \<^item> \<open>Link\<close> (\<^verbatim>\<open>multilink/multilink_link.cpp\<close>): all handlers of a link, as a step relation; order, acknowledgement, totality.
  \<^item> \<open>Std_Heap\<close>: \<^verbatim>\<open>std::make_heap, push_heap, pop_heap\<close> and their laws.
  \<^item> \<open>Multilink\<close> (\<^verbatim>\<open>multilink/multilink.cpp\<close>): conservation of packets, totality, and the greedy assignment.
  \<^item> \<open>Transport\<close> (\<^verbatim>\<open>multilink/transport.cpp\<close>): channels; in-order delivery from any arrival order, numbering, dispatch, closing.
  \<^item> \<open>Tunnel\<close>: compositions. Two links joined by a connection, and two transports over multilinks running all their handlers in
    any order: what a target has been sent is an initial part of what the target at the other end supplies.
  \<^item> \<open>Mux_Pair\<close>: two multilinks joined by connections. The locale \<open>link_claim\<close> carries a claim about single links to a multilink and all its
    handlers; a multilink hands over only packets its peer's client sent.
  \<^item> \<open>End_To_End\<close>: the composition of all of these. A node is a multilink whose client is a transport; two nodes are joined by streams that
    bring an initial part of what was written. Targets receive exactly an initial part of what the targets of the other side supply.
  \<^item> \<open>Ip\<close> (\<^verbatim>\<open>terminate/ippacket.cpp, address.h\<close>): addresses, checksums, the raw packet stream.
  \<^item> \<open>Terminate\<close> (\<^verbatim>\<open>terminate/terminate.cpp, terminate_misc.h\<close>): channel headers and identifiers, header streams.
  \<^item> \<open>Lwip\<close> (\<^verbatim>\<open>terminate/lwip_tcp.cpp\<close>): terminated TCP connections, the listener and the network interface; what lwIP may
    refuse fails the assertions of \<open>write\<close>.
  \<^item> \<open>Tls\<close> (\<^verbatim>\<open>libreactor/tls.cpp\<close>): the encrypted stream over an OpenSSL session given by its contract, itself a byte stream.
  \<^item> \<open>Sockets\<close> (\<^verbatim>\<open>libreactor/tcp.cpp, unix_socket.cpp, terminate/tun.cpp\<close>): what connecting, binding and accepting decide around
    the system calls.
  \<^item> \<open>Descriptors\<close> (\<^verbatim>\<open>libreactor/epoll.cpp, tcp.cpp, unix_socket.cpp, terminate/tun.cpp, address.cpp\<close> and the set-up in \<^verbatim>\<open>app\<close>): the system
    calls in their order, as operations that keep the state they reached when they throw; every open descriptor is accounted for.
  \<^item> \<open>Targets\<close> (\<^verbatim>\<open>multilink/transport_targets.cpp\<close>): accepted connections become channels numbered from zero.
  \<^item> \<open>App\<close> (\<^verbatim>\<open>app/client.cpp, server.cpp, rpc.cpp, server_child.cpp\<close>): the messages by which client, server and child agree on a
    link, the identity file, and the client's bookkeeping of its links.
  \<^item> \<open>Handshake\<close> (\<^verbatim>\<open>libreactor/tls.cpp, app/client.cpp, server.cpp\<close>): what client and server hand to OpenSSL, when they get the
    same key, and the server's main program.
  \<^item> \<open>Mains\<close> (the same files, \<^verbatim>\<open>terminate/address.cpp\<close>): the options, what the server does to hand a link to its child, and the addresses.
  \<^item> \<open>Spawn\<close> (\<^verbatim>\<open>app/server.cpp\<close>): the start of a child process, which inherits exactly the socket meant for it, the
    server's table of children, and the connections of clients, each of which reaches the child of its client or ends the server.
  \<^item> \<open>Driver\<close> (\<^verbatim>\<open>app/app.cpp\<close>): the test server; every stream it is given has one owner until it is overwritten.

  \<^bold>\<open>Loops.\<close> Loops whose progress is visible in their state are functions with a measure. Loops whose end depends on an environment
  take fuel, and exhausting it is the failure \<open>Fuel_exhausted\<close>; for each of them a lemma gives the amount that is enough: for reading a
  link the bytes that have arrived, for sending the packets queued, for \<open>ioutil\<close> the bytes asked for, for the timer the due
  events, for the SIGCHLD handler the finished children, for a transport
  asked for packets one round more than there is room. Where no amount is enough the property says so.

  \<^bold>\<open>Scheduling.\<close> \<open>Reactor::schedule\<close> asserts that fewer than a thousand functions wait. \<open>Reactor_schedule\<close> has this assertion. A
  component keeps what it schedules in a list of its own, and \<open>schedule_new\<close> makes these calls on a reactor, with the assertion. Where the number
  of calls in one handler has no bound, the properties are stated on a reactor: for a link every message it reads
  may schedule a function (\<open>Link_transport_read_ready_total\<close>), and for a \<open>LengthPacketStream\<close> every packet fetched does
  (\<open>LengthPacketStream_delivers_in_order\<close>), so both can fail this assertion. The other operations schedule a bounded number of
  functions each, and their properties hold as long as the queue has room for these.

  \<^bold>\<open>Compositions.\<close> The handlers of a transport are proved over any network that hands over only what was sent, so losing, delaying,
  reordering and duplicating packets are covered (\<open>packet_sender\<close>, \<open>packet_node\<close> in \<open>Tunnel\<close>). The claims about links of \<open>Mux_Pair\<close>, together with the
  bytes that have arrived on each stream, show in \<open>End_To_End\<close> that a multilink is such a network for its transport: the invariant of a
  node joins that of the transport with what its multilink holds, has framed and has heard. The multilink calls its client in the middle of
  its own work; the model gives the transport an outbox with as much room as the queue, and \<open>outbox_adequate\<close> shows
  that this is the transport running on the multilink itself. That the multilink keeps what it was given until it is acknowledged is the
  conservation law of \<open>Multilink\<close>, and that its links transmit packets unchanged and in order is \<open>Link_pair_in_order\<close>. These are
  safety properties and need no fuel bound, since a handler that does not finish takes no step.

  \<^bold>\<open>Not modelled.\<close> The kernel, OpenSSL, lwIP and the JSON library are parameters: a system call is the result it returns, or its
  \<open>errno\<close>. Functions that only fill a structure of the system, set an option of a library or print are left out. The main programs
  under \<^verbatim>\<open>app\<close> parse options and connect components. \<^verbatim>\<open>multilink/reorder_stream.cpp\<close> is left out: nothing builds it, its header
  is missing, and it uses the result of \<open>send\<close>, which has none. The accounting of descriptors covers the set-up; what becomes of a descriptor once an
  object has it is the subject of the other theories. Logging is omitted throughout, and
  the floating point numbers of the statistics are reals.
\<close>

end
